(* ===== verification/Prelude.thy ===== *)
theory Prelude
  imports Main "HOL-Library.Word" "HOL-Library.Multiset" "HOL-Library.Char_ord"
    "HOL-Library.List_Lexorder" "HOL-Library.Signed_Division"
begin

text \<open>
  Vocabulary shared by every component: Go's byte strings, its 64-bit integers, the ways
  a Go call can end, the two formatting verbs the program uses (\<open>%x\<close> and \<open>%d\<close>), and the
  facts about lists that several components need.
\<close>

section \<open>Types\<close>

text \<open>
  A Go \<open>string\<close> and a \<open>[]byte\<close> are both sequences of bytes: a \<open>char\<close> of HOL is one byte.
  An \<open>error\<close> value is represented by the text its \<open>Error()\<close> method returns. \<open>int64\<close> and
  \<open>uint64\<close> are 64-bit words; signed comparisons read the word through \<open>sint\<close>.
\<close>

type_synonym bytes = string
type_synonym err = string
type_synonym i64 = "64 word"
type_synonym u64 = "64 word"

text \<open>
  How a call ends: it returns, it panics (nil dereference, comparison of slices, failed
  type assertion), or it leaves the process through a \<open>Fatal\<close> log call.
\<close>

datatype 'a outcome = Ret 'a | Panic string | Fatal string

definition obind :: "'a outcome \<Rightarrow> ('a \<Rightarrow> 'b outcome) \<Rightarrow> 'b outcome" where
  "obind m f = (case m of Ret x \<Rightarrow> f x | Panic e \<Rightarrow> Panic e | Fatal e \<Rightarrow> Fatal e)"

lemma obind_simps [simp]:
  "obind (Ret x) f = f x"
  "obind (Panic e) f = Panic e"
  "obind (Fatal e) f = Fatal e"
  by (simp_all add: obind_def)

lemma obind_eq_Ret [simp]: "obind m f = Ret y \<longleftrightarrow> (\<exists>x. m = Ret x \<and> f x = Ret y)"
  by (cases m) auto

named_theorems go_format \<open>lengths, alphabets and injectivity of formatted values\<close>

section \<open>The verb x: lower-case hexadecimal, two digits a byte\<close>

definition hexdigit :: "nat \<Rightarrow> char" where
  "hexdigit n = ''0123456789abcdef'' ! (n mod 16)"

fun hex :: "bytes \<Rightarrow> string" where
  "hex [] = []"
| "hex (c # cs) = hexdigit (of_char c div 16) # hexdigit (of_char c) # hex cs"

lemma distinct_hexdigits: "distinct ''0123456789abcdef''"
  by simp

lemma hexdigit_eq_iff: "hexdigit m = hexdigit n \<longleftrightarrow> m mod 16 = n mod 16"
  unfolding hexdigit_def by (subst nth_eq_iff_index_eq [OF distinct_hexdigits]) auto

lemma of_char_less_256: "of_char c < (256::nat)"
  by (simp add: of_char_def)

lemma length_hex [simp]: "length (hex bs) = 2 * length bs"
  by (induction bs rule: hex.induct) auto

lemma hex_eq_Nil_iff [simp]: "hex bs = [] \<longleftrightarrow> bs = []"
  by (cases bs) auto

lemma hex_inject [go_format, simp]: "hex a = hex b \<longleftrightarrow> a = b"
proof (induction a arbitrary: b rule: hex.induct)
  case 1
  then show ?case by (metis hex_eq_Nil_iff)
next
  case (2 c cs)
  show ?case
  proof (cases b)
    case Nil
    then show ?thesis by simp
  next
    case (Cons d ds)
    have "c = d" if h: "of_char c div 16 mod 16 = (of_char d div 16 mod 16 :: nat)"
      and l: "of_char c mod 16 = (of_char d mod 16 :: nat)"
    proof -
      have "of_char c div 16 = (of_char d div 16 :: nat)"
        using h of_char_less_256 [of c] of_char_less_256 [of d] by (simp add: mod_less)
      with l have "of_char c = (of_char d :: nat)"
        by (metis div_mult_mod_eq)
      then show ?thesis by simp
    qed
    with Cons show ?thesis
      by (auto simp: hexdigit_eq_iff "2.IH")
  qed
qed

section \<open>The verb d: decimal\<close>

definition digit_chars :: string where
  "digit_chars = ''0123456789''"

definition decdigit :: "int \<Rightarrow> char" where
  "decdigit n = digit_chars ! nat (n mod 10)"

lemma digit_chars [simp]: "distinct digit_chars" "length digit_chars = 10" "CHR ''-'' \<notin> set digit_chars"
  by (simp_all add: digit_chars_def)

lemma decdigit_eq_iff: "decdigit m = decdigit n \<longleftrightarrow> m mod 10 = n mod 10"
proof -
  have "nat (m mod 10) = nat (n mod 10) \<longleftrightarrow> m mod 10 = n mod 10"
    by (simp add: eq_nat_nat_iff)
  then show ?thesis
    unfolding decdigit_def by (subst nth_eq_iff_index_eq) (auto simp: nat_less_iff)
qed

lemma decdigit_in [simp]: "decdigit n \<in> set digit_chars"
  unfolding decdigit_def by (rule nth_mem) (simp add: nat_less_iff)

text \<open>The digits of a number that is not negative, then the verb with its sign.\<close>

function dec_pos :: "int \<Rightarrow> string" where
  "dec_pos n = (if n < 10 then [decdigit n] else dec_pos (n div 10) @ [decdigit n])"
  by pat_completeness auto
termination
  by (relation "measure nat") auto

declare dec_pos.simps [simp del]

definition dec :: "int \<Rightarrow> string" where
  "dec i = (if i < 0 then CHR ''-'' # dec_pos (- i) else dec_pos i)"

lemma dec_pos_nonempty [simp]: "dec_pos n \<noteq> []"
  by (subst dec_pos.simps) simp

lemma set_dec_pos [go_format]: "set (dec_pos n) \<subseteq> set digit_chars"
proof (induction n rule: dec_pos.induct)
  case (1 n)
  then show ?case
    by (subst dec_pos.simps) simp
qed

lemma dec_pos_small: "n < 10 \<Longrightarrow> dec_pos n = [decdigit n]"
  by (simp add: dec_pos.simps)

lemma dec_pos_large: "\<not> n < 10 \<Longrightarrow> dec_pos n = dec_pos (n div 10) @ [decdigit n]"
  by (subst dec_pos.simps) simp

lemma dec_pos_inject: "0 \<le> m \<Longrightarrow> 0 \<le> n \<Longrightarrow> dec_pos m = dec_pos n \<longleftrightarrow> m = n"
proof (induction m arbitrary: n rule: dec_pos.induct)
  case (1 m)
  show ?case
  proof (cases "m < 10"; cases "n < 10")
    assume "m < 10" and "n < 10"
    then show ?thesis using "1.prems" by (simp add: dec_pos_small decdigit_eq_iff)
  next
    assume "m < 10" and "\<not> n < 10"
    then show ?thesis by (auto simp: dec_pos_small dec_pos_large Cons_eq_append_conv append_eq_Cons_conv)
  next
    assume "\<not> m < 10" and "n < 10"
    then show ?thesis by (auto simp: dec_pos_small dec_pos_large Cons_eq_append_conv append_eq_Cons_conv)
  next
    assume m: "\<not> m < 10" and n: "\<not> n < 10"
    have "dec_pos m = dec_pos n \<longleftrightarrow> dec_pos (m div 10) = dec_pos (n div 10) \<and> m mod 10 = n mod 10"
      using m n by (simp add: dec_pos_large decdigit_eq_iff)
    also have "\<dots> \<longleftrightarrow> m div 10 = n div 10 \<and> m mod 10 = n mod 10"
      using "1.IH" [OF m, of "n div 10"] "1.prems" n m by simp
    also have "\<dots> \<longleftrightarrow> m = n" by (metis div_mult_mod_eq)
    finally show ?thesis .
  qed
qed

lemma dec_pos_no_minus: "dec_pos n \<noteq> CHR ''-'' # cs"
proof
  assume "dec_pos n = CHR ''-'' # cs"
  then have "CHR ''-'' \<in> set (dec_pos n)" by simp
  with set_dec_pos [of n] show False using digit_chars(3) by blast
qed

lemma dec_inject [go_format, simp]: "dec i = dec j \<longleftrightarrow> i = j"
  unfolding dec_def using dec_pos_no_minus
  by (auto simp: dec_pos_inject dest: sym)

section \<open>Lists\<close>

lemma append_eq_same_length:
  "length a = length c \<Longrightarrow> a @ b = c @ d \<longleftrightarrow> a = c \<and> b = d"
  by (rule append_eq_append_conv) simp

lemma sort_eq_Nil_iff [simp]: "sort xs = [] \<longleftrightarrow> xs = []"
  by (metis mset_sort mset_zero_iff)

lemma mset_rotate1 [simp]: "mset (rotate1 xs) = mset xs"
  by (cases xs) simp_all

lemma mset_rotate [simp]: "mset (rotate n xs) = mset xs"
  by (induction n) (simp_all add: rotate_Suc)

text \<open>A sorted list is determined by its elements, so \<open>sort.Strings\<close> has one result.\<close>

lemma sort_eq_iff_mset: "sort xs = sort ys \<longleftrightarrow> mset xs = mset (ys :: 'a::linorder list)"
  by (metis mset_sort properties_for_sort sorted_sort)

section \<open>Configuration\<close>

text \<open>The typed getters of \<open>viper\<close> the program uses; a missing key reads as the zero value.\<close>

record viper =
  GetString :: "string \<Rightarrow> string"
  GetStringSlice :: "string \<Rightarrow> string list"
  GetDuration :: "string \<Rightarrow> i64"
  GetInt :: "string \<Rightarrow> i64"
  GetBool :: "string \<Rightarrow> bool"

end
