(* ===== verification/Protos.thy ===== *)
theory Protos
  imports Prelude
begin

text \<open>
  The data of package \<open>protos\<close>: the struct \<open>Document\<close> and the enum \<open>DocProofStatus\<close> of
  \<open>poe.pb.go\<close>, and \<open>ProofStat\<close> of \<open>poe.more.go\<close>. A pointer to a document is modelled by its
  value; the protobuf encoder itself is third-party code and appears only as a parameter of
  the Kafka cache.
\<close>

datatype DocProofStatus = NOT_SPECIFIAL | NOT_PROOFED | ALREADY_PROOFED

fun status_int32 :: "DocProofStatus \<Rightarrow> int" where
  "status_int32 NOT_SPECIFIAL = 0"
| "status_int32 NOT_PROOFED = 1"
| "status_int32 ALREADY_PROOFED = 2"

record document =
  Id :: string
  BlockDigest :: string
  SubmitTime :: i64
  ProofTime :: i64
  Hash :: string
  WaitDuration :: i64
  Metadata :: string
  Txid :: string
  Sign :: string
  AppName :: string
  ProofStatus :: DocProofStatus

text \<open>The zero value \<open>protos.Document{}\<close>.\<close>

definition zero_doc :: document where
  "zero_doc = \<lparr>Id = [], BlockDigest = [], SubmitTime = 0, ProofTime = 0, Hash = [],
     WaitDuration = 0, Metadata = [], Txid = [], Sign = [], AppName = [],
     ProofStatus = NOT_SPECIFIAL\<rparr>"

record proofStat =
  StartTime :: i64
  EndTime :: i64
  TotalDocs :: i64
  WaitDocs :: i64
  ProofedDocs :: i64

instantiation DocProofStatus :: linorder
begin

definition less_eq_DocProofStatus :: "DocProofStatus \<Rightarrow> DocProofStatus \<Rightarrow> bool" where
  "less_eq_DocProofStatus a b \<longleftrightarrow> status_int32 a \<le> status_int32 b"

definition less_DocProofStatus :: "DocProofStatus \<Rightarrow> DocProofStatus \<Rightarrow> bool" where
  "less_DocProofStatus a b \<longleftrightarrow> status_int32 a < status_int32 b"

lemma status_int32_inject: "status_int32 a = status_int32 b \<Longrightarrow> a = b"
  by (cases a; cases b) simp_all

instance
proof
  fix a b c :: DocProofStatus
  show "a \<le> b \<Longrightarrow> b \<le> a \<Longrightarrow> a = b"
    by (simp add: less_eq_DocProofStatus_def status_int32_inject)
qed (auto simp: less_eq_DocProofStatus_def less_DocProofStatus_def)

end

end
