(* ===== verification/Balance.thy ===== *)
theory Balance
  imports Prelude
begin

text \<open>
  The peer balancer, \<open>blockchain/balance.go\<close>. A ring of Go's \<open>container/ring\<close> is the list of its
  values read from the element the pointer designates; nil is the empty list. Each method runs
  under the lock, so it is one step. The interface \<open>backends\<close> is a locale, interpreted on the
  round-robin implementation.
\<close>

section \<open>Rings\<close>

text \<open>A ring value is nil until \<open>newRoundRobin\<close> stores a backend (its host name) in it.\<close>

type_synonym ring = "string option list"

definition ring_New :: "nat \<Rightarrow> ring" where
  "ring_New n = replicate n None"

definition ring_Next :: "ring \<Rightarrow> ring" where
  "ring_Next r = rotate1 r"

definition ring_Len :: "ring \<Rightarrow> nat" where
  "ring_Len r = length r"

text \<open>
  \<open>r.Link(s)\<close> for a ring \<open>s\<close> other than \<open>r\<close> inserts \<open>s\<close> after \<open>r\<close> and returns the original
  successor of \<open>r\<close>. \<open>r.Unlink(1)\<close> takes the successor of \<open>r\<close> out and returns the ring that was
  taken out; on a ring of one element it returns that element.
\<close>

definition ring_Link :: "ring \<Rightarrow> ring \<Rightarrow> ring" where
  "ring_Link r s = (case r of [] \<Rightarrow> [] | x # xs \<Rightarrow> rotate (Suc (length s)) (x # s @ xs))"

fun ring_Unlink1 :: "ring \<Rightarrow> ring" where
  "ring_Unlink1 (x # y # ys) = [y]"
| "ring_Unlink1 r = r"

section \<open>The round-robin balancer\<close>

fun fill_ring :: "string list \<Rightarrow> ring \<Rightarrow> ring" where
  "fill_ring [] r = r"
| "fill_ring (s # ss) r = fill_ring ss (ring_Next (Some s # tl r))"

definition newRoundRobin :: "string list \<Rightarrow> ring" where
  "newRoundRobin strs = fill_ring strs (ring_New (length strs))"

definition factories :: "string \<Rightarrow> (string list \<Rightarrow> ring) option" where
  "factories = [''round-robin'' \<mapsto> newRoundRobin]"

function build :: "string \<Rightarrow> string list \<Rightarrow> ring" where
  "build algorithm specs =
     (case factories algorithm of
        None \<Rightarrow> build ''round-robin'' specs
      | Some factory \<Rightarrow> factory specs)"
  by pat_completeness auto
termination
  by (relation "measure (\<lambda>(algorithm, specs). if factories algorithm = None then 1 else 0)")
     (auto simp: factories_def)

declare build.simps [simp del]

definition Len :: "ring \<Rightarrow> nat" where
  "Len self = ring_Len self"

text \<open>\<open>Choose\<close> on an empty balancer returns a nil backend; the type assertion panics on nil.\<close>

definition Choose :: "ring \<Rightarrow> ring \<times> string option outcome" where
  "Choose self =
     (case self of
        [] \<Rightarrow> (self, Ret None)
      | v # vs \<Rightarrow> (case v of
            None \<Rightarrow> (self, Panic ''interface conversion: interface is nil'')
          | Some b \<Rightarrow> (ring_Next self, Ret (Some b))))"

definition Add :: "string \<Rightarrow> ring \<Rightarrow> ring" where
  "Add s self =
     (let nr = [Some s]
      in if self = [] then nr else ring_Next (ring_Link self nr))"

text \<open>
  The search loop of \<open>Remove\<close>: \<open>k\<close> iterations left, \<open>r\<close> the loop's pointer. A match replaces the
  balancer's ring by what \<open>Unlink\<close> returns.
\<close>

fun remove_loop :: "nat \<Rightarrow> string \<Rightarrow> ring \<Rightarrow> ring \<Rightarrow> ring" where
  "remove_loop 0 s r self = self"
| "remove_loop (Suc k) s r self =
     (let r' = ring_Next r
      in if r' \<noteq> [] \<and> r' ! 0 = Some s then ring_Unlink1 r' else remove_loop k s r' self)"

definition Remove :: "string \<Rightarrow> ring \<Rightarrow> ring" where
  "Remove s self =
     (if ring_Len self = 1 then ring_New 0 else remove_loop (ring_Len self) s self self)"

section \<open>The interface\<close>

text \<open>
  \<open>elems\<close> lists the hosts in the order in which they will be chosen. \<open>Choose\<close> serves the first
  and moves it to the end; that is all a client needs to know about fairness.
\<close>

locale backends =
  fixes pick :: "'b \<Rightarrow> 'b \<times> string option outcome"
    and len :: "'b \<Rightarrow> nat"
    and add :: "string \<Rightarrow> 'b \<Rightarrow> 'b"
    and elems :: "'b \<Rightarrow> string list"
    and inv :: "'b \<Rightarrow> bool"
  assumes len_elems: "inv b \<Longrightarrow> len b = length (elems b)"
    and pick_none: "inv b \<Longrightarrow> elems b = [] \<Longrightarrow> pick b = (b, Ret None)"
    and pick_some: "inv b \<Longrightarrow> elems b = x # xs \<Longrightarrow>
        snd (pick b) = Ret (Some x) \<and> elems (fst (pick b)) = xs @ [x]"
    and pick_inv: "inv b \<Longrightarrow> inv (fst (pick b))"
    and add_inv: "inv b \<Longrightarrow> inv (add s b)"
    and add_elems: "inv b \<Longrightarrow> mset (elems (add s b)) = add_mset s (mset (elems b))"
begin

lemma pick_rotates: "inv b \<Longrightarrow> elems (fst (pick b)) = rotate1 (elems b)"
  by (cases "elems b") (simp_all add: pick_none pick_some)

lemma pick_len: "inv b \<Longrightarrow> len (fst (pick b)) = len b"
  by (simp add: len_elems pick_inv pick_rotates)

lemma iterate_inv: "inv b \<Longrightarrow> inv (((fst \<circ> pick) ^^ k) b)"
  by (induction k) (auto simp: pick_inv)

lemma iterate_elems: "inv b \<Longrightarrow> elems (((fst \<circ> pick) ^^ k) b) = rotate k (elems b)"
  by (induction k) (auto simp: pick_rotates iterate_inv)

text \<open>The choice after \<open>k\<close> earlier ones, for any \<open>k\<close>: strict rotation.\<close>

lemma nth_choice:
  assumes "inv b" and "elems b \<noteq> []"
  shows "snd (pick (((fst \<circ> pick) ^^ k) b)) = Ret (Some (elems b ! (k mod length (elems b))))"
proof -
  have "rotate k (elems b) \<noteq> []" using assms(2) by simp
  moreover have "hd (rotate k (elems b)) = elems b ! (k mod length (elems b))"
    using assms(2) by (rule hd_rotate_conv_nth)
  ultimately show ?thesis
    using pick_some [OF iterate_inv [OF assms(1), of k]] iterate_elems [OF assms(1), of k]
    by (metis list.exhaust_sel)
qed

text \<open>As many choices as there are backends serve each of them once, in order.\<close>

lemma one_round:
  assumes "inv b"
  shows "map (\<lambda>k. snd (pick (((fst \<circ> pick) ^^ k) b))) [0..<len b] = map (Ret \<circ> Some) (elems b)"
  using len_elems [OF assms] nth_choice [OF assms]
  by (cases "elems b = []") (auto intro!: nth_equalityI)

end

definition rr_elems :: "ring \<Rightarrow> string list" where
  "rr_elems r = map the r"

definition rr_inv :: "ring \<Rightarrow> bool" where
  "rr_inv r \<longleftrightarrow> None \<notin> set r"

lemma rr_inv_Some: "rr_inv (map Some xs)"
  by (auto simp: rr_inv_def)

lemma rr_inv_eq: "rr_inv r \<Longrightarrow> r = map Some (rr_elems r)"
  by (induction r) (auto simp: rr_inv_def rr_elems_def)

lemma rr_elems_Some [simp]: "rr_elems (map Some xs) = xs"
  by (simp add: rr_elems_def comp_def)

lemma Choose_Some: "Choose (Some x # r) = (r @ [Some x], Ret (Some x))"
  by (simp add: Choose_def ring_Next_def)

lemma mset_Add: "mset (Add s r) = add_mset (Some s) (mset r)"
  by (cases r) (simp_all add: Add_def ring_Link_def ring_Next_def Let_def)

lemma rr_inv_mset: "rr_inv r \<longleftrightarrow> None \<notin># mset r"
  by (simp add: rr_inv_def)

interpretation rr: backends Choose Len Add rr_elems rr_inv
proof unfold_locales
  fix b x xs s
  show "rr_inv b \<Longrightarrow> Len b = length (rr_elems b)"
    by (simp add: Len_def ring_Len_def rr_elems_def)
  show "rr_inv b \<Longrightarrow> rr_elems b = [] \<Longrightarrow> Choose b = (b, Ret None)"
    by (simp add: rr_elems_def Choose_def)
  show "rr_inv b \<Longrightarrow> rr_elems b = x # xs \<Longrightarrow>
      snd (Choose b) = Ret (Some x) \<and> rr_elems (fst (Choose b)) = xs @ [x]"
    by (cases b; cases "hd b") (auto simp: rr_elems_def rr_inv_def Choose_Some)
  show "rr_inv b \<Longrightarrow> rr_inv (fst (Choose b))"
    by (cases b; cases "hd b") (auto simp: rr_inv_def Choose_def ring_Next_def)
  show "rr_inv b \<Longrightarrow> rr_inv (Add s b)"
    by (simp add: rr_inv_mset mset_Add)
  show "rr_inv b \<Longrightarrow> mset (rr_elems (Add s b)) = add_mset s (mset (rr_elems b))"
    by (simp add: rr_elems_def mset_Add)
qed

lemma fill_ring: "length ss \<le> length r \<Longrightarrow> fill_ring ss r = drop (length ss) r @ map Some ss"
proof (induction ss arbitrary: r)
  case (Cons s ss)
  then obtain x xs where r: "r = x # xs" by (cases r) auto
  have "fill_ring ss (xs @ [Some s]) = drop (length ss) (xs @ [Some s]) @ map Some ss"
    using Cons r by (intro Cons.IH) simp
  then show ?case using r Cons.prems by (simp add: ring_Next_def)
qed simp

lemma newRoundRobin_eq: "newRoundRobin strs = map Some strs"
  by (simp add: newRoundRobin_def fill_ring ring_New_def)

lemma build_eq: "build algorithm specs = map Some specs"
  by (subst build.simps, subst build.simps)
     (auto simp: factories_def newRoundRobin_eq split: option.splits)

text \<open>\<open>Remove\<close>: where the loop finds the host, and what is left then.\<close>

lemma remove_loop_rotate:
  "k \<le> length self \<Longrightarrow> remove_loop k s (rotate j self) self =
     (case List.find (\<lambda>i. rotate i self \<noteq> [] \<and> rotate i self ! 0 = Some s) [Suc j..<Suc (j + k)] of
        None \<Rightarrow> self
      | Some i \<Rightarrow> ring_Unlink1 (rotate i self))"
proof (induction k arbitrary: j)
  case (Suc k)
  have up: "[Suc j..<Suc (j + Suc k)] = Suc j # [Suc (Suc j)..<Suc (Suc j + k)]"
    by (subst upt_conv_Cons) auto
  show ?case
    using Suc.IH [of "Suc j"] Suc.prems
    by (simp only: up remove_loop.simps ring_Next_def Let_def rotate_Suc [symmetric] List.find.simps)
       (auto simp: rotate_Suc)
qed simp

section \<open>Properties\<close>

text \<open>
  C27. The balancer built for any algorithm name is a strict rotation over the configured peers:
  the choice after \<open>k\<close> earlier ones is the peer at position \<open>k\<close> modulo their number, and no
  choice panics or returns nil.
\<close>

theorem round_robin_rotation:
  assumes "specs \<noteq> []"
  shows "snd (Choose (((fst \<circ> Choose) ^^ k) (build algorithm specs)))
       = Ret (Some (specs ! (k mod length specs)))"
  using rr.nth_choice [of "build algorithm specs" k] assms
  by (simp add: build_eq rr_inv_Some)

theorem round_robin_rotation_witness:
  "snd (Choose (((fst \<circ> Choose) ^^ 4) (build ''random'' [''a'', ''b'', ''c'']))) = Ret (Some ''b'')"
  by (subst round_robin_rotation) simp_all

text \<open>
  A host added to a balancer takes part in the rotation: in the next \<open>Len\<close> choices every
  old host and the new one are served, each as often as it is listed.
\<close>

theorem added_host_is_served:
  assumes "rr_inv r"
  shows "mset (map (\<lambda>k. snd (Choose (((fst \<circ> Choose) ^^ k) (Add s r)))) [0..<Len (Add s r)])
       = image_mset (Ret \<circ> Some) (add_mset s (mset (rr_elems r)))"
  unfolding rr.one_round [OF rr.add_inv [OF assms]] mset_map rr.add_elems [OF assms] ..

theorem added_host_is_served_witness:
  "mset (map (\<lambda>k. snd (Choose (((fst \<circ> Choose) ^^ k) (Add ''c'' [Some ''a'', Some ''b'']))))
     [0..<Len (Add ''c'' [Some ''a'', Some ''b''])]) = {#Ret (Some ''c''), Ret (Some ''a''), Ret (Some ''b'')#}"
  by (subst added_host_is_served) (simp_all add: rr_inv_def rr_elems_def)

lemma find_rotation:
  assumes "s \<in> set xs"
  obtains i where "List.find (\<lambda>i. rotate i (map Some xs) \<noteq> [] \<and> rotate i (map Some xs) ! 0 = Some s)
      [1..<Suc (length xs)] = Some i" and "rotate i (map Some xs) ! 0 = Some s"
proof -
  let ?Q = "\<lambda>i. rotate i (map Some xs) \<noteq> [] \<and> rotate i (map Some xs) ! 0 = Some s"
  obtain j where j: "j < length xs" "xs ! j = s"
    using assms by (auto simp: in_set_conv_nth)
  define i where "i = (if j = 0 then length xs else j)"
  have ne: "xs \<noteq> []" using j by auto
  have "i \<in> set [1..<Suc (length xs)]" using j by (auto simp: i_def)
  moreover have "?Q i"
    using j ne by (auto simp: i_def nth_rotate)
  ultimately have "List.find ?Q [1..<Suc (length xs)] \<noteq> None"
    by (auto simp: find_None_iff)
  then show ?thesis using that by (auto simp: find_Some_iff)
qed

text \<open>
  Removing a listed host from a balancer of two or more hosts leaves one single host, the
  successor of the removed one: the balancer keeps the part that \<open>Unlink\<close> cuts out of the ring
  and loses the part it should have kept.
\<close>

theorem Remove_leaves_one:
  assumes "distinct xs" and "s \<in> set xs" and "2 \<le> length xs"
  shows "\<exists>y \<in> set xs. y \<noteq> s \<and> Remove s (map Some xs) = [Some y]"
proof -
  obtain i where i: "List.find (\<lambda>i. rotate i (map Some xs) \<noteq> [] \<and> rotate i (map Some xs) ! 0 = Some s)
      [1..<Suc (length xs)] = Some i" and hd: "rotate i (map Some xs) ! 0 = Some s"
    using assms(2) by (rule find_rotation)
  then have rem: "Remove s (map Some xs) = ring_Unlink1 (rotate i (map Some xs))"
    using remove_loop_rotate [of "length xs" "map Some xs" s 0] assms(3)
    by (simp add: Remove_def ring_Len_def)
  have dist: "distinct (rotate i xs)" and len: "2 \<le> length (rotate i xs)"
    using assms(1,3) by simp_all
  then obtain x y zs where r: "rotate i xs = x # y # zs"
    by (metis Suc_1 Suc_le_length_iff One_nat_def)
  then have "x = s" "y \<noteq> s" using hd dist by (auto simp: rotate_map)
  moreover have "y \<in> set xs" using r by (metis list.set_intros set_rotate)
  ultimately show ?thesis using rem r by (auto simp: rotate_map)
qed

theorem Remove_leaves_one_witness:
  "\<exists>y \<in> set [''a'', ''b'', ''c'', ''d'']. y \<noteq> ''b'' \<and>
     Remove ''b'' (map Some [''a'', ''b'', ''c'', ''d'']) = [Some y]"
  by (rule Remove_leaves_one) simp_all

end
