(* ===== verification/GoTime.thy ===== *)
theory GoTime
  imports Prelude
begin

text \<open>
  What the program uses of Go's package \<open>time\<close>: an instant is a number of seconds since the
  Unix epoch (an \<open>int64\<close> that wraps) and a nanosecond offset in \<open>[0, 10^9)\<close>; a
  \<open>time.Duration\<close> is an \<open>int64\<close> of nanoseconds. \<open>tsp.Now\<close> (\<open>tsp/tsp.go\<close>) reads the local
  clock, so an instant is an argument of the operations that call it.
\<close>

section \<open>Instants\<close>

record gotime =
  tsec :: i64
  tnsec :: int

abbreviation billion :: int where "billion \<equiv> 1000000000"

text \<open>\<open>time.Unix(sec, 0)\<close>, the only form the program uses.\<close>

definition time_Unix :: "i64 \<Rightarrow> gotime" where
  "time_Unix s = \<lparr>tsec = s, tnsec = 0\<rparr>"

text \<open>\<open>Time.Add\<close>: Go divides towards zero, then normalises the nanoseconds.\<close>

definition time_Add :: "gotime \<Rightarrow> i64 \<Rightarrow> gotime" where
  "time_Add t d =
     (let s = tsec t + word_of_int (sint d sdiv billion);
          n = tnsec t + sint d smod billion
      in if billion \<le> n then \<lparr>tsec = s + 1, tnsec = n - billion\<rparr>
         else if n < 0 then \<lparr>tsec = s - 1, tnsec = n + billion\<rparr>
         else \<lparr>tsec = s, tnsec = n\<rparr>)"

definition time_to_Unix :: "gotime \<Rightarrow> i64" where
  "time_to_Unix t = tsec t"

definition UnixNano :: "gotime \<Rightarrow> i64" where
  "UnixNano t = tsec t * word_of_int billion + word_of_int (tnsec t)"

definition wf_time :: "gotime \<Rightarrow> bool" where
  "wf_time t \<longleftrightarrow> 0 \<le> tnsec t \<and> tnsec t < billion"

section \<open>Durations\<close>

text \<open>
  \<open>Duration.String\<close>, used for the topic names of the caches and by \<open>submitRaw\<close>. Below one
  second the unit is ns, (micro)s or ms; otherwise hours, minutes and seconds with trailing
  zeros of the fraction dropped. \<open>fmtFrac\<close> prints the fraction of \<open>v / 10^prec\<close> and
  returns the quotient.
\<close>

fun fmtFrac :: "int \<Rightarrow> nat \<Rightarrow> bool \<Rightarrow> string \<Rightarrow> string \<times> int" where
  "fmtFrac v 0 pr acc = (if pr then CHR ''.'' # acc else acc, v)"
| "fmtFrac v (Suc k) pr acc =
     (let pr' = (pr \<or> v mod 10 \<noteq> 0)
      in fmtFrac (v div 10) k pr' (if pr' then decdigit v # acc else acc))"

definition dur_small :: "int \<Rightarrow> string" where
  "dur_small u =
     (if u = 0 then ''0s''
      else if u < 1000 then dec_pos u @ ''ns''
      else if u < 1000000 then
        (let (fr, v) = fmtFrac u 3 False [] in dec_pos v @ fr @ [CHR 0xC2, CHR 0xB5] @ ''s'')
      else (let (fr, v) = fmtFrac u 6 False [] in dec_pos v @ fr @ ''ms''))"

definition dur_large :: "int \<Rightarrow> string" where
  "dur_large u =
     (let (fr, v) = fmtFrac u 9 False [];
          secs = dec_pos (v mod 60) @ fr @ ''s'';
          mins = v div 60
      in if mins = 0 then secs
         else (let ms = dec_pos (mins mod 60) @ ''m'' @ secs; hours = mins div 60
               in if hours = 0 then ms else dec_pos hours @ ''h'' @ ms))"

definition dur_String :: "i64 \<Rightarrow> string" where
  "dur_String d =
     (let u = \<bar>sint d\<bar>;
          s = (if u < billion then dur_small u else dur_large u)
      in if sint d < 0 then CHR ''-'' # s else s)"

section \<open>Zero\<close>

lemma fmtFrac_quot: "snd (fmtFrac v k pr acc) = v div 10 ^ k"
  by (induction v k pr acc rule: fmtFrac.induct)
     (simp_all add: Let_def zdiv_zmult2_eq [symmetric])

lemma dur_small_zero: "dur_small u = ''0s'' \<longleftrightarrow> u = 0"
proof (cases "u = 0")
  case False
  have "dec_pos v @ xs @ b # c # cs \<noteq> ''0s''" for v xs b c cs
    by (cases "dec_pos v"; cases "tl (dec_pos v)"; cases xs) auto
  moreover have "dec_pos v @ ''ns'' \<noteq> ''0s''" for v
    by (cases "dec_pos v"; cases "tl (dec_pos v)") auto
  ultimately show ?thesis using False by (auto simp: dur_small_def Let_def split: prod.splits)
qed (simp add: dur_small_def)

lemma dec_pos_zero: "0 \<le> v \<Longrightarrow> dec_pos v = ''0'' \<longleftrightarrow> v = 0"
  using dec_pos_inject [of v 0] by (simp add: dec_pos_small decdigit_def digit_chars_def)

lemma dur_large_not_zero: "billion \<le> u \<Longrightarrow> dur_large u \<noteq> ''0s''"
proof -
  assume u: "billion \<le> u"
  obtain fr v where f: "fmtFrac u 9 False [] = (fr, v)" by force
  have v: "v = u div billion" using fmtFrac_quot [of u 9 False "[]"] f by simp
  then have "1 \<le> v" using u by linarith
  have no: "xs @ CHR ''m'' # ys @ zs @ ''s'' \<noteq> ''0s''" if "xs \<noteq> []" "ys \<noteq> []" for xs ys zs
    using that by (cases xs; cases ys; cases "tl xs") auto
  show ?thesis
  proof (cases "v div 60 = 0")
    case True
    then have "v mod 60 = v" using \<open>1 \<le> v\<close> by (metis add_0 mult_div_mod_eq mult_zero_right)
    have "dec_pos v @ fr @ ''s'' \<noteq> ''0s''"
    proof
      assume "dec_pos v @ fr @ ''s'' = ''0s''"
      then have "(dec_pos v @ fr) @ ''s'' = ''0'' @ ''s''" by simp
      then have "dec_pos v @ fr = ''0''" by (simp only: append_same_eq)
      then have "dec_pos v = ''0''" by (cases "dec_pos v") auto
      then show False using dec_pos_zero [of v] \<open>1 \<le> v\<close> by simp
    qed
    then show ?thesis using True \<open>v mod 60 = v\<close> by (simp add: dur_large_def f)
  next
    case False
    have "xs @ CHR ''h'' # ys \<noteq> ''0s''" if "xs \<noteq> []" "ys \<noteq> []" for xs ys
      using that by (cases xs; cases ys; cases "tl xs") auto
    then show ?thesis using False no by (simp add: dur_large_def f Let_def)
  qed
qed

text \<open>The test \<open>d.String() == "0s"\<close> of the blockchain handler.\<close>

lemma dur_String_zero: "dur_String d = ''0s'' \<longleftrightarrow> d = 0"
proof -
  have "sint d = 0 \<longleftrightarrow> d = 0" by (simp add: signed_eq_0_iff)
  then show ?thesis
    using dur_small_zero [of "\<bar>sint d\<bar>"] dur_large_not_zero [of "\<bar>sint d\<bar>"]
    by (auto simp: dur_String_def Let_def)
qed

section \<open>Different durations print differently\<close>

abbreviation numchar :: "char \<Rightarrow> bool" where
  "numchar c \<equiv> c \<in> set digit_chars \<or> c = CHR ''.''"

text \<open>The value of the digits after the point, as a multiple of the last of \<open>k\<close> places.\<close>

fun frac_value :: "nat \<Rightarrow> string \<Rightarrow> int" where
  "frac_value k [] = 0"
| "frac_value 0 (c # cs) = 0"
| "frac_value (Suc k) (c # cs) = (of_char c - 48) * 10 ^ k + frac_value k cs"

lemma of_decdigit: "of_char (decdigit n) - 48 = n mod 10"
proof -
  have "n mod 10 \<in> {0, 1, 2, 3, 4, 5, 6, 7, 8, 9}" by simp presburger
  then show ?thesis by (auto simp: decdigit_def digit_chars_def)
qed

definition frac_ok :: "nat \<Rightarrow> int \<Rightarrow> string \<Rightarrow> bool" where
  "frac_ok k m fr \<longleftrightarrow> fr = [] \<and> m = 0 \<or>
     (\<exists>ds. fr = CHR ''.'' # ds \<and> set ds \<subseteq> set digit_chars \<and> frac_value k ds = m)"

text \<open>The accumulator of \<open>fmtFrac\<close> holds the digits of the places already passed.\<close>

lemma fmtFrac_digits:
  "(pr \<longrightarrow> set acc \<subseteq> set digit_chars \<and> frac_value j acc = m) \<Longrightarrow> (\<not> pr \<longrightarrow> acc = [] \<and> m = 0) \<Longrightarrow>
     frac_ok (j + k) (v mod 10 ^ k * 10 ^ j + m) (fst (fmtFrac v k pr acc))"
proof (induction v k pr acc arbitrary: j m rule: fmtFrac.induct)
  case (1 v pr acc)
  then show ?case by (auto simp: frac_ok_def)
next
  case (2 v k pr acc)
  let ?pr = "pr \<or> v mod 10 \<noteq> 0"
  let ?acc = "if ?pr then decdigit v # acc else acc"
  let ?m = "v mod 10 * 10 ^ j + m"
  have fv: "frac_value (Suc j) (decdigit v # acc) = v mod 10 * 10 ^ j + frac_value j acc"
    by (simp add: of_decdigit)
  have "frac_ok (Suc j + k) (v div 10 mod 10 ^ k * 10 ^ Suc j + ?m) (fst (fmtFrac (v div 10) k ?pr ?acc))"
    by (rule "2.IH" [OF refl]) (use "2.prems" fv in auto)
  moreover have "v div 10 mod 10 ^ k * 10 ^ Suc j + ?m = v mod 10 ^ Suc k * 10 ^ j + m"
  proof -
    have "v mod 10 ^ Suc k = 10 * (v div 10 mod 10 ^ k) + v mod 10"
      using mod_mult2_eq' by (simp add: zmod_zmult2_eq)
    then show ?thesis by (simp add: algebra_simps)
  qed
  moreover have "fmtFrac v (Suc k) pr acc = fmtFrac (v div 10) k ?pr ?acc"
    by (simp only: fmtFrac.simps Let_def)
  ultimately show ?case by (simp only: add_Suc add_Suc_right)
qed

lemma fmtFrac_ok:
  assumes "fmtFrac u k False [] = (fr, v)"
  shows "frac_ok k (u mod 10 ^ k) fr" and "v = u div 10 ^ k"
  using fmtFrac_digits [of False "[]" 0 0 k u] fmtFrac_quot [of u k False "[]"] assms by simp_all

lemma frac_ok_unique: "frac_ok k m fr \<Longrightarrow> frac_ok k n fr \<Longrightarrow> m = n"
  by (auto simp: frac_ok_def)

lemma digit_not_dot: "CHR ''.'' \<notin> set digit_chars"
  by (simp add: digit_chars_def)

text \<open>A number is read off up to the first character of its unit.\<close>

lemma number_prefix:
  assumes "dec_pos v @ fr @ x # xs = dec_pos v' @ fr' @ x' # xs'" and "0 \<le> v" and "0 \<le> v'"
    and "frac_ok k m fr" and "frac_ok k' m' fr'" and "\<not> numchar x" and "\<not> numchar x'"
  shows "v = v' \<and> fr = fr' \<and> x # xs = x' # xs'"
proof -
  have num: "takeWhile numchar (dec_pos a @ f @ y # ys) = dec_pos a @ f" "dropWhile numchar (dec_pos a @ f @ y # ys) = y # ys"
    if "frac_ok l n f" "\<not> numchar y" for a f y ys l n
  proof -
    have "\<forall>c \<in> set (dec_pos a @ f). numchar c"
      using that(1) set_dec_pos [of a] by (auto simp: frac_ok_def)
    then have "takeWhile numchar ((dec_pos a @ f) @ y # ys) = (dec_pos a @ f) @ takeWhile numchar (y # ys)"
      "dropWhile numchar ((dec_pos a @ f) @ y # ys) = dropWhile numchar (y # ys)"
      by (intro takeWhile_append2 dropWhile_append2; blast)+
    then show "takeWhile numchar (dec_pos a @ f @ y # ys) = dec_pos a @ f"
      "dropWhile numchar (dec_pos a @ f @ y # ys) = y # ys"
      using that(2) by simp_all
  qed
  have dig: "takeWhile (\<lambda>c. c \<in> set digit_chars) (dec_pos a @ f) = dec_pos a" if "frac_ok l n f" for a f l n
  proof -
    have "\<forall>c \<in> set (dec_pos a). c \<in> set digit_chars" using set_dec_pos [of a] by auto
    then show ?thesis using that digit_not_dot by (auto simp: frac_ok_def)
  qed
  have eq: "dec_pos v @ fr = dec_pos v' @ fr'" and rest: "x # xs = x' # xs'"
    using num [OF assms(4,6), of v xs] num [OF assms(5,7), of v' xs'] assms(1) by metis+
  then have "dec_pos v = dec_pos v'"
    using dig [OF assms(4), of v] dig [OF assms(5), of v'] by metis
  with eq rest show ?thesis using dec_pos_inject [OF assms(2,3)] by simp
qed

lemma frac_ok_Nil: "frac_ok k 0 []"
  by (simp add: frac_ok_def)

lemma unit_chars:
  "\<not> numchar CHR ''s''" "\<not> numchar CHR ''n''" "\<not> numchar CHR ''m''" "\<not> numchar CHR ''h''" "\<not> numchar CHR 0xC2"
  by (simp_all add: digit_chars_def)

definition small_units :: "(nat \<times> string) list" where
  "small_units = [(0, ''s''), (0, ''ns''), (3, [CHR 0xC2, CHR 0xB5] @ ''s''), (6, ''ms'')]"

lemma dur_small_form:
  assumes "0 \<le> u" and "u < billion"
  obtains k fr x xs where "dur_small u = dec_pos (u div 10 ^ k) @ fr @ x # xs"
    and "frac_ok k (u mod 10 ^ k) fr" and "\<not> numchar x" and "(k, x # xs) \<in> set small_units"
    and "x # xs = ''s'' \<longrightarrow> u = 0"
proof -
  obtain fr3 v3 where f3: "fmtFrac u 3 False [] = (fr3, v3)" by force
  obtain fr6 v6 where f6: "fmtFrac u 6 False [] = (fr6, v6)" by force
  note ok = fmtFrac_ok [OF f3] fmtFrac_ok [OF f6]
  consider "u = 0" | "u \<noteq> 0" "u < 1000" | "1000 \<le> u" "u < 1000000" | "1000000 \<le> u" by linarith
  then show ?thesis
  proof cases
    case 1
    then have "dur_small u = dec_pos (u div 10 ^ 0) @ [] @ CHR ''s'' # []"
      by (simp add: dur_small_def dec_pos_small decdigit_def digit_chars_def)
    then show ?thesis by (rule that) (use 1 unit_chars in \<open>simp_all add: frac_ok_Nil small_units_def\<close>)
  next
    case 2
    then have "dur_small u = dec_pos (u div 10 ^ 0) @ [] @ CHR ''n'' # ''s''" by (simp add: dur_small_def)
    then show ?thesis by (rule that) (use unit_chars in \<open>simp_all add: frac_ok_Nil small_units_def\<close>)
  next
    case 3
    then have "dur_small u = dec_pos (u div 10 ^ 3) @ fr3 @ CHR 0xC2 # CHR 0xB5 # ''s''"
      using ok(2) by (simp add: dur_small_def f3)
    then show ?thesis by (rule that) (use ok(1) unit_chars in \<open>simp_all add: small_units_def\<close>)
  next
    case 4
    then have "dur_small u = dec_pos (u div 10 ^ 6) @ fr6 @ CHR ''m'' # ''s''"
      using ok(4) by (simp add: dur_small_def f6)
    then show ?thesis by (rule that) (use ok(3) unit_chars in \<open>simp_all add: small_units_def\<close>)
  qed
qed

lemma quot_rem_eq: "u div 10 ^ k = u' div 10 ^ k \<Longrightarrow> u mod 10 ^ k = u' mod 10 ^ k \<Longrightarrow> u = u'" for u u' :: int
  by (metis div_mult_mod_eq)

lemma dur_small_inject:
  assumes "0 \<le> u" "u < billion" "0 \<le> u'" "u' < billion" and "dur_small u = dur_small u'"
  shows "u = u'"
proof -
  obtain k fr x xs where a: "dur_small u = dec_pos (u div 10 ^ k) @ fr @ x # xs"
    "frac_ok k (u mod 10 ^ k) fr" "\<not> numchar x" "(k, x # xs) \<in> set small_units" "x # xs = ''s'' \<longrightarrow> u = 0"
    by (rule dur_small_form [OF assms(1,2)])
  obtain k' fr' x' xs' where b: "dur_small u' = dec_pos (u' div 10 ^ k') @ fr' @ x' # xs'"
    "frac_ok k' (u' mod 10 ^ k') fr'" "\<not> numchar x'" "(k', x' # xs') \<in> set small_units" "x' # xs' = ''s'' \<longrightarrow> u' = 0"
    by (rule dur_small_form [OF assms(3,4)])
  have "0 \<le> u div 10 ^ k" "0 \<le> u' div 10 ^ k'"
    using assms(1,3) by (simp_all add: pos_imp_zdiv_nonneg_iff)
  then have "u div 10 ^ k = u' div 10 ^ k' \<and> fr = fr' \<and> x # xs = x' # xs'"
    using assms a b by (intro number_prefix [OF _ _ _ a(2) b(2)]) simp_all
  moreover from this have "k = k'" using a(4) b(4) by (auto simp: small_units_def)
  ultimately show ?thesis using frac_ok_unique [OF a(2)] b(2) by (metis quot_rem_eq)
qed

text \<open>The three forms of a duration of a second or more.\<close>

definition secs_String :: "int \<Rightarrow> string" where
  "secs_String u = (let (fr, v) = fmtFrac u 9 False [] in dec_pos (v mod 60) @ fr @ ''s'')"

definition mins_String :: "int \<Rightarrow> string \<Rightarrow> string" where
  "mins_String v rest = dec_pos v @ CHR ''m'' # rest"

definition hours_String :: "int \<Rightarrow> string \<Rightarrow> string" where
  "hours_String v rest = dec_pos v @ CHR ''h'' # rest"

lemma dur_large_form:
  "dur_large u = (let mins = u div billion div 60; hours = mins div 60 in
     if mins = 0 then secs_String u
     else if hours = 0 then mins_String (mins mod 60) (secs_String u)
     else hours_String hours (mins_String (mins mod 60) (secs_String u)))"
  using fmtFrac_quot [of u 9 False "[]"]
  by (cases "fmtFrac u 9 False []")
     (simp add: dur_large_def secs_String_def mins_String_def hours_String_def Let_def)

lemma secs_String_form:
  obtains fr where "secs_String u = dec_pos (u div billion mod 60) @ fr @ CHR ''s'' # []"
    and "frac_ok 9 (u mod billion) fr"
  using fmtFrac_ok [of u 9] by (cases "fmtFrac u 9 False []") (auto simp: secs_String_def)

lemma secs_String_inject:
  assumes "secs_String u = secs_String u'"
  shows "u div billion mod 60 = u' div billion mod 60 \<and> u mod billion = u' mod billion"
proof -
  obtain fr where a: "secs_String u = dec_pos (u div billion mod 60) @ fr @ CHR ''s'' # []" "frac_ok 9 (u mod billion) fr"
    by (rule secs_String_form)
  obtain fr' where b: "secs_String u' = dec_pos (u' div billion mod 60) @ fr' @ CHR ''s'' # []" "frac_ok 9 (u' mod billion) fr'"
    by (rule secs_String_form)
  have "u div billion mod 60 = u' div billion mod 60 \<and> fr = fr' \<and> [CHR ''s''] = [CHR ''s'']"
    using assms a b unit_chars by (intro number_prefix [OF _ _ _ a(2) b(2)]) simp_all
  then show ?thesis using frac_ok_unique [OF a(2)] b(2) by simp
qed

lemma secs_String_unit:
  assumes "0 \<le> v" and "\<not> numchar x" and "secs_String u = dec_pos v @ [] @ x # xs"
  shows "x # xs = ''s''"
proof -
  obtain fr where a: "secs_String u = dec_pos (u div billion mod 60) @ fr @ CHR ''s'' # []" "frac_ok 9 (u mod billion) fr"
    by (rule secs_String_form)
  have "u div billion mod 60 = v \<and> fr = [] \<and> CHR ''s'' # [] = x # xs"
    by (rule number_prefix [OF _ _ assms(1) a(2) frac_ok_Nil _ assms(2)]) (use a(1) assms(3) unit_chars in simp_all)
  then show ?thesis by simp
qed

lemma from_clock:
  assumes "u div billion div 60 = u' div billion div 60" and "secs_String u = secs_String u'"
  shows "u = u'"
proof -
  have "u div billion = u' div billion"
    using assms(1) secs_String_inject [OF assms(2)] by (metis div_mult_mod_eq)
  then show ?thesis using secs_String_inject [OF assms(2)] by (metis div_mult_mod_eq)
qed

lemma unit_prefix:
  assumes "dec_pos v @ x # xs = dec_pos v' @ x' # xs'" and "0 \<le> v" and "0 \<le> v'"
    and "\<not> numchar x" and "\<not> numchar x'"
  shows "v = v' \<and> x = x' \<and> xs = xs'"
  using number_prefix [of v "[]" x xs v' "[]" x' xs', OF _ assms(2,3) frac_ok_Nil frac_ok_Nil assms(4,5)]
    assms(1) by simp

lemma clock_inject:
  "0 \<le> v \<Longrightarrow> 0 \<le> v' \<Longrightarrow> mins_String v r = mins_String v' r' \<longleftrightarrow> v = v' \<and> r = r'"
  "0 \<le> v \<Longrightarrow> 0 \<le> v' \<Longrightarrow> hours_String v r = hours_String v' r' \<longleftrightarrow> v = v' \<and> r = r'"
  using unit_prefix [of v "CHR ''m''" r v' "CHR ''m''" r'] unit_prefix [of v "CHR ''h''" r v' "CHR ''h''" r'] unit_chars
  unfolding mins_String_def hours_String_def by blast+

lemma clock_distinct:
  "0 \<le> v \<Longrightarrow> 0 \<le> v' \<Longrightarrow> mins_String v r \<noteq> hours_String v' r'"
  "0 \<le> v \<Longrightarrow> secs_String u \<noteq> mins_String v r"
  "0 \<le> v \<Longrightarrow> secs_String u \<noteq> hours_String v r"
proof -
  have ne: "CHR ''m'' \<noteq> CHR ''h''" "CHR ''s'' \<noteq> CHR ''m''" "CHR ''s'' \<noteq> CHR ''h''" by simp_all
  show "0 \<le> v \<Longrightarrow> 0 \<le> v' \<Longrightarrow> mins_String v r \<noteq> hours_String v' r'"
    using unit_prefix [of v "CHR ''m''" r v' "CHR ''h''" r'] unit_chars ne(1)
    unfolding mins_String_def hours_String_def by blast
  show "0 \<le> v \<Longrightarrow> secs_String u \<noteq> mins_String v r"
    using secs_String_unit [of v "CHR ''m''" u r] unit_chars ne(2)
    unfolding mins_String_def append_Nil by blast
  show "0 \<le> v \<Longrightarrow> secs_String u \<noteq> hours_String v r"
    using secs_String_unit [of v "CHR ''h''" u r] unit_chars ne(3)
    unfolding hours_String_def append_Nil by blast
qed

lemma dur_large_inject:
  assumes "0 \<le> u" and "0 \<le> u'" and eq: "dur_large u = dur_large u'"
  shows "u = u'"
proof -
  define m m' where m: "m = u div billion div 60" "m' = u' div billion div 60"
  define h h' where h: "h = m div 60" "h' = m' div 60"
  have "0 \<le> u div billion" "0 \<le> u' div billion"
    using assms(1,2) by (simp_all add: pos_imp_zdiv_nonneg_iff)
  then have "0 \<le> m" "0 \<le> m'" by (simp_all add: m pos_imp_zdiv_nonneg_iff)
  then have pos: "0 \<le> h" "0 \<le> h'" "0 \<le> m mod 60" "0 \<le> m' mod 60"
    by (simp_all add: h pos_imp_zdiv_nonneg_iff)
  have form: "dur_large u = (if m = 0 then secs_String u else if h = 0 then mins_String (m mod 60) (secs_String u)
       else hours_String h (mins_String (m mod 60) (secs_String u)))"
    "dur_large u' = (if m' = 0 then secs_String u' else if h' = 0 then mins_String (m' mod 60) (secs_String u')
       else hours_String h' (mins_String (m' mod 60) (secs_String u')))"
    by (simp_all only: dur_large_form Let_def m h)
  have mh: "m = h * 60 + m mod 60" "m' = h' * 60 + m' mod 60" by (simp_all only: h div_mult_mod_eq)
  note diff = clock_distinct clock_distinct [symmetric]
  have "secs_String u = secs_String u' \<and> m = m'"
    using eq mh unfolding form
    by (cases "m = 0"; cases "m' = 0"; cases "h = 0"; cases "h' = 0")
       (simp_all add: clock_inject diff pos)
  then show ?thesis using from_clock m by metis
qed

lemma secs_not_s: "secs_String u \<noteq> ''s''"
proof -
  obtain fr where "secs_String u = dec_pos (u div billion mod 60) @ fr @ ''s''" by (rule secs_String_form)
  then show ?thesis by (cases "dec_pos (u div billion mod 60)") auto
qed

lemma dur_small_large:
  assumes "0 \<le> u" "u < billion" "billion \<le> u'"
  shows "dur_small u \<noteq> dur_large u'"
proof
  assume eq: "dur_small u = dur_large u'"
  obtain k fr x xs where a: "dur_small u = dec_pos (u div 10 ^ k) @ fr @ x # xs"
    "frac_ok k (u mod 10 ^ k) fr" "\<not> numchar x" "(k, x # xs) \<in> set small_units" "x # xs = ''s'' \<longrightarrow> u = 0"
    by (rule dur_small_form [OF assms(1,2)])
  have q: "0 \<le> u div 10 ^ k" using assms(1) by (simp add: pos_imp_zdiv_nonneg_iff)
  have not_s: "x # xs \<noteq> ''s''"
    using a(5) eq dur_large_not_zero [OF assms(3)] by (auto simp: dur_small_def)
  have no_unit: False if "dur_large u' = dec_pos v @ fr' @ y # ys" "0 \<le> v" "frac_ok l n fr'" "\<not> numchar y"
      "y # ys = ''s'' \<or> y = CHR ''h'' \<or> y = CHR ''m'' \<and> ys \<noteq> ''s''" for v fr' y ys l n
  proof -
    have "x # xs = y # ys"
      using number_prefix [OF _ q that(2) a(2) that(3) a(3) that(4)] a(1) that(1) eq by metis
    then show False using that(5) not_s a(4) by (auto simp: small_units_def)
  qed
  define m where "m = u' div billion div 60"
  have "0 \<le> u' div billion" using assms(3) by (simp add: pos_imp_zdiv_nonneg_iff)
  then have m: "0 \<le> m" by (simp add: m_def pos_imp_zdiv_nonneg_iff)
  have form: "dur_large u' = (if m = 0 then secs_String u' else if m div 60 = 0 then mins_String (m mod 60) (secs_String u')
       else hours_String (m div 60) (mins_String (m mod 60) (secs_String u')))"
    by (simp only: dur_large_form Let_def m_def)
  obtain fr' where sec: "secs_String u' = dec_pos (u' div billion mod 60) @ fr' @ CHR ''s'' # []" "frac_ok 9 (u' mod billion) fr'"
    by (rule secs_String_form)
  consider "m = 0" | "m \<noteq> 0" "m div 60 = 0" | "m \<noteq> 0" "m div 60 \<noteq> 0" by blast
  then show False
  proof cases
    case 1
    then have "dur_large u' = dec_pos (u' div billion mod 60) @ fr' @ CHR ''s'' # []"
      using sec(1) form by simp
    then show False by (rule no_unit [OF _ _ sec(2)]) (use unit_chars in simp_all)
  next
    case 2
    then have "dur_large u' = dec_pos (m mod 60) @ [] @ CHR ''m'' # secs_String u'"
      unfolding form by (simp add: mins_String_def)
    then show False by (rule no_unit [OF _ _ frac_ok_Nil]) (use secs_not_s unit_chars in simp_all)
  next
    case 3
    then have "dur_large u' = dec_pos (m div 60) @ [] @ CHR ''h'' # mins_String (m mod 60) (secs_String u')"
      unfolding form by (simp add: hours_String_def)
    then show False
      by (rule no_unit [OF _ _ frac_ok_Nil]) (use m unit_chars in \<open>simp_all add: pos_imp_zdiv_nonneg_iff\<close>)
  qed
qed

lemma starts_with_number:
  "dec_pos v @ xs \<noteq> CHR ''-'' # ys"
  using set_dec_pos [of v] digit_chars(3) by (cases "dec_pos v") auto

lemma dur_no_sign:
  "0 \<le> u \<Longrightarrow> u < billion \<Longrightarrow> dur_small u \<noteq> CHR ''-'' # s" "dur_large u \<noteq> CHR ''-'' # s"
proof -
  show "0 \<le> u \<Longrightarrow> u < billion \<Longrightarrow> dur_small u \<noteq> CHR ''-'' # s"
    by (erule dur_small_form) (simp_all add: starts_with_number)
  have "secs_String u \<noteq> CHR ''-'' # s"
    using starts_with_number by (auto simp: secs_String_def split: prod.splits)
  then show "dur_large u \<noteq> CHR ''-'' # s"
    by (simp add: dur_large_form Let_def mins_String_def hours_String_def starts_with_number)
qed

text \<open>\<open>Duration.String\<close> is injective on the whole \<open>int64\<close> range.\<close>

lemma dur_String_inject: "dur_String d = dur_String d' \<longleftrightarrow> d = d'"
proof
  assume eq: "dur_String d = dur_String d'"
  define s where "s u = (if u < billion then dur_small u else dur_large u)" for u
  have inj: "s u = s u' \<Longrightarrow> u = u'" if "0 \<le> u" "0 \<le> u'" for u u'
    using that dur_small_inject [of u u'] dur_large_inject [of u u'] dur_small_large [of u u'] dur_small_large [of u' u]
    by (cases "u < billion"; cases "u' < billion") (simp_all add: s_def)
  have sign: "s u \<noteq> CHR ''-'' # t" if "0 \<le> u" for u t
    using that dur_no_sign by (simp add: s_def)
  have "dur_String e = (if sint e < 0 then CHR ''-'' # s \<bar>sint e\<bar> else s \<bar>sint e\<bar>)" for e
    by (simp add: dur_String_def s_def Let_def)
  with eq have "\<bar>sint d\<bar> = \<bar>sint d'\<bar> \<and> (sint d < 0 \<longleftrightarrow> sint d' < 0)"
    using inj [of "\<bar>sint d\<bar>" "\<bar>sint d'\<bar>"] sign [of "\<bar>sint d\<bar>"] sign [of "\<bar>sint d'\<bar>"]
    by (auto split: if_splits) (metis sign abs_ge_zero)+
  then have "sint d = sint d'" by linarith
  then show "d = d'" by (rule signed_word_eqI)
qed simp

end
