(* ===== verification/Merkle.thy ===== *)
theory Merkle
  imports Prelude
begin

text \<open>
  The Merkle tree of the vendored package
  \<open>vendor/github.com/NebulousLabs/merkletree/tree.go\<close>, which \<open>formatDocs\<close> uses to turn a
  batch of documents into one digest. First the streaming implementation as the package has
  it: a stack of complete subtrees, smallest first, extended by \<open>Push\<close> and closed by \<open>Root\<close>.
  Then the recursive definition of the Merkle tree hash, the proof that both agree, and the
  binding property: without a hash collision the root determines the list of leaves.

  The hash function is a parameter \<open>H\<close> (the package takes any \<open>hash.Hash\<close>).
\<close>

section \<open>The streaming tree\<close>

type_synonym hashfn = "bytes \<Rightarrow> bytes"

record subTree =
  height :: nat
  sumval :: bytes

record mtree =
  head :: "subTree list"    \<comment> \<open>the chain \<open>head\<close>, \<open>head.next\<close>, ...\<close>
  currentIndex :: u64
  proofIndex :: u64
  proofSet :: "bytes list"
  cachedTree :: bool

text \<open>\<open>sum\<close> of a nil slice is nil; every other input is hashed.\<close>

definition sum_slice :: "hashfn \<Rightarrow> bytes option \<Rightarrow> bytes option" where
  "sum_slice H data = (case data of None \<Rightarrow> None | Some d \<Rightarrow> Some (H d))"

definition leafSum :: "hashfn \<Rightarrow> bytes \<Rightarrow> bytes" where
  "leafSum H d = H (CHR 0x00 # d)"

definition nodeSum :: "hashfn \<Rightarrow> bytes \<Rightarrow> bytes \<Rightarrow> bytes" where
  "nodeSum H a b = H (CHR 0x01 # a @ b)"

definition joinSubTrees :: "hashfn \<Rightarrow> subTree \<Rightarrow> subTree \<Rightarrow> subTree" where
  "joinSubTrees H a b = \<lparr>height = height a + 1, sumval = nodeSum H (sumval a) (sumval b)\<rparr>"

definition New :: mtree where
  "New = \<lparr>head = [], currentIndex = 0, proofIndex = 0, proofSet = [], cachedTree = False\<rparr>"

text \<open>The part of the loop body that extends the proof set, for the two topmost subtrees.\<close>

definition push_proof :: "mtree \<Rightarrow> subTree \<Rightarrow> subTree \<Rightarrow> bytes list" where
  "push_proof t b a =
     (if int (height b) = int (length (proofSet t)) - 1 then
        (let leaves = push_bit (height b) (1::u64);
             mid = (currentIndex t div leaves) * leaves
         in if proofIndex t < mid then proofSet t @ [sumval b] else proofSet t @ [sumval a])
      else proofSet t)"

function join_loop :: "hashfn \<Rightarrow> mtree \<Rightarrow> mtree" where
  "join_loop H t =
     (case head t of
        b # a # rest \<Rightarrow>
          (if height b = height a
           then join_loop H (t\<lparr>proofSet := push_proof t b a, head := joinSubTrees H a b # rest\<rparr>)
           else t)
      | _ \<Rightarrow> t)"
  by pat_completeness auto
termination
  by (relation "measure (\<lambda>(H, t). length (head t))") auto

declare join_loop.simps [simp del]

definition Push :: "hashfn \<Rightarrow> bytes \<Rightarrow> mtree \<Rightarrow> mtree" where
  "Push H data t =
     (let t1 = t\<lparr>proofSet := (if currentIndex t = proofIndex t then proofSet t @ [data] else proofSet t)\<rparr>;
          t2 = t1\<lparr>head := \<lparr>height = 0, sumval = (if cachedTree t then data else leafSum H data)\<rparr> # head t\<rparr>;
          t3 = join_loop H t2
      in t3\<lparr>currentIndex := currentIndex t3 + 1\<rparr>)"

fun root_loop :: "hashfn \<Rightarrow> subTree \<Rightarrow> subTree list \<Rightarrow> subTree" where
  "root_loop H current [] = current"
| "root_loop H current (nxt # rest) = root_loop H (joinSubTrees H nxt current) rest"

definition Root :: "hashfn \<Rightarrow> mtree \<Rightarrow> bytes option" where
  "Root H t = (case head t of
       [] \<Rightarrow> sum_slice H None
     | current # rest \<Rightarrow> Some (sumval (root_loop H current rest)))"

definition push_all :: "hashfn \<Rightarrow> bytes list \<Rightarrow> mtree \<Rightarrow> mtree" where
  "push_all H ds t = foldl (\<lambda>t d. Push H d t) t ds"

section \<open>The Merkle tree hash, recursively\<close>

text \<open>\<open>split_point n\<close> is the largest power of two below \<open>n\<close>, for \<open>n\<close> at least two.\<close>

fun split_point :: "nat \<Rightarrow> nat" where
  "split_point n = (if n \<le> 2 then 1 else 2 * split_point ((n + 1) div 2))"

declare split_point.simps [simp del]

lemma split_point_less: "2 \<le> n \<Longrightarrow> split_point n < n"
proof (induction n rule: split_point.induct)
  case (1 n)
  show ?case
  proof (cases "n \<le> 2")
    case True
    with "1.prems" have "n = 2" by simp
    then show ?thesis by (simp add: split_point.simps [of 2])
  next
    case False
    then have "split_point ((n + 1) div 2) < (n + 1) div 2" using "1.IH" by simp
    then show ?thesis using False by (simp add: split_point.simps [of n])
  qed
qed

lemma split_point_pos [simp]: "0 < split_point n"
  by (induction n rule: split_point.induct) (subst split_point.simps, simp)

lemma split_point_pow2: "2 ^ h < n \<Longrightarrow> n \<le> 2 ^ Suc h \<Longrightarrow> split_point n = 2 ^ h"
proof (induction h arbitrary: n)
  case 0
  then show ?case by (simp add: split_point.simps)
next
  case (Suc h)
  have "split_point ((n + 1) div 2) = 2 ^ h"
    using Suc.prems by (intro Suc.IH) auto
  moreover have "2 < n"
  proof -
    have "(1::nat) \<le> 2 ^ h" by simp
    then show ?thesis using Suc.prems(1) unfolding power_Suc by linarith
  qed
  ultimately show ?case by (simp add: split_point.simps [of n])
qed

function mth :: "hashfn \<Rightarrow> bytes list \<Rightarrow> bytes" where
  "mth H ds =
     (if length ds \<le> 1 then leafSum H (concat ds)
      else nodeSum H (mth H (take (split_point (length ds)) ds))
                     (mth H (drop (split_point (length ds)) ds)))"
  by pat_completeness auto
termination
  by (relation "measure (\<lambda>(H, ds). length ds)") (auto simp: split_point_less intro!: diff_less)

declare mth.simps [simp del]

lemma mth_single: "mth H [d] = leafSum H d"
  by (simp add: mth.simps)

lemma mth_append:
  assumes "length a = 2 ^ h" and "0 < length b" and "length b \<le> 2 ^ h"
  shows "mth H (a @ b) = nodeSum H (mth H a) (mth H b)"
proof -
  have s: "split_point (length (a @ b)) = 2 ^ h"
    using assms by (intro split_point_pow2) auto
  have n: "\<not> length (a @ b) \<le> 1"
  proof -
    have "1 \<le> length a" using assms(1) by simp
    then show ?thesis using assms(2) unfolding length_append by linarith
  qed
  show ?thesis
    unfolding mth.simps [of H "a @ b"] s using n assms(1) by (simp only: if_False) simp
qed

section \<open>The stack of subtrees is a binary counter\<close>

fun join_stack :: "hashfn \<Rightarrow> subTree list \<Rightarrow> subTree list" where
  "join_stack H (b # a # rest) =
     (if height b = height a then join_stack H (joinSubTrees H a b # rest) else b # a # rest)"
| "join_stack H st = st"

lemma join_loop_frame [simp]:
  "cachedTree (join_loop H t) = cachedTree t"
  "currentIndex (join_loop H t) = currentIndex t"
  "proofIndex (join_loop H t) = proofIndex t"
  by (induction H t rule: join_loop.induct; subst join_loop.simps; simp split: list.split)+

lemma head_join_loop: "head (join_loop H t) = join_stack H (head t)"
proof (induction H t rule: join_loop.induct)
  case (1 H t)
  show ?case
    using "1" by (cases "(H, head t)" rule: join_stack.cases) (auto simp: join_loop.simps [of H t])
qed

text \<open>
  \<open>covers H st segs\<close>: the subtrees of the stack are the Merkle hashes of the segments,
  each of a power-of-two length given by the subtree's height.
\<close>

definition covers :: "hashfn \<Rightarrow> subTree list \<Rightarrow> bytes list list \<Rightarrow> bool" where
  "covers H st segs \<longleftrightarrow>
     list_all2 (\<lambda>s seg. length seg = 2 ^ height s \<and> sumval s = mth H seg) st segs"

abbreviation heights_increase :: "subTree list \<Rightarrow> bool" where
  "heights_increase st \<equiv> sorted_wrt (<) (map height st)"

lemma join_stack_covers:
  assumes "covers H st segs" and "heights_increase (tl st)"
    and "\<And>b a rest. st = b # a # rest \<Longrightarrow> height b \<le> height a"
  shows "\<exists>segs'. covers H (join_stack H st) segs' \<and> concat (rev segs') = concat (rev segs)
           \<and> heights_increase (join_stack H st)"
  using assms
proof (induction H st arbitrary: segs rule: join_stack.induct)
  case (1 H b a rest)
  from "1.prems"(1) obtain sb sa ss where segs: "segs = sb # sa # ss"
    and lb: "length sb = 2 ^ height b" "sumval b = mth H sb"
    and la: "length sa = 2 ^ height a" "sumval a = mth H sa"
    and rest: "covers H rest ss"
    by (auto simp: covers_def list_all2_Cons1)
  show ?case
  proof (cases "height b = height a")
    case True
    have "covers H (joinSubTrees H a b # rest) ((sa @ sb) # ss)"
      using la lb True rest by (simp add: covers_def joinSubTrees_def mth_append [of _ "height a"])
    moreover have "height (joinSubTrees H a b) \<le> height c" if "rest = c # cs" for c cs
      using "1.prems"(2) that by (simp add: joinSubTrees_def)
    ultimately have "\<exists>segs'. covers H (join_stack H (joinSubTrees H a b # rest)) segs'
        \<and> concat (rev segs') = concat (rev ((sa @ sb) # ss))
        \<and> heights_increase (join_stack H (joinSubTrees H a b # rest))"
      using "1.prems"(2) by (intro "1.IH" True) auto
    then show ?thesis using True segs by simp
  next
    case False
    then have "height b < height a" using "1.prems"(3) by force
    moreover have "height b < height c" if "c \<in> set rest" for c
      using "1.prems"(2) \<open>height b < height a\<close> that by (auto intro: less_trans)
    ultimately have "heights_increase (b # a # rest)" using "1.prems"(2) by auto
    then show ?thesis using "1.prems"(1) False by auto
  qed
qed auto

definition tree_of :: "hashfn \<Rightarrow> mtree \<Rightarrow> bytes list \<Rightarrow> bool" where
  "tree_of H t ds \<longleftrightarrow> \<not> cachedTree t \<and> heights_increase (head t) \<and>
     (\<exists>segs. covers H (head t) segs \<and> concat (rev segs) = ds)"

lemma tree_of_New: "tree_of H New []"
  by (simp add: tree_of_def New_def covers_def)

lemma tree_of_Push:
  assumes "tree_of H t ds"
  shows "tree_of H (Push H d t) (ds @ [d])"
proof -
  from assms obtain segs where c: "covers H (head t) segs" "concat (rev segs) = ds"
    and hi: "heights_increase (head t)" and nc: "\<not> cachedTree t"
    by (auto simp: tree_of_def)
  let ?st = "\<lparr>height = 0, sumval = leafSum H d\<rparr> # head t"
  have "\<exists>segs'. covers H (join_stack H ?st) segs' \<and> concat (rev segs') = concat (rev ([d] # segs))
      \<and> heights_increase (join_stack H ?st)"
    using c(1) hi by (intro join_stack_covers) (auto simp: covers_def mth_single)
  then show ?thesis
    using c(2) nc by (auto simp: tree_of_def Push_def Let_def head_join_loop)
qed

lemma tree_of_push_all: "tree_of H t ds \<Longrightarrow> tree_of H (push_all H es t) (ds @ es)"
proof (induction es arbitrary: t ds)
  case Nil
  then show ?case by (simp add: push_all_def)
next
  case (Cons e es)
  from Cons.IH [OF tree_of_Push [OF Cons.prems, of e]] show ?case
    by (simp add: push_all_def)
qed

lemma sumval_root_loop:
  assumes "covers H st segs" and "heights_increase st"
    and "sumval cur = mth H c" and "0 < length c"
    and "\<And>s rest. st = s # rest \<Longrightarrow> length c < 2 ^ height s"
  shows "sumval (root_loop H cur st) = mth H (concat (rev segs) @ c)"
  using assms
proof (induction st arbitrary: cur c segs)
  case Nil
  then show ?case by (simp add: covers_def)
next
  case (Cons s st)
  from Cons.prems(1) obtain sg sgs where segs: "segs = sg # sgs" "length sg = 2 ^ height s"
      "sumval s = mth H sg" "covers H st sgs"
    by (auto simp: covers_def list_all2_Cons1)
  have lc: "length c < 2 ^ height s" using Cons.prems(5) by simp
  have "length (sg @ c) < 2 ^ height s'" if "st = s' # rest" for s' rest
  proof -
    have "Suc (height s) \<le> height s'" using Cons.prems(2) that by simp
    then have "2 ^ Suc (height s) \<le> (2::nat) ^ height s'" by (intro power_increasing) auto
    then show ?thesis using lc segs(2) by simp
  qed
  then have "sumval (root_loop H (joinSubTrees H s cur) st) = mth H (concat (rev sgs) @ (sg @ c))"
    using Cons.prems segs lc
    by (intro Cons.IH) (auto simp: joinSubTrees_def mth_append [of _ "height s"])
  then show ?case using segs(1) by simp
qed

lemma Root_tree_of:
  assumes "tree_of H t ds" and "ds \<noteq> []"
  shows "Root H t = Some (mth H ds)"
proof -
  from assms(1) obtain segs where c: "covers H (head t) segs" "concat (rev segs) = ds"
    and hi: "heights_increase (head t)"
    by (auto simp: tree_of_def)
  then obtain s st sg sgs where ht: "head t = s # st" "segs = sg # sgs"
    using assms(2) by (cases "head t"; cases segs) (auto simp: covers_def)
  have "sumval (root_loop H s st) = mth H (concat (rev sgs) @ sg)"
    using c(1) hi ht
    by (intro sumval_root_loop) (auto simp: covers_def intro: power_strict_increasing)
  then show ?thesis using ht c(2) by (simp add: Root_def)
qed

lemma Root_push_all: "ds \<noteq> [] \<Longrightarrow> Root H (push_all H ds New) = Some (mth H ds)"
  using Root_tree_of tree_of_push_all [OF tree_of_New] by fastforce

text \<open>
  The shift in \<open>push_proof\<close> never reaches the word length: a subtree of height \<open>h\<close> holds
  \<open>2 ^ h\<close> leaves, so with fewer than \<open>2 ^ 64\<close> leaves the divisor is not zero.
\<close>

lemma covers_height:
  assumes "covers H st segs" and "s \<in> set st"
  shows "2 ^ height s \<le> length (concat (rev segs))"
proof -
  from assms obtain i where i: "i < length st" "s = st ! i" by (auto simp: in_set_conv_nth)
  with assms have l: "length (segs ! i) = 2 ^ height s" "segs ! i \<in> set segs"
    by (auto simp: covers_def list_all2_conv_all_nth)
  from l(2) have "length (segs ! i) \<in> set (map length (rev segs))" by simp
  then have "length (segs ! i) \<le> sum_list (map length (rev segs))"
    by (rule member_le_sum_list) simp
  with l show ?thesis by (simp add: length_concat)
qed

lemma leaves_nonzero:
  assumes "tree_of H t ds" and "s \<in> set (head t)" and "length ds < 2 ^ 64"
  shows "push_bit (height s) (1::u64) \<noteq> 0"
proof -
  have "2 ^ height s \<le> length ds"
    using assms(1,2) covers_height by (fastforce simp: tree_of_def)
  then have "(2::nat) ^ height s < 2 ^ 64" using assms(3) by simp
  then have "height s < 64" by (rule power_less_imp_less_exp [rotated]) simp
  then show ?thesis by (simp add: push_bit_eq_mult)
qed

section \<open>Binding\<close>

text \<open>The byte strings that are hashed on the way to the root.\<close>

function mth_inputs :: "hashfn \<Rightarrow> bytes list \<Rightarrow> bytes set" where
  "mth_inputs H ds =
     (if length ds \<le> 1 then {CHR 0x00 # concat ds}
      else (let l = take (split_point (length ds)) ds; r = drop (split_point (length ds)) ds
            in insert (CHR 0x01 # mth H l @ mth H r) (mth_inputs H l \<union> mth_inputs H r)))"
  by pat_completeness auto
termination
  by (relation "measure (\<lambda>(H, ds). length ds)") (auto simp: split_point_less intro!: diff_less)

declare mth_inputs.simps [simp del]

lemma mth_preimage: "\<exists>x \<in> mth_inputs H ds. mth H ds = H x"
  by (subst mth_inputs.simps, subst mth.simps) (simp add: Let_def leafSum_def nodeSum_def)

lemma length_mth: "(\<And>x. length (H x) = L) \<Longrightarrow> length (mth H ds) = L"
  using mth_preimage [of H ds] by auto

lemma mth_binding:
  assumes "\<And>x. length (H x) = L"
    and "inj_on H (mth_inputs H as \<union> mth_inputs H bs)"
    and "as \<noteq> []" and "bs \<noteq> []"
    and "mth H as = mth H bs"
  shows "as = bs"
  using assms
proof (induction H as arbitrary: bs rule: mth.induct)
  case (1 H as)
  note inp = mth_inputs.simps [of H as] mth_inputs.simps [of H bs]
  note val = mth.simps [of H as] mth.simps [of H bs]
  show ?case
  proof (cases "length as \<le> 1")
    case True
    then have "length bs \<le> 1" and "concat as = concat bs"
      using "1.prems"(2,5) by (auto simp: inp val leafSum_def nodeSum_def Let_def split: if_splits)
    with True "1.prems"(3,4) show ?thesis
      by (cases as; cases bs) auto
  next
    case False
    define la where "la = take (split_point (length as)) as"
    define ra where "ra = drop (split_point (length as)) as"
    define lb where "lb = take (split_point (length bs)) bs"
    define rb where "rb = drop (split_point (length bs)) bs"
    have lenb: "\<not> length bs \<le> 1"
      using "1.prems"(2,5) False by (auto simp: inp val leafSum_def nodeSum_def Let_def split: if_splits)
    have inputs: "mth_inputs H la \<union> mth_inputs H lb \<subseteq> mth_inputs H as \<union> mth_inputs H bs"
      "mth_inputs H ra \<union> mth_inputs H rb \<subseteq> mth_inputs H as \<union> mth_inputs H bs"
      using False lenb by (auto simp: inp Let_def la_def ra_def lb_def rb_def)
    have ne: "la \<noteq> []" "ra \<noteq> []" "lb \<noteq> []" "rb \<noteq> []"
      using False lenb split_point_less [of "length as"] split_point_less [of "length bs"]
      by (auto simp: la_def ra_def lb_def rb_def)
    have "CHR 0x01 # mth H la @ mth H ra = CHR 0x01 # mth H lb @ mth H rb"
    proof (rule inj_onD [OF "1.prems"(2)])
      show "H (CHR 0x01 # mth H la @ mth H ra) = H (CHR 0x01 # mth H lb @ mth H rb)"
        using "1.prems"(5) False lenb by (simp add: val nodeSum_def la_def ra_def lb_def rb_def)
    qed (use False lenb in \<open>simp_all add: inp Let_def la_def ra_def lb_def rb_def\<close>)
    then have "mth H la = mth H lb" "mth H ra = mth H rb"
      using length_mth [OF "1.prems"(1)] by (simp_all add: append_eq_same_length)
    then have "la = lb" "ra = rb"
      using "1.IH" [folded la_def ra_def, OF False "1.prems"(1)] "1.prems"(2) ne inputs
      by (meson inj_on_subset)+
    then show ?thesis
      by (metis append_take_drop_id la_def lb_def ra_def rb_def)
  qed
qed

section \<open>Properties\<close>

text \<open>The stack is short: \<open>n\<close> leaves are kept as at most \<open>log\<close> of \<open>n + 1\<close> subtrees.\<close>

lemma heights_sum:
  "heights_increase st \<Longrightarrow> list_all2 (\<lambda>s seg. length seg = 2 ^ height s) st segs \<Longrightarrow> \<forall>s \<in> set st. k \<le> height s
    \<Longrightarrow> 2 ^ (k + length st) \<le> 2 ^ k + length (concat segs)"
proof (induction st arbitrary: segs k)
  case (Cons s st)
  then obtain seg rest where segs: "segs = seg # rest" "length seg = 2 ^ height s"
    "list_all2 (\<lambda>s seg. length seg = 2 ^ height s) st rest"
    by (auto simp: list_all2_Cons1)
  have "\<forall>x \<in> set st. Suc k \<le> height x"
    using Cons.prems(1,3) by (auto simp: Suc_le_eq intro: le_less_trans)
  then have "2 ^ (Suc k + length st) \<le> 2 ^ Suc k + length (concat rest)"
    using Cons.prems(1) segs(3) by (intro Cons.IH) auto
  moreover have "(2::nat) ^ k \<le> 2 ^ height s"
    using Cons.prems(3) by (intro power_increasing) auto
  ultimately have "2 ^ (Suc k + length st) \<le> 2 ^ k + (length seg + length (concat rest))"
    unfolding segs(2) power_Suc mult_2 add_Suc by linarith
  then show ?case by (simp add: segs(1))
qed simp

lemma stack_length:
  assumes "tree_of H t ds"
  shows "2 ^ length (head t) \<le> length ds + 1"
proof -
  obtain segs where c: "covers H (head t) segs" "concat (rev segs) = ds"
    and h: "heights_increase (head t)"
    using assms by (auto simp: tree_of_def)
  have "list_all2 (\<lambda>s seg. length seg = 2 ^ height s) (head t) segs"
    using c(1) by (auto simp: covers_def elim: list_all2_mono)
  from heights_sum [OF h this, of 0] have "2 ^ length (head t) \<le> 1 + length (concat segs)" by simp
  also have "length (concat segs) = length ds"
    using c(2) by (auto simp: length_concat rev_map [symmetric])
  finally show ?thesis by simp
qed

text \<open>
  C17. Pushing the leaves one by one and asking for the root gives the Merkle tree hash of the
  list, whatever its length and the hash function.
\<close>

theorem root_is_merkle_hash:
  assumes "ds \<noteq> []"
  shows "Root H (push_all H ds New) = Some (mth H ds)"
  using assms by (rule Root_push_all)

theorem root_is_merkle_hash_witness:
  "Root (\<lambda>x. x) (push_all (\<lambda>x. x) [''a'', ''b'', ''c''] New)
     = Some ([CHR 0x01, CHR 0x01, CHR 0x00] @ ''a'' @ [CHR 0x00] @ ''b'' @ [CHR 0x00] @ ''c'')"
  by (subst root_is_merkle_hash) (simp, code_simp)

text \<open>
  C11. Two different lists of leaves have different roots, unless the hash function collides on
  the inputs hashed for them: the number of leaves, their order and the bytes of each of them
  are fixed by the root.
\<close>

theorem root_binding:
  assumes "\<And>x. length (H x) = L"
    and "inj_on H (mth_inputs H as \<union> mth_inputs H bs)"
    and "as \<noteq> []" and "bs \<noteq> []" and "as \<noteq> bs"
  shows "Root H (push_all H as New) \<noteq> Root H (push_all H bs New)"
  using mth_binding [OF assms(1-4)] assms(5) by (auto simp: Root_push_all assms(3,4))

abbreviation toy_hash :: hashfn where
  "toy_hash \<equiv> \<lambda>x. take 4 (x @ ''....'')"

theorem root_binding_witness:
  "Root toy_hash (push_all toy_hash [''a'', ''b''] New) \<noteq> Root toy_hash (push_all toy_hash [''c'', ''b''] New)"
proof (rule root_binding [where L = 4])
  show "inj_on toy_hash (mth_inputs toy_hash [''a'', ''b''] \<union> mth_inputs toy_hash [''c'', ''b''])"
    by code_simp
qed simp_all

end
