(* ===== verification/Utils.thy ===== *)
theory Utils
  imports GoTime Merkle
begin

text \<open>
  Package \<open>utils\<close>: the identifiers of documents (\<open>utils/document.go\<close>) and the table of
  proof periods read from the configuration (\<open>utils/period.go\<close>). The digests SHA-256, MD5
  and SHA3-512 are parameters; \<open>crypto.Hash\<close> of \<open>conseweb/common\<close> writes the data into a
  fresh hash and returns its sum, so a digest is a function on byte strings.
\<close>

section \<open>Document identifiers\<close>

record digests =
  sha256 :: hashfn
  md5 :: hashfn
  sha3_512 :: hashfn

definition DocumentHash :: "digests \<Rightarrow> bytes \<Rightarrow> string" where
  "DocumentHash D doc =
     hex (sha3_512 D (hex (sha256 D doc) @ hex (md5 D doc) @ dec (int (length doc))))"

definition DocumentID :: "digests \<Rightarrow> bytes \<Rightarrow> gotime \<Rightarrow> string" where
  "DocumentID D doc t =
     hex (sha3_512 D (hex (sha256 D doc) @ hex (md5 D doc) @ dec (int (length doc))
                        @ dec (sint (UnixNano t))))"

text \<open>The documented output lengths of the three digests, in bytes.\<close>

definition digest_sizes :: "digests \<Rightarrow> bool" where
  "digest_sizes D \<longleftrightarrow> (\<forall>x. length (sha256 D x) = 32) \<and> (\<forall>x. length (md5 D x) = 16)
     \<and> (\<forall>x. length (sha3_512 D x) = 64)"

lemma digest_sizesD:
  assumes "digest_sizes D"
  shows "length (sha256 D x) = 32" "length (md5 D x) = 16" "length (sha3_512 D x) = 64"
  using assms by (auto simp: digest_sizes_def)

lemma sha256_nonempty: "digest_sizes D \<Longrightarrow> sha256 D x \<noteq> []"
  using digest_sizesD(1) [of D x] by auto

lemma length_DocumentID: "digest_sizes D \<Longrightarrow> length (DocumentID D doc t) = 128"
  by (simp add: DocumentID_def digest_sizesD)

lemma length_DocumentHash: "digest_sizes D \<Longrightarrow> length (DocumentHash D doc) = 128"
  by (simp add: DocumentHash_def digest_sizesD)

text \<open>
  The string a document is reduced to before the last digest. The prefix of two digests has a
  fixed length, so it can be read off.
\<close>

definition doc_preimage :: "digests \<Rightarrow> bytes \<Rightarrow> string" where
  "doc_preimage D doc = hex (sha256 D doc) @ hex (md5 D doc) @ dec (int (length doc))"

lemma hex_prefix_eq:
  assumes "digest_sizes D"
  shows "hex (sha256 D a) @ hex (md5 D a) @ xs = hex (sha256 D b) @ hex (md5 D b) @ ys
     \<longleftrightarrow> sha256 D a = sha256 D b \<and> md5 D a = md5 D b \<and> xs = ys"
  by (simp add: append_eq_same_length digest_sizesD [OF assms])

lemma DocumentHash_eq:
  assumes "digest_sizes D" and "inj_on (sha3_512 D) {doc_preimage D a, doc_preimage D b}"
  shows "DocumentHash D a = DocumentHash D b \<longleftrightarrow>
     sha256 D a = sha256 D b \<and> md5 D a = md5 D b \<and> length a = length b"
proof -
  have "DocumentHash D a = DocumentHash D b \<longleftrightarrow> doc_preimage D a = doc_preimage D b"
    using inj_on_eq_iff [OF assms(2)] by (simp add: DocumentHash_def doc_preimage_def)
  then show ?thesis by (simp add: doc_preimage_def hex_prefix_eq [OF assms(1)])
qed

lemma DocumentID_eq:
  assumes "digest_sizes D"
    and "inj_on (sha3_512 D) {doc_preimage D a @ dec (sint (UnixNano s)),
                              doc_preimage D b @ dec (sint (UnixNano t))}"
  shows "DocumentID D a s = DocumentID D b t \<longleftrightarrow>
     sha256 D a = sha256 D b \<and> md5 D a = md5 D b \<and>
     dec (int (length a)) @ dec (sint (UnixNano s)) = dec (int (length b)) @ dec (sint (UnixNano t))"
proof -
  have "DocumentID D a s = DocumentID D b t \<longleftrightarrow>
      doc_preimage D a @ dec (sint (UnixNano s)) = doc_preimage D b @ dec (sint (UnixNano t))"
    using inj_on_eq_iff [OF assms(2)] by (simp add: DocumentID_def doc_preimage_def)
  then show ?thesis by (simp add: doc_preimage_def hex_prefix_eq [OF assms(1)])
qed

section \<open>Proof periods\<close>

record PeriodLimit =
  Period :: i64
  Limit :: i64

text \<open>
  \<open>strconv.ParseInt(s, 10, 64)\<close>: the value and the error. A syntax error gives 0, a value out of
  range the nearest bound; scanning stops at the first character that decides.
\<close>

datatype num_error = ErrSyntax | ErrRange

definition digit_value :: "char \<Rightarrow> int option" where
  "digit_value c = (if c \<in> set digit_chars then Some (of_char c - 48) else None)"

fun scan_digits :: "int \<Rightarrow> string \<Rightarrow> int \<times> num_error option" where
  "scan_digits n [] = (n, None)"
| "scan_digits n (c # cs) =
     (case digit_value c of
        None \<Rightarrow> (0, Some ErrSyntax)
      | Some v \<Rightarrow> if 2 ^ 64 - 1 < n * 10 + v then (2 ^ 64 - 1, Some ErrRange)
                  else scan_digits (n * 10 + v) cs)"

definition ParseUint :: "string \<Rightarrow> int \<times> num_error option" where
  "ParseUint s = (if s = [] then (0, Some ErrSyntax) else scan_digits 0 s)"

definition ParseInt :: "string \<Rightarrow> i64 \<times> num_error option" where
  "ParseInt s0 =
     (if s0 = [] then (0, Some ErrSyntax)
      else let neg = (s0 ! 0 = CHR ''-'');
               s = (if s0 ! 0 = CHR ''+'' \<or> neg then drop 1 s0 else s0);
               (un, e) = ParseUint s
           in if e = Some ErrSyntax then (0, e)
              else if \<not> neg \<and> 2 ^ 63 \<le> un then (word_of_int (2 ^ 63 - 1), Some ErrRange)
              else if neg \<and> 2 ^ 63 < un then (word_of_int (- (2 ^ 63)), Some ErrRange)
              else (word_of_int (if neg then - un else un), None))"

text \<open>
  \<open>time.ParseDuration\<close> is the parameter \<open>pd\<close>; the configuration map is the list of its entries
  in the order in which the \<open>range\<close> loop meets them. A period that does not parse is skipped;
  the error of \<open>ParseInt\<close> is assigned and never read.
\<close>

type_synonym parse_duration = "string \<Rightarrow> err + i64"

fun loadPeriodLimits :: "parse_duration \<Rightarrow> (string \<times> string) list \<Rightarrow> PeriodLimit list" where
  "loadPeriodLimits pd [] = []"
| "loadPeriodLimits pd ((period, limit) # rest) =
     (case pd period of
        Inl e \<Rightarrow> loadPeriodLimits pd rest
      | Inr d \<Rightarrow> \<lparr>Period = d, Limit = fst (ParseInt limit)\<rparr> # loadPeriodLimits pd rest)"

text \<open>
  The package state: \<open>once\<close> has run or not, and the table. \<open>sync.Once\<close> marks itself done even
  when the function it runs panics.
\<close>

record period_state =
  once_done :: bool
  periodLimits :: "PeriodLimit list"

definition period_init :: period_state where
  "period_init = \<lparr>once_done = False, periodLimits = []\<rparr>"

definition GetPeriodLimits ::
    "parse_duration \<Rightarrow> (string \<times> string) list \<Rightarrow> period_state
       \<Rightarrow> period_state \<times> PeriodLimit list outcome" where
  "GetPeriodLimits pd cfg st =
     (if once_done st then (st, Ret (periodLimits st))
      else let ls = loadPeriodLimits pd cfg; st' = \<lparr>once_done = True, periodLimits = ls\<rparr>
           in if ls = [] then (st', Panic ''periodLimits can't be 0'') else (st', Ret ls))"

lemma loadPeriodLimits_filter:
  "map Period (loadPeriodLimits pd cfg) =
     map projr (filter (Not \<circ> isl) (map (pd \<circ> fst) cfg))"
  by (induction pd cfg rule: loadPeriodLimits.induct) (auto split: sum.splits)

lemma scan_digits_dec:
  "set cs \<subseteq> set digit_chars \<Longrightarrow> 0 \<le> n \<Longrightarrow> snd (scan_digits n cs) \<noteq> Some ErrSyntax"
  by (induction n cs rule: scan_digits.induct)
     (auto simp: digit_value_def digit_chars_def split: option.splits if_splits)

section \<open>Reading numbers back\<close>

text \<open>\<open>ParseInt\<close> reads every decimal numeral of the \<open>int64\<close> range back, both ends included.\<close>

lemma digit_value_decdigit [simp]: "digit_value (decdigit n) = Some (n mod 10)"
proof -
  have "n mod 10 \<in> {0..9}" by auto
  then have "n mod 10 \<in> {0, 1, 2, 3, 4, 5, 6, 7, 8, 9}" by (simp add: atLeastAtMost_iff) arith
  then show ?thesis by (auto simp: digit_value_def decdigit_def digit_chars_def)
qed

lemma scan_digits_snoc:
  "scan_digits a cs = (m, None) \<Longrightarrow> scan_digits a (cs @ [c]) =
     (case digit_value c of
        None \<Rightarrow> (0, Some ErrSyntax)
      | Some v \<Rightarrow> if 2 ^ 64 - 1 < m * 10 + v then (2 ^ 64 - 1, Some ErrRange) else (m * 10 + v, None))"
  by (induction a cs rule: scan_digits.induct) (auto split: option.splits if_splits)

lemma scan_digits_dec_pos: "0 \<le> n \<Longrightarrow> n < 2 ^ 64 \<Longrightarrow> scan_digits 0 (dec_pos n) = (n, None)"
proof (induction n rule: dec_pos.induct)
  case (1 n)
  show ?case
  proof (cases "n < 10")
    case True
    with 1 show ?thesis by (simp add: dec_pos_small)
  next
    case False
    with 1 have "scan_digits 0 (dec_pos (n div 10)) = (n div 10, None)" by simp
    from scan_digits_snoc [OF this] show ?thesis
      using False 1 by (simp add: dec_pos_large)
  qed
qed

lemma dec_pos_hd: "dec_pos n ! 0 \<in> set digit_chars"
  using set_dec_pos [of n] by (cases "dec_pos n") auto

lemma ParseInt_dec_eq:
  assumes "- (2 ^ 63) \<le> i" and "i < 2 ^ 63"
  shows "ParseInt (dec i) = (word_of_int i, None)"
proof (cases "i < 0")
  case True
  then have "ParseUint (dec_pos (- i)) = (- i, None)"
    using assms by (simp add: ParseUint_def scan_digits_dec_pos)
  with True assms show ?thesis
    by (simp add: ParseInt_def dec_def Let_def)
next
  case False
  then have "ParseUint (dec_pos i) = (i, None)"
    using assms by (simp add: ParseUint_def scan_digits_dec_pos)
  moreover have "dec_pos i ! 0 \<noteq> CHR ''-''" "dec_pos i ! 0 \<noteq> CHR ''+''"
    using dec_pos_hd [of i] by (auto simp: digit_chars_def)
  ultimately show ?thesis
    using False assms by (simp add: ParseInt_def dec_def Let_def)
qed

lemma ParseInt_syntax: "snd (ParseInt l) = Some ErrSyntax \<Longrightarrow> fst (ParseInt l) = 0"
  by (auto simp: ParseInt_def Let_def split: if_splits prod.splits)

lemma loadPeriodLimits_mem:
  "(p, l) \<in> set cfg \<Longrightarrow> pd p = Inr d \<Longrightarrow>
     \<lparr>Period = d, Limit = fst (ParseInt l)\<rparr> \<in> set (loadPeriodLimits pd cfg)"
  by (induction pd cfg rule: loadPeriodLimits.induct) (auto split: sum.splits)

section \<open>Properties\<close>

text \<open>
  Two documents have the same content hash exactly when both digests of their bytes and
  their lengths agree: the concatenation of the digests and the decimal length without
  separators loses nothing.
\<close>

theorem DocumentHash_iff:
  assumes "digest_sizes D" and "inj_on (sha3_512 D) {doc_preimage D a, doc_preimage D b}"
  shows "DocumentHash D a = DocumentHash D b \<longleftrightarrow>
     sha256 D a = sha256 D b \<and> md5 D a = md5 D b \<and> length a = length b"
  using assms by (rule DocumentHash_eq)

definition toy_digests :: digests where
  "toy_digests = \<lparr>sha256 = (\<lambda>x. take 32 (x @ replicate 32 CHR ''.'')),
     md5 = (\<lambda>x. take 16 (x @ replicate 16 CHR ''.'')),
     sha3_512 = (\<lambda>x. take 64 (rev x @ replicate 64 CHR ''.''))\<rparr>"

lemma digest_sizes_toy: "digest_sizes toy_digests"
  by (auto simp: digest_sizes_def toy_digests_def min_def)

theorem DocumentHash_iff_witness:
  "DocumentHash toy_digests ''abc'' = DocumentHash toy_digests ''abd'' \<longleftrightarrow>
     sha256 toy_digests ''abc'' = sha256 toy_digests ''abd'' \<and>
     md5 toy_digests ''abc'' = md5 toy_digests ''abd'' \<and> length ''abc'' = length ''abd''"
  by (rule DocumentHash_iff [OF digest_sizes_toy]) code_simp

text \<open>
  Two submissions of documents of the same length have the same identifier exactly when the
  digests of their bytes agree and they were made at the same nanosecond: submitting a document
  twice gives two identifiers.
\<close>

theorem DocumentID_iff:
  assumes "digest_sizes D" and "length a = length b"
    and "inj_on (sha3_512 D) {doc_preimage D a @ dec (sint (UnixNano s)),
                              doc_preimage D b @ dec (sint (UnixNano t))}"
  shows "DocumentID D a s = DocumentID D b t \<longleftrightarrow>
     sha256 D a = sha256 D b \<and> md5 D a = md5 D b \<and> UnixNano s = UnixNano t"
  using DocumentID_eq [OF assms(1,3)] assms(2) by (auto dest: signed_word_eqI)

theorem DocumentID_iff_witness:
  "DocumentID toy_digests ''abc'' (time_Unix 1) \<noteq> DocumentID toy_digests ''abc'' (time_Unix 2)"
proof -
  have "inj_on (sha3_512 toy_digests) {doc_preimage toy_digests ''abc'' @ dec (sint (UnixNano (time_Unix 1))),
          doc_preimage toy_digests ''abc'' @ dec (sint (UnixNano (time_Unix 2)))}"
    by code_simp
  moreover have "UnixNano (time_Unix 1) \<noteq> UnixNano (time_Unix 2)" by code_simp
  ultimately show ?thesis
    by (subst DocumentID_iff [OF digest_sizes_toy]) simp_all
qed

end
