(* ===== verification/Persister.thy ===== *)
theory Persister
  imports Protos GoTime
begin

text \<open>
  The interface \<open>PersistInterface\<close> of \<open>persist/persist.go\<close>: a record of operations over a store
  of type \<open>'p\<close> (Go's interface value), and the contract the API server and the blockchain
  handler rely on, stated over the table of documents a store holds. A read does not change the
  store; whether it fails is a function of the store, which leaves every pattern of failures
  possible because no handler repeats a query.
\<close>

record 'p persister =
  PutDocsIntoDB :: "document list \<Rightarrow> 'p \<Rightarrow> 'p \<times> err option"
  GetDocFromDBByDocID :: "string \<Rightarrow> 'p \<Rightarrow> err + document"
  SetDocsBlockDigest :: "i64 \<Rightarrow> string list \<Rightarrow> string \<Rightarrow> string \<Rightarrow> 'p \<Rightarrow> 'p \<times> err option"
  SetDocSignature :: "string \<Rightarrow> string \<Rightarrow> 'p \<Rightarrow> 'p \<times> err option"
  FindDocsByBlockDigest :: "string \<Rightarrow> 'p \<Rightarrow> err + document list"
  FindDocsByHash :: "string \<Rightarrow> 'p \<Rightarrow> err + document list"
  FindDocs :: "string \<Rightarrow> DocProofStatus \<Rightarrow> i64 \<Rightarrow> 'p \<Rightarrow> err + document list"
  DocProofStat :: "gotime \<Rightarrow> gotime \<Rightarrow> 'p \<Rightarrow> proofStat"

type_synonym table = "string \<Rightarrow> document option"

text \<open>What storing a new document does to the table: the proof columns of an older row stay.\<close>

definition put_row :: "document \<Rightarrow> table \<Rightarrow> table" where
  "put_row d t =
     (let old = (case t (Id d) of None \<Rightarrow> zero_doc | Some o' \<Rightarrow> o')
      in t(Id d \<mapsto> old\<lparr>Id := Id d, Hash := Hash d, SubmitTime := SubmitTime d,
             WaitDuration := WaitDuration d, Metadata := Metadata d, AppName := AppName d,
             ProofStatus := NOT_PROOFED\<rparr>))"

text \<open>What recording a proof does to one row.\<close>

definition prove_row :: "i64 \<Rightarrow> string \<Rightarrow> string \<Rightarrow> string \<Rightarrow> table \<Rightarrow> table" where
  "prove_row now digest txid i t =
     (let old = (case t i of None \<Rightarrow> zero_doc | Some o' \<Rightarrow> o')
      in t(i \<mapsto> old\<lparr>Id := i, BlockDigest := digest, ProofTime := now, Txid := txid,
             ProofStatus := ALREADY_PROOFED\<rparr>))"

definition sign_row :: "string \<Rightarrow> string \<Rightarrow> table \<Rightarrow> table" where
  "sign_row i sg t =
     (let old = (case t i of None \<Rightarrow> zero_doc | Some o' \<Rightarrow> o') in t(i \<mapsto> old\<lparr>Id := i, Sign := sg\<rparr>))"

text \<open>A write that is confirmed took effect; one that is not may have.\<close>

definition effect :: "bool \<Rightarrow> (table \<Rightarrow> table) \<Rightarrow> table \<Rightarrow> table set" where
  "effect ok f t = (if ok then {f t} else {t, f t})"

locale persist_contract =
  fixes P :: "'p persister"
    and docs_of :: "'p \<Rightarrow> table"
    and put_accepted :: "document list \<Rightarrow> 'p \<Rightarrow> bool"
  assumes table_ids: "docs_of p i = Some d \<Longrightarrow> Id d = i"
    and put_ok: "put_accepted ds p \<Longrightarrow> distinct (map Id ds) \<Longrightarrow>
        docs_of (fst (PutDocsIntoDB P ds p)) = fold put_row ds (docs_of p)"
    and prove_ok: "SetDocsBlockDigest P now ids dg tx p = (p', None) \<Longrightarrow> distinct ids \<Longrightarrow>
        docs_of p' = fold (prove_row now dg tx) ids (docs_of p)"
    and sign_ok: "SetDocSignature P i sg p = (p', None) \<Longrightarrow> docs_of p' = sign_row i sg (docs_of p)"
    and by_id: "GetDocFromDBByDocID P i p = Inr d \<Longrightarrow> docs_of p i = Some d"
    and by_digest: "FindDocsByBlockDigest P dg p = Inr ds \<Longrightarrow>
        distinct ds \<and> set ds = {d \<in> ran (docs_of p). BlockDigest d = dg}"
    and by_hash: "FindDocsByHash P h p = Inr ds \<Longrightarrow>
        distinct ds \<and> set ds = {d \<in> ran (docs_of p). Hash d = h}"
begin

lemma ran_ids: "d \<in> ran (docs_of p) \<Longrightarrow> docs_of p (Id d) = Some d"
  using table_ids by (auto simp: ran_def)

lemma by_digest_member:
  "FindDocsByBlockDigest P dg p = Inr ds \<Longrightarrow> d \<in> set ds \<longleftrightarrow> docs_of p (Id d) = Some d \<and> BlockDigest d = dg"
  using by_digest ran_ids by (auto intro: ranI)

lemma by_digest_ids_distinct:
  assumes "FindDocsByBlockDigest P dg p = Inr ds"
  shows "distinct (map Id ds)"
proof -
  have "inj_on Id (set ds)"
    using by_digest_member [OF assms] by (intro inj_onI) (metis option.inject)
  then show ?thesis using by_digest [OF assms] by (simp add: distinct_map)
qed

end

lemma fold_prove_row:
  "distinct ids \<Longrightarrow> fold (prove_row now dg tx) ids t i =
     (if i \<in> set ids then prove_row now dg tx i t i else t i)"
  by (induction ids arbitrary: t) (auto simp: prove_row_def)

text \<open>Copies of a document in a batch are equal: no two documents of the batch share an identifier.\<close>

definition agree :: "document list \<Rightarrow> bool" where
  "agree ds \<longleftrightarrow> inj_on Id (set ds)"

lemma agree_Cons: "agree (d # ds) \<Longrightarrow> agree ds"
  by (simp add: agree_def)

lemma agree_subset: "inj_on Id A \<Longrightarrow> set ds \<subseteq> A \<Longrightarrow> agree ds"
  by (simp add: agree_def inj_on_subset)

lemma distinct_agree: "distinct (map Id ds) \<Longrightarrow> agree ds"
  by (simp add: agree_def distinct_map)

lemma fold_put_row_other: "i \<notin> Id ` set ds \<Longrightarrow> fold put_row ds t i = t i"
  by (induction ds arbitrary: t) (auto simp: put_row_def Let_def)

lemma fold_put_row:
  "distinct (map Id ds) \<Longrightarrow> d \<in> set ds \<Longrightarrow> fold put_row ds t (Id d) = put_row d t (Id d)"
proof (induction ds arbitrary: t)
  case Nil
  then show ?case by simp
next
  case (Cons e ds)
  show ?case
  proof (cases "d = e")
    case True
    with Cons.prems show ?thesis by (simp add: fold_put_row_other)
  next
    case False
    then have "d \<in> set ds" using Cons.prems by simp
    then have "Id d \<noteq> Id e" using Cons.prems by (auto simp: rev_image_eqI)
    with Cons \<open>d \<in> set ds\<close> show ?thesis by (simp add: put_row_def Let_def)
  qed
qed

end
