(* ===== verification/Chaincode.thy ===== *)
theory Chaincode
  imports Protos Balance Utils Persister
begin

text \<open>
  The chaincode client: \<open>blockchain/chaincode.go\<close> and \<open>formatDocs\<close> of
  \<open>blockchain/blockchain.go\<close>. The gRPC library and the fabric peers are a record of functions
  over a world of type \<open>'w\<close> (with connections of type \<open>'k\<close>); JSON decoding is a parameter.
\<close>

section \<open>The state of the handler\<close>

text \<open>
  Values of the map \<open>items\<close> have type \<open>interface{}\<close>: the program stores slices of documents,
  which Go cannot compare with \<open>!=\<close>; any comparable value is represented by a string.
\<close>

datatype iface = DocSlice "document list" | Comparable string

type_synonym items = "string \<Rightarrow> iface option"

record Blockchain =
  bc_name :: string
  chainCodeId :: string
  path :: string
  secureCtx :: string
  balance :: string
  peers :: "string list"
  peerBackend :: ring
  events :: "string list"
  regTimeout :: i64
  failOver :: i64
  bc_items :: items

section \<open>items\<close>

definition items_Get :: "string \<Rightarrow> items \<Rightarrow> iface option" where
  "items_Get key its = its key"

text \<open>
  \<open>v != val\<close> on interface values: different dynamic types differ, equal uncomparable types
  panic.
\<close>

fun iface_neq :: "iface \<Rightarrow> iface \<Rightarrow> bool outcome" where
  "iface_neq (DocSlice a) (DocSlice b) = Panic ''comparing uncomparable type []*protos.Document''"
| "iface_neq (Comparable a) (Comparable b) = Ret (a \<noteq> b)"
| "iface_neq _ _ = Ret True"

definition items_Set :: "string \<Rightarrow> iface \<Rightarrow> items \<Rightarrow> items \<times> bool outcome" where
  "items_Set key val its =
     (case its key of
        None \<Rightarrow> (its(key \<mapsto> val), Ret True)
      | Some v \<Rightarrow> (case iface_neq v val of
            Ret True \<Rightarrow> (its(key \<mapsto> val), Ret True)
          | Ret False \<Rightarrow> (its, Ret False)
          | Panic e \<Rightarrow> (its, Panic e)
          | Fatal e \<Rightarrow> (its, Fatal e)))"

definition items_Delete :: "string \<Rightarrow> items \<Rightarrow> items" where
  "items_Delete key its = its(key := None)"

definition items_Clear :: "items \<Rightarrow> items" where
  "items_Clear its = Map.empty"

section \<open>The digest of a batch\<close>

definition docString :: "document \<Rightarrow> string" where
  "docString doc = Id doc @ dec (sint (SubmitTime doc)) @ dec (sint (WaitDuration doc)) @ Metadata doc"

definition formatDocs :: "hashfn \<Rightarrow> document list \<Rightarrow> string" where
  "formatDocs sha docs =
     (if docs = [] then []
      else let ds = sort (map docString docs); t = push_all sha ds New
           in (case Root sha t of None \<Rightarrow> hex [] | Some r \<Rightarrow> hex r))"

lemma formatDocs_mth:
  "docs \<noteq> [] \<Longrightarrow> formatDocs sha docs = hex (mth sha (sort (map docString docs)))"
  by (simp add: formatDocs_def Let_def Root_push_all)

lemma formatDocs_mset_docString:
  assumes "mset (map docString a) = mset (map docString b)"
  shows "formatDocs sha a = formatDocs sha b"
proof (cases "a = []")
  case True
  with assms show ?thesis by simp
next
  case False
  with assms have "b \<noteq> []" by auto
  moreover have "sort (map docString a) = sort (map docString b)"
    using assms by (simp only: sort_eq_iff_mset)
  ultimately show ?thesis using False by (simp add: formatDocs_mth)
qed

lemma formatDocs_nonempty:
  assumes "docs \<noteq> []" and "\<And>x. sha x \<noteq> []"
  shows "formatDocs sha docs \<noteq> []"
  using mth_preimage [of sha "sort (map docString docs)"] assms
  by (metis formatDocs_mth hex_eq_Nil_iff)

text \<open>The byte strings hashed for a batch.\<close>

definition batch_inputs :: "hashfn \<Rightarrow> document list \<Rightarrow> bytes set" where
  "batch_inputs sha docs = mth_inputs sha (sort (map docString docs))"

lemma formatDocs_binding:
  assumes "\<And>x. length (sha x) = L" and "inj_on sha (batch_inputs sha a \<union> batch_inputs sha b)"
    and "a \<noteq> []" and "b \<noteq> []"
  shows "formatDocs sha a = formatDocs sha b \<longleftrightarrow> mset (map docString a) = mset (map docString b)"
proof
  assume "formatDocs sha a = formatDocs sha b"
  then have "mth sha (sort (map docString a)) = mth sha (sort (map docString b))"
    using assms(3,4) by (simp add: formatDocs_mth)
  then have "sort (map docString a) = sort (map docString b)"
    using assms by (intro mth_binding [of sha L]) (auto simp: batch_inputs_def)
  then show "mset (map docString a) = mset (map docString b)"
    by (simp only: sort_eq_iff_mset)
next
  assume "mset (map docString a) = mset (map docString b)"
  then show "formatDocs sha a = formatDocs sha b" by (rule formatDocs_mset_docString)
qed

section \<open>Talking to a peer\<close>

record ChaincodeSpec =
  spec_Type :: string
  spec_Path :: string
  spec_Name :: string
  spec_Args :: "bytes list"
  spec_SecureContext :: string

definition toSpec :: "Blockchain \<Rightarrow> string \<Rightarrow> string list \<Rightarrow> ChaincodeSpec" where
  "toSpec bc func args = \<lparr>spec_Type = ''GOLANG'', spec_Path = path bc, spec_Name = chainCodeId bc,
     spec_Args = func # args, spec_SecureContext = secureCtx bc\<rparr>"

record Response =
  resp_Status :: int
  resp_Msg :: bytes

record ('w, 'k) fabric =
  Dial :: "string \<Rightarrow> 'w \<Rightarrow> 'w \<times> 'k option"
  CloseConn :: "'k \<Rightarrow> 'w \<Rightarrow> 'w"
  Invoke :: "'k \<Rightarrow> ChaincodeSpec \<Rightarrow> 'w \<Rightarrow> 'w \<times> Response option \<times> err option"
  Query :: "'k \<Rightarrow> ChaincodeSpec \<Rightarrow> 'w \<Rightarrow> 'w \<times> Response option \<times> err option"

fun dial_loop :: "('w, 'k) fabric \<Rightarrow> nat \<Rightarrow> string \<Rightarrow> 'w \<Rightarrow> 'w \<times> 'k option" where
  "dial_loop F 0 addr w = (w, None)"
| "dial_loop F (Suc n) addr w =
     (case Dial F addr w of
        (w', Some k) \<Rightarrow> (w', Some k)
      | (w', None) \<Rightarrow> dial_loop F n addr w')"

definition getGrpcConn :: "('w, 'k) fabric \<Rightarrow> Blockchain \<Rightarrow> string \<Rightarrow> 'w \<Rightarrow> 'w \<times> (err + 'k)" where
  "getGrpcConn F bc addr w =
     (case dial_loop F (nat (sint (failOver bc))) addr w of
        (w', None) \<Rightarrow> (w', Inl (''Could not create client conn to '' @ addr))
      | (w', Some k) \<Rightarrow> (w', Inr k))"

text \<open>The ring keeps its length.\<close>

lemma length_Choose [simp]: "length (fst (Choose r)) = length r"
  by (simp add: Choose_def ring_Next_def split: list.splits option.splits)

lemma Choose_length: "Choose r = (r', x) \<Longrightarrow> length r' = length r"
  by (metis fst_conv length_Choose)

text \<open>
  The loop of \<open>execute\<close> over the balancer: \<open>i\<close> is the loop variable, \<open>Len\<close> is read again in
  every iteration. A nil backend would make \<open>String\<close> panic.
  Only \<open>Choose\<close> holds the lock of the balancer, not the loop: between two choices of a call other calls
  may choose and so turn the ring. \<open>turns i\<close> is how often they do before the choice of iteration \<open>i\<close>.
\<close>

definition turned :: "nat \<Rightarrow> ring \<Rightarrow> ring" where
  "turned n rr = ((\<lambda>r. fst (Choose r)) ^^ n) rr"

lemma length_turned [simp]: "length (turned n rr) = length rr"
  by (induction n) (simp_all add: turned_def)

lemma turned_0 [simp]: "turned 0 rr = rr"
  by (simp add: turned_def)

function connect_shared :: "('w, 'k) fabric \<Rightarrow> Blockchain \<Rightarrow> (nat \<Rightarrow> nat) \<Rightarrow> nat \<Rightarrow> ring \<Rightarrow> 'w
    \<Rightarrow> ring \<times> 'w \<times> 'k option outcome" where
  "connect_shared F bc turns i rr w =
     (if i < Len rr then
        (case Choose (turned (turns i) rr) of
           (rr', Ret (Some b)) \<Rightarrow>
             (case getGrpcConn F bc b w of
                (w', Inr k) \<Rightarrow> (rr', w', Ret (Some k))
              | (w', Inl e) \<Rightarrow> connect_shared F bc turns (Suc i) rr' w')
         | (rr', Ret None) \<Rightarrow> (rr', w, Panic ''nil pointer dereference'')
         | (rr', Panic e) \<Rightarrow> (rr', w, Panic e)
         | (rr', Fatal e) \<Rightarrow> (rr', w, Fatal e))
      else (rr, w, Ret None))"
  by pat_completeness auto
termination
  by (relation "measure (\<lambda>(F, bc, turns, i, rr, w). Len rr - i)")
     (auto simp: Len_def ring_Len_def dest!: Choose_length Choose_length [OF sym])

declare connect_shared.simps [simp del]

text \<open>The loop of a call that is not disturbed.\<close>

definition connect_loop :: "('w, 'k) fabric \<Rightarrow> Blockchain \<Rightarrow> nat \<Rightarrow> ring \<Rightarrow> 'w \<Rightarrow> ring \<times> 'w \<times> 'k option outcome" where
  "connect_loop F bc = connect_shared F bc (\<lambda>_. 0)"

lemma connect_loop_simps:
  "connect_loop F bc i rr w =
     (if i < Len rr then
        (case Choose rr of
           (rr', Ret (Some b)) \<Rightarrow>
             (case getGrpcConn F bc b w of
                (w', Inr k) \<Rightarrow> (rr', w', Ret (Some k))
              | (w', Inl e) \<Rightarrow> connect_loop F bc (Suc i) rr' w')
         | (rr', Ret None) \<Rightarrow> (rr', w, Panic ''nil pointer dereference'')
         | (rr', Panic e) \<Rightarrow> (rr', w, Panic e)
         | (rr', Fatal e) \<Rightarrow> (rr', w, Fatal e))
      else (rr, w, Ret None))"
  unfolding connect_loop_def by (subst connect_shared.simps) simp

text \<open>\<open>execute\<close>, as it runs beside other calls, and undisturbed.\<close>

definition execute_shared :: "('w, 'k) fabric \<Rightarrow> (nat \<Rightarrow> nat) \<Rightarrow> string \<Rightarrow> string \<Rightarrow> string list \<Rightarrow> Blockchain \<Rightarrow> 'w
    \<Rightarrow> Blockchain \<times> 'w \<times> (err + bytes) outcome" where
  "execute_shared F turns method func args bc w =
     (let spec = toSpec bc func args
      in case connect_shared F bc turns 0 (peerBackend bc) w of
           (rr, w1, Panic e) \<Rightarrow> (bc\<lparr>peerBackend := rr\<rparr>, w1, Panic e)
         | (rr, w1, Fatal e) \<Rightarrow> (bc\<lparr>peerBackend := rr\<rparr>, w1, Fatal e)
         | (rr, w1, Ret None) \<Rightarrow> (bc\<lparr>peerBackend := rr\<rparr>, w1, Ret (Inl ''create grpc client conn valid''))
         | (rr, w1, Ret (Some k)) \<Rightarrow>
             (let (w2, resp, e) = (if method = ''invoke'' then Invoke F k spec w1
                                else if method = ''query'' then Query F k spec w1
                                else (w1, None, None));
                  w3 = CloseConn F k w2;
                  bc' = bc\<lparr>peerBackend := rr\<rparr>
              in case e of
                   Some e' \<Rightarrow> (bc', w3, Ret (Inl e'))
                 | None \<Rightarrow> (case resp of
                       None \<Rightarrow> (bc', w3, Ret (Inl ''resp is nil''))
                     | Some r \<Rightarrow> (bc', w3, Ret (Inr (resp_Msg r))))))"

definition execute :: "('w, 'k) fabric \<Rightarrow> string \<Rightarrow> string \<Rightarrow> string list \<Rightarrow> Blockchain \<Rightarrow> 'w
    \<Rightarrow> Blockchain \<times> 'w \<times> (err + bytes) outcome" where
  "execute F = execute_shared F (\<lambda>_. 0)"

lemmas execute_loop = execute_def execute_shared_def connect_loop_def

section \<open>Failover\<close>

text \<open>A host that answers every dial, and what \<open>execute\<close> makes of the reply of a peer.\<close>

definition dialable :: "('w, 'k) fabric \<Rightarrow> string \<Rightarrow> bool" where
  "dialable F addr \<longleftrightarrow> (\<forall>w. snd (Dial F addr w) \<noteq> None)"

definition reply_of :: "Response option \<times> err option \<Rightarrow> err + bytes" where
  "reply_of re = (case snd re of Some e \<Rightarrow> Inl e
     | None \<Rightarrow> (case fst re of None \<Rightarrow> Inl ''resp is nil'' | Some r \<Rightarrow> Inr (resp_Msg r)))"

lemma getGrpcConn_dialable:
  assumes "dialable F addr" and "0 < sint (failOver bc)"
  shows "\<exists>w' k. getGrpcConn F bc addr w = (w', Inr k)"
proof -
  obtain n where n: "nat (sint (failOver bc)) = Suc n"
    using assms(2) by (metis gr0_conv_Suc zero_less_nat_eq)
  obtain w' k where "Dial F addr w = (w', Some k)"
    using assms(1) unfolding dialable_def by (metis option.exhaust prod.collapse)
  then show ?thesis by (simp add: getGrpcConn_def n)
qed

lemma connect_loop_finds:
  assumes "i \<le> length xs" and "b \<in> set (take (length xs - i) xs)"
    and "dialable F b" and "0 < sint (failOver bc)"
  shows "\<exists>rr w' k. connect_loop F bc i (map Some xs) w = (rr, w', Ret (Some k)) \<and> mset rr = mset (map Some xs)"
  using assms(1,2)
proof (induction "length xs - i" arbitrary: i xs w)
  case 0
  then show ?case by simp
next
  case (Suc n)
  then have i: "i < length xs" by simp
  then obtain x ys where xs: "xs = x # ys" by (cases xs) auto
  have unf: "connect_loop F bc i (map Some xs) w =
     (case getGrpcConn F bc x w of
        (w', Inr k) \<Rightarrow> (map Some (ys @ [x]), w', Ret (Some k))
      | (w', Inl e) \<Rightarrow> connect_loop F bc (Suc i) (map Some (ys @ [x])) w')"
    using i by (subst connect_loop_simps) (simp add: Len_def ring_Len_def xs Choose_Some split: sum.splits)
  show ?case
  proof (cases "getGrpcConn F bc x w")
    case (Pair w' r)
    show ?thesis
    proof (cases r)
      case (Inr k)
      with Pair unf show ?thesis by (simp add: xs)
    next
      case (Inl e)
      then have "b \<noteq> x"
        using Pair getGrpcConn_dialable [OF assms(3,4), of w] by auto
      then have "b \<in> set (take (length (ys @ [x]) - Suc i) (ys @ [x]))"
        using Suc.prems(2) Suc.hyps(2) i xs by (auto simp: Suc_diff_le)
      with Suc.hyps i xs have "\<exists>rr w'' k. connect_loop F bc (Suc i) (map Some (ys @ [x])) w' = (rr, w'', Ret (Some k))
          \<and> mset rr = mset (map Some (ys @ [x]))"
        by (intro Suc.hyps(1)) auto
      with Pair Inl unf show ?thesis by (auto simp: xs)
    qed
  qed
qed

lemma dial_loop_refused: "(\<And>w. snd (Dial F addr w) = None) \<Longrightarrow> snd (dial_loop F n addr w) = None"
  by (induction n arbitrary: w) (auto split: prod.splits option.splits, metis option.distinct(1) snd_conv)

text \<open>With no host that answers, the loop ends without a connection.\<close>

lemma connect_loop_refused:
  assumes "\<And>a w. snd (Dial F a w) = None"
  shows "\<exists>rr w'. connect_loop F bc i (map Some xs) w = (rr, w', Ret None)"
proof (induction "length xs - i" arbitrary: i xs w)
  case 0
  then show ?case by (subst connect_loop_simps) (simp add: Len_def ring_Len_def)
next
  case (Suc n)
  then have i: "i < length xs" by simp
  then obtain x ys where xs: "xs = x # ys" by (cases xs) auto
  obtain w' where "dial_loop F (nat (sint (failOver bc))) x w = (w', None)"
    using dial_loop_refused [of F x] assms by (metis prod.collapse)
  then have "connect_loop F bc i (map Some xs) w = connect_loop F bc (Suc i) (map Some (ys @ [x])) w'"
    using i by (subst connect_loop_simps) (simp add: Len_def ring_Len_def xs Choose_Some getGrpcConn_def)
  moreover have "n = length (ys @ [x]) - Suc i" using Suc.hyps(2) xs by simp
  ultimately show ?case using Suc.hyps(1) by metis
qed

text \<open>
  What holds of the ring and of the world after the loop: the hosts stay, and an observation that
  no dial changes stays.
\<close>

lemma turned_map: "turned n (map Some xs) = map Some (rotate n xs)"
proof (induction n)
  case (Suc n)
  have "turned (Suc n) (map Some xs) = fst (Choose (map Some (rotate n xs)))"
    using Suc.IH by (simp add: turned_def)
  also have "\<dots> = map Some (rotate1 (rotate n xs))"
    by (cases "rotate n xs") (simp_all add: Choose_def ring_Next_def)
  finally show ?case by simp
qed simp

lemma connect_shared_unfold:
  assumes "i < length xs" and "rotate (turns i) xs = x # ys"
  shows "connect_shared F bc turns i (map Some xs) w =
     (case getGrpcConn F bc x w of
        (w', Inr k) \<Rightarrow> (map Some (ys @ [x]), w', Ret (Some k))
      | (w', Inl e) \<Rightarrow> connect_shared F bc turns (Suc i) (map Some (ys @ [x])) w')"
  using assms(1) by (subst connect_shared.simps)
    (simp add: Len_def ring_Len_def turned_map assms(2) Choose_Some split: sum.splits)

lemma connect_shared_ring:
  "connect_shared F bc turns i (map Some xs) w = (rr, r) \<Longrightarrow> \<exists>ys. rr = map Some ys \<and> mset ys = mset xs"
proof (induction "length xs - i" arbitrary: i xs w)
  case 0
  then show ?case by (subst (asm) connect_shared.simps) (auto simp: Len_def ring_Len_def)
next
  case (Suc n)
  then have i: "i < length xs" by simp
  then have "rotate (turns i) xs \<noteq> []" by auto
  then obtain x ys where xs: "rotate (turns i) xs = x # ys" by (meson neq_Nil_conv)
  note unf = connect_shared_unfold [of i xs turns, OF i xs, of F bc w]
  have len: "length (ys @ [x]) = length xs" using arg_cong [OF xs, of length] by simp
  have m: "mset (ys @ [x]) = mset xs" using arg_cong [OF xs, of mset] by simp
  obtain w' g where g: "getGrpcConn F bc x w = (w', g)" by (metis prod.collapse)
  show ?case
  proof (cases g)
    case (Inl e)
    have "n = length (ys @ [x]) - Suc i" using Suc.hyps(2) len by simp
    moreover have "connect_shared F bc turns (Suc i) (map Some (ys @ [x])) w' = (rr, r)"
      using Suc.prems unfolding unf g Inl by simp
    ultimately obtain zs where "rr = map Some zs" "mset zs = mset (ys @ [x])" using Suc.hyps(1) by blast
    with m show ?thesis by metis
  next
    case (Inr k)
    then have "rr = map Some (ys @ [x])" using Suc.prems unfolding unf g by simp
    with m show ?thesis by blast
  qed
qed

lemma dial_loop_frame:
  "(\<And>a w. obs (fst (Dial F a w)) = obs w) \<Longrightarrow> obs (fst (dial_loop F n addr w)) = obs w"
  by (induction n arbitrary: w) (auto split: prod.splits option.splits, (metis fst_conv)+)

lemma getGrpcConn_frame:
  assumes "\<And>a w. obs (fst (Dial F a w)) = obs w" and "getGrpcConn F bc addr w = (w', r)"
  shows "obs w' = obs w"
  using dial_loop_frame [of obs F "nat (sint (failOver bc))" addr w] assms
  by (auto simp: getGrpcConn_def split: prod.splits option.splits)

lemma connect_shared_frame:
  "(\<And>a w. obs (fst (Dial F a w)) = obs w) \<Longrightarrow> obs (fst (snd (connect_shared F bc turns i rr w))) = obs w"
proof (induction F bc turns i rr w rule: connect_shared.induct)
  case (1 F bc turns i rr w)
  obtain rr' c where c: "Choose (turned (turns i) rr) = (rr', c)" by (metis prod.collapse)
  show ?case
  proof (cases "i < Len rr \<and> (\<exists>b. c = Ret (Some b))")
    case False
    then show ?thesis
      by (subst connect_shared.simps) (auto simp: c split: outcome.splits option.splits)
  next
    case True
    then obtain b where b: "i < Len rr" "c = Ret (Some b)" by blast
    obtain w' g where g: "getGrpcConn F bc b w = (w', g)" by (metis prod.collapse)
    have w': "obs w' = obs w" by (rule getGrpcConn_frame [OF "1.prems" g])
    show ?thesis
    proof (cases g)
      case (Inl e)
      have "obs (fst (snd (connect_shared F bc turns (Suc i) rr' w'))) = obs w'"
        by (rule "1.IH" [OF b(1) c [symmetric] b(2) refl g [symmetric] Inl]) (rule "1.prems")
      then show ?thesis
        by (subst connect_shared.simps) (simp add: b c g Inl w')
    next
      case (Inr k)
      then show ?thesis
        by (subst connect_shared.simps) (simp add: b c g w')
    qed
  qed
qed

text \<open>With a dialable host in the ring, the result of \<open>execute\<close> is the reply of some peer.\<close>

lemma execute_reply:
  assumes "rr_inv (peerBackend bc)" and "b \<in> set (rr_elems (peerBackend bc))"
    and "dialable F b" and "0 < sint (failOver bc)"
  obtains bc' k w1 w2 re where
    "execute F method func args bc w = (bc', CloseConn F k w2, Ret (reply_of re))"
    and "(w2, re) = (if method = ''invoke'' then Invoke F k (toSpec bc func args) w1
                     else if method = ''query'' then Query F k (toSpec bc func args) w1
                     else (w1, None, None))"
    and "\<exists>rr. bc' = bc\<lparr>peerBackend := rr\<rparr> \<and> mset rr = mset (peerBackend bc)"
    and "\<And>obs. (\<And>a w. obs (fst (Dial F a w)) = obs w) \<Longrightarrow> obs w1 = obs w"
proof -
  obtain rr w1 k where c: "connect_loop F bc 0 (peerBackend bc) w = (rr, w1, Ret (Some k))"
    and m: "mset rr = mset (peerBackend bc)"
    using connect_loop_finds [of 0 "rr_elems (peerBackend bc)" b F bc w] assms
    by (metis diff_zero le0 order_refl rr_inv_eq take_all)
  define re where "re = (if method = ''invoke'' then Invoke F k (toSpec bc func args) w1
                     else if method = ''query'' then Query F k (toSpec bc func args) w1
                     else (w1, None, None))"
  have "execute F method func args bc w = (bc\<lparr>peerBackend := rr\<rparr>, CloseConn F k (fst re), Ret (reply_of (snd re)))"
    by (cases re) (auto simp: execute_def execute_shared_def c [unfolded connect_loop_def] Let_def re_def [symmetric]
        reply_of_def split: option.splits)
  moreover have "(fst re, snd re) = re" by simp
  moreover have "obs w1 = obs w" if "\<And>a w. obs (fst (Dial F a w)) = obs w" for obs
    using connect_shared_frame [of obs F bc "\<lambda>_. 0" 0 "peerBackend bc" w] that c [unfolded connect_loop_def] by simp
  ultimately show ?thesis using m unfolding re_def by (intro that) blast+
qed

text \<open>Whatever the peers do, \<open>execute\<close> and the calls beside it only rotate the hosts of the ring.\<close>

lemma execute_shared_ring:
  assumes "rr_inv (peerBackend bc)" and "execute_shared F turns method func args bc w = (bc', w', r)"
  shows "\<exists>rr. bc' = bc\<lparr>peerBackend := rr\<rparr> \<and> rr_inv rr \<and> set (rr_elems rr) = set (rr_elems (peerBackend bc))"
proof -
  obtain rr w1 x where c: "connect_shared F bc turns 0 (peerBackend bc) w = (rr, w1, x)"
    by (metis prod_cases3)
  then obtain ys where ys: "rr = map Some ys" "mset ys = mset (rr_elems (peerBackend bc))"
    using connect_shared_ring [of F bc turns 0 "rr_elems (peerBackend bc)" w rr "(w1, x)"] rr_inv_eq [OF assms(1)] by auto
  have "bc' = bc\<lparr>peerBackend := rr\<rparr>"
    using assms(2) by (auto simp: execute_shared_def c Let_def split: outcome.splits option.splits prod.splits)
  then show ?thesis using ys mset_eq_setD [OF ys(2)] by (auto simp: rr_inv_Some)
qed

lemma execute_shared_items: "execute_shared F turns m f args bc w = (bc', w', r) \<Longrightarrow> bc_items bc' = bc_items bc"
  by (auto simp: execute_shared_def Let_def split: prod.splits outcome.splits option.splits)

text \<open>
  The world after \<open>execute\<close>, seen through an observation that dialing and closing do not change:
  it is related to the world before as the calls relate it.
\<close>

lemma execute_shared_frame:
  assumes "\<And>a w. obs (fst (Dial F a w)) = obs w" and "\<And>k w. obs (CloseConn F k w) = obs w"
    and "\<And>k sp w. method = ''invoke'' \<Longrightarrow> Q (obs w) (obs (fst (Invoke F k sp w)))"
    and "\<And>k sp w. method = ''query'' \<Longrightarrow> Q (obs w) (obs (fst (Query F k sp w)))" and "\<And>x. Q x x"
    and "execute_shared F turns method func args bc w = (bc', w', r)"
  shows "Q (obs w) (obs w')"
proof -
  obtain rr w1 x where c: "connect_shared F bc turns 0 (peerBackend bc) w = (rr, w1, x)"
    by (metis prod_cases3)
  have w1: "obs w1 = obs w"
    using connect_shared_frame [of obs F bc turns 0 "peerBackend bc" w, OF assms(1)] c by simp
  show ?thesis
  proof (cases "\<exists>k. x = Ret (Some k)")
    case False
    then have "w' = w1"
      using assms(6) by (auto simp: execute_shared_def c Let_def split: outcome.splits option.splits)
    then show ?thesis using assms(5) w1 by simp
  next
    case True
    then obtain k where x: "x = Ret (Some k)" by blast
    define re where "re = (if method = ''invoke'' then Invoke F k (toSpec bc func args) w1
                     else if method = ''query'' then Query F k (toSpec bc func args) w1
                     else (w1, None, None))"
    have "w' = CloseConn F k (fst re)"
      using assms(6) by (cases re) (auto simp: execute_shared_def c x Let_def re_def [symmetric] split: option.splits)
    moreover have "Q (obs w1) (obs (fst re))"
      using assms(3-5) by (auto simp: re_def)
    ultimately show ?thesis using assms(2) w1 by simp
  qed
qed

lemma execute_items: "execute F m f args bc w = (bc', w', r) \<Longrightarrow> bc_items bc' = bc_items bc"
  unfolding execute_def by (rule execute_shared_items)

text \<open>
  What the missing lock costs: whenever the host that comes next does not answer, enough choices of
  other calls between its own make a call ask this host every time, and it fails for want of a
  connection although all other hosts may answer. With two hosts, one choice in between is enough.
\<close>

lemma connect_shared_misses:
  assumes "\<And>w. snd (Dial F x w) = None"
  shows "\<exists>rr w'. connect_shared F bc (\<lambda>i. if i = 0 then 0 else length ys) i (map Some (if i = 0 then x # ys else ys @ [x])) w
     = (rr, w', Ret None)"
proof (induction "Suc (length ys) - i" arbitrary: i w)
  case 0
  then show ?case by (subst connect_shared.simps) (simp add: Len_def ring_Len_def)
next
  case (Suc n)
  let ?xs = "if i = 0 then x # ys else ys @ [x]"
  have i: "i < length ?xs" using Suc.hyps(2) by auto
  have r: "rotate (if i = 0 then 0 else length ys) ?xs = x # ys"
    by (simp add: rotate_append)
  obtain w' where g: "getGrpcConn F bc x w = (w', Inl (''Could not create client conn to '' @ x))"
    using dial_loop_refused [of F x "nat (sint (failOver bc))" w] assms
    by (cases "dial_loop F (nat (sint (failOver bc))) x w") (simp add: getGrpcConn_def)
  have "connect_shared F bc (\<lambda>i. if i = 0 then 0 else length ys) i (map Some ?xs) w
      = connect_shared F bc (\<lambda>i. if i = 0 then 0 else length ys) (Suc i) (map Some (ys @ [x])) w'"
    by (subst connect_shared_unfold [of i ?xs "\<lambda>i. if i = 0 then 0 else length ys", OF i r]) (simp add: g)
  moreover have "n = Suc (length ys) - Suc i" using Suc.hyps(2) by simp
  ultimately show ?case using Suc.hyps(1) [of "Suc i"] by simp
qed

lemma overlapping_call_misses_peers:
  assumes "rr_elems (peerBackend bc) = x # ys" and "rr_inv (peerBackend bc)" and "\<And>w. snd (Dial F x w) = None"
  shows "\<exists>turns bc' w'. execute_shared F turns method func args bc w
     = (bc', w', Ret (Inl ''create grpc client conn valid''))"
proof -
  have "peerBackend bc = map Some (x # ys)" using rr_inv_eq [OF assms(2)] assms(1) by simp
  moreover obtain rr w' where "connect_shared F bc (\<lambda>i. if i = 0 then 0 else length ys) 0 (map Some (x # ys)) w = (rr, w', Ret None)"
    using connect_shared_misses [OF assms(3), of bc ys 0 w] by auto
  ultimately have "execute_shared F (\<lambda>i. if i = 0 then 0 else length ys) method func args bc w
      = (bc\<lparr>peerBackend := rr\<rparr>, w', Ret (Inl ''create grpc client conn valid''))"
    by (simp add: execute_shared_def Let_def)
  then show ?thesis by blast
qed

section \<open>The event of a completed invocation\<close>

record ChaincodeEvent =
  ev_ChaincodeID :: string
  ev_EventName :: string
  ev_TxID :: string
  ev_Payload :: bytes

text \<open>An event of the hub: a chaincode event or one of the other kinds.\<close>

datatype hub_event = EvChaincode ChaincodeEvent | EvRegister | EvUnregister | EvOther | EvNil

text \<open>
  \<open>eccAdapter.Recv\<close>: whether the event loop goes on, and the event handed to the channel \<open>ecc\<close>.
\<close>

definition ecc_Recv :: "Blockchain \<Rightarrow> hub_event \<Rightarrow> bool \<times> ChaincodeEvent option" where
  "ecc_Recv bc msg =
     (case msg of
        EvChaincode ev \<Rightarrow>
          if ev_ChaincodeID ev \<noteq> chainCodeId bc then (False, None)
          else if ev_EventName ev \<noteq> ''invoke_completed'' then (False, None)
          else (True, Some ev)
      | _ \<Rightarrow> (False, None))"

text \<open>
  \<open>invokeCompleted\<close>: \<open>unmarshal\<close> decodes the payload into a map from batch digests to proof hashes,
  \<open>now\<close> is the clock read by the persister. The result of \<open>SetDocsBlockDigest\<close> is dropped and the
  transaction leaves \<open>items\<close> whatever it was.
\<close>

definition proofKey :: "digests \<Rightarrow> string \<Rightarrow> string" where
  "proofKey D proofHash = hex (sha3_512 D proofHash)"

lemma proofKey_nonempty: "digest_sizes D \<Longrightarrow> proofKey D h \<noteq> []"
  using digest_sizesD(3) [of D h] by (auto simp: proofKey_def)

text \<open>
  The handler runs in the goroutine of its event client, and its three accesses to what it
  shares with other handlers are moments of their own: it reads \<open>items\<close>, it writes the
  database, it removes the transaction.
\<close>

definition completed_begin ::
    "digests \<Rightarrow> (bytes \<Rightarrow> err + (string \<Rightarrow> string option)) \<Rightarrow> ChaincodeEvent \<Rightarrow> Blockchain
       \<Rightarrow> err + document list \<times> string" where
  "completed_begin D unmarshal e bc =
     (let txid = ev_TxID e
      in case items_Get txid (bc_items bc) of
           None \<Rightarrow> Inl ''not found stored documents''
         | Some (Comparable s) \<Rightarrow> Inl ''invalid stored type, should be a slice of documents pointer''
         | Some (DocSlice docs) \<Rightarrow>
             (case unmarshal (ev_Payload e) of
                Inl er \<Rightarrow> Inl er
              | Inr proofResults \<Rightarrow>
                  (case proofResults (formatDocs (sha256 D) docs) of
                     None \<Rightarrow> Inl ''doc has not been proofed''
                   | Some proofHash \<Rightarrow> Inr (docs, proofKey D proofHash))))"

definition completed_write ::
    "'p persister \<Rightarrow> i64 \<Rightarrow> document list \<Rightarrow> string \<Rightarrow> string \<Rightarrow> 'p \<Rightarrow> 'p" where
  "completed_write P now docs key txid p =
     (let docIds = map Id docs in fst (SetDocsBlockDigest P now docIds key txid p))"

definition completed_delete :: "string \<Rightarrow> Blockchain \<Rightarrow> Blockchain" where
  "completed_delete txid bc = bc\<lparr>bc_items := items_Delete txid (bc_items bc)\<rparr>"

definition invokeCompleted ::
    "digests \<Rightarrow> (bytes \<Rightarrow> err + (string \<Rightarrow> string option)) \<Rightarrow> 'p persister \<Rightarrow> i64 \<Rightarrow> ChaincodeEvent
       \<Rightarrow> Blockchain \<Rightarrow> 'p \<Rightarrow> Blockchain \<times> 'p \<times> err option" where
  "invokeCompleted D unmarshal P now e bc p =
     (case completed_begin D unmarshal e bc of
        Inl er \<Rightarrow> (bc, p, Some er)
      | Inr (docs, key) \<Rightarrow>
          (let p' = completed_write P now docs key (ev_TxID e) p
           in (completed_delete (ev_TxID e) bc, p', None)))"

lemmas completed_defs = completed_begin_def completed_write_def completed_delete_def items_Get_def items_Delete_def Let_def

lemma completed_begin_Inr:
  assumes "completed_begin D um e bc = Inr (docs, key)"
  obtains results h where "bc_items bc (ev_TxID e) = Some (DocSlice docs)" and "um (ev_Payload e) = Inr results"
    and "results (formatDocs (sha256 D) docs) = Some h" and "key = proofKey D h"
  using assms by (auto simp: completed_defs split: option.splits iface.splits sum.splits)

text \<open>The handler without interference.\<close>

lemma invokeCompleted_cases:
  assumes "invokeCompleted D um P now e bc p = (bc', p', er)"
  obtains (refused) "bc' = bc" and "p' = p" and "er \<noteq> None"
  | (finished) docs results h where "bc_items bc (ev_TxID e) = Some (DocSlice docs)" and "um (ev_Payload e) = Inr results"
      and "results (formatDocs (sha256 D) docs) = Some h"
      and "bc' = bc\<lparr>bc_items := (bc_items bc)(ev_TxID e := None)\<rparr>"
      and "p' = fst (SetDocsBlockDigest P now (map Id docs) (proofKey D h) (ev_TxID e) p)" and "er = None"
proof (cases "completed_begin D um e bc")
  case (Inl x)
  then show ?thesis using assms refused by (auto simp: invokeCompleted_def)
next
  case (Inr x)
  obtain docs key where x: "x = (docs, key)" by (metis prod.collapse)
  from completed_begin_Inr [OF Inr [unfolded x]] obtain results h where "bc_items bc (ev_TxID e) = Some (DocSlice docs)"
    "um (ev_Payload e) = Inr results" "results (formatDocs (sha256 D) docs) = Some h" "key = proofKey D h" .
  then show ?thesis
    using finished [of docs results h] assms Inr x by (simp add: invokeCompleted_def completed_write_def completed_delete_def items_Delete_def Let_def)
qed

lemma invokeCompleted_eq:
  assumes "bc_items bc (ev_TxID e) = Some (DocSlice docs)" and "um (ev_Payload e) = Inr results"
    and "results (formatDocs (sha256 D) docs) = Some h"
  shows "invokeCompleted D um P now e bc p = (bc\<lparr>bc_items := (bc_items bc)(ev_TxID e := None)\<rparr>,
     fst (SetDocsBlockDigest P now (map Id docs) (proofKey D h) (ev_TxID e) p), None)"
  using assms by (simp add: invokeCompleted_def completed_defs)

lemma invokeCompleted_missing:
  "bc_items bc (ev_TxID e) = None \<Longrightarrow> invokeCompleted D um P now e bc p = (bc, p, Some ''not found stored documents'')"
  by (simp add: invokeCompleted_def completed_defs)

section \<open>The batch found under its digest\<close>

text \<open>The digest a table holds for an identifier, and the string of its document.\<close>

definition digest_of :: "table \<Rightarrow> string \<Rightarrow> string" where
  "digest_of t i = (case t i of None \<Rightarrow> [] | Some x \<Rightarrow> BlockDigest x)"

definition string_of :: "table \<Rightarrow> string \<Rightarrow> string option" where
  "string_of t i = map_option docString (t i)"

definition ids_ok :: "table \<Rightarrow> bool" where
  "ids_ok t \<longleftrightarrow> (\<forall>i x. t i = Some x \<longrightarrow> Id x = i)"

lemma ids_okD: "ids_ok t \<Longrightarrow> t i = Some x \<Longrightarrow> Id x = i"
  by (simp add: ids_ok_def)

lemma digest_put_row [simp]: "digest_of (put_row d t) = digest_of t"
  by (auto simp: fun_eq_iff digest_of_def put_row_def Let_def zero_doc_def split: option.splits)

lemma digest_sign_row [simp]: "digest_of (sign_row i sg t) = digest_of t"
  by (auto simp: fun_eq_iff digest_of_def sign_row_def Let_def zero_doc_def split: option.splits)

lemma digest_fold_put_row [simp]: "digest_of (fold put_row ds t) = digest_of t"
  by (induction ds arbitrary: t) simp_all

lemma digest_prove_row: "digest_of (prove_row now dg tx j t) i = (if i = j then dg else digest_of t i)"
  by (simp add: digest_of_def prove_row_def Let_def)

lemma digest_fold_prove_row:
  "digest_of (fold (prove_row now dg tx) ids t) i = (if i \<in> set ids then dg else digest_of t i)"
  by (induction ids arbitrary: t) (simp_all add: digest_prove_row)

lemma string_put_row: "string_of (put_row d t) (Id d) = Some (docString d)"
  by (simp add: string_of_def put_row_def Let_def docString_def)

lemma string_put_row_other: "i \<noteq> Id d \<Longrightarrow> string_of (put_row d t) i = string_of t i"
  by (simp add: string_of_def put_row_def Let_def)

lemma string_fold_put_row_other: "i \<notin> Id ` set ds \<Longrightarrow> string_of (fold put_row ds t) i = string_of t i"
  by (simp add: string_of_def fold_put_row_other)

lemma string_fold_put_row:
  "agree ds \<Longrightarrow> d \<in> set ds \<Longrightarrow> string_of (fold put_row ds t) (Id d) = Some (docString d)"
proof (induction ds arbitrary: t)
  case (Cons e ds)
  show ?case
  proof (cases "Id d \<in> Id ` set ds")
    case True
    then obtain d' where d': "d' \<in> set ds" "Id d' = Id d" by auto
    have "d' = d"
      using inj_onD [OF Cons.prems(1) [unfolded agree_def] d'(2)] d'(1) Cons.prems(2) by simp
    with d'(1) have "d \<in> set ds" by simp
    then show ?thesis using Cons.IH [OF agree_Cons [OF Cons.prems(1)]] by simp
  next
    case False
    then have "d = e" using Cons.prems(2) by auto
    then show ?thesis using string_fold_put_row_other [OF False] by (simp add: string_put_row)
  qed
qed simp

lemma ids_ok_row [simp]: "ids_ok t \<Longrightarrow> Id x = i \<Longrightarrow> ids_ok (t(i \<mapsto> x))"
  by (simp add: ids_ok_def)

lemma ids_ok_prove [simp]: "ids_ok t \<Longrightarrow> ids_ok (prove_row now dg tx i t)"
  by (simp add: prove_row_def Let_def)

lemma string_prove_row:
  "ids_ok t \<Longrightarrow> string_of t i = Some s \<Longrightarrow> string_of (prove_row now dg tx j t) i = Some s"
  by (auto simp: string_of_def prove_row_def docString_def Let_def dest: ids_okD)

lemma string_fold_prove_row:
  "ids_ok t \<Longrightarrow> string_of t i = Some s \<Longrightarrow> string_of (fold (prove_row now dg tx) ids t) i = Some s"
  by (induction ids arbitrary: t) (simp_all add: string_prove_row)

lemma string_sign_row:
  "ids_ok t \<Longrightarrow> string_of t i = Some s \<Longrightarrow> string_of (sign_row j sg t) i = Some s"
  by (auto simp: string_of_def sign_row_def docString_def dest: ids_okD)

text \<open>
  If exactly the documents \<open>docs\<close> carry a digest in a table, and with the strings of \<open>docs\<close>, then any
  enumeration of the rows with that digest is the same batch.
\<close>

lemma batch_strings:
  assumes "ids_ok t" and "distinct found" and "set found = {x \<in> ran t. BlockDigest x = dg}" and "dg \<noteq> []"
    and "distinct (map Id docs)" and "\<And>i. digest_of t i = dg \<longleftrightarrow> i \<in> Id ` set docs"
    and "\<And>d. d \<in> set docs \<Longrightarrow> string_of t (Id d) = Some (docString d)"
  shows "mset (map docString found) = mset (map docString docs)"
proof -
  define g where "g i = the (string_of t i)" for i
  have member: "f \<in> set found \<longleftrightarrow> t (Id f) = Some f \<and> BlockDigest f = dg" for f
    using assms(1,3) by (auto simp: ids_ok_def ran_def)
  have "inj_on Id (set found)"
    using member by (intro inj_onI) (metis option.inject)
  then have "distinct (map Id found)" using assms(2) by (simp add: distinct_map)
  moreover have "set (map Id found) = set (map Id docs)"
  proof (intro set_eqI)
    fix i
    have "i \<in> set (map Id found) \<longleftrightarrow> (\<exists>f. t i = Some f \<and> BlockDigest f = dg)"
      using member ids_okD [OF assms(1)] by (auto simp: image_iff)
    also have "\<dots> \<longleftrightarrow> digest_of t i = dg"
      using assms(4) by (auto simp: digest_of_def split: option.splits)
    finally show "i \<in> set (map Id found) \<longleftrightarrow> i \<in> set (map Id docs)" using assms(6) by simp
  qed
  ultimately have "mset (map Id found) = mset (map Id docs)"
    using assms(5) by (metis set_eq_iff_mset_eq_distinct)
  moreover have "map docString found = map g (map Id found)"
    using member by (auto simp: g_def string_of_def)
  moreover have "map docString docs = map g (map Id docs)"
    using assms(7) by (simp add: g_def)
  ultimately show ?thesis by (metis mset_map)
qed

context persist_contract
begin

lemma docs_ids_ok: "ids_ok (docs_of p)"
  using table_ids by (simp add: ids_ok_def)

text \<open>
  After a proof was recorded for the stored documents \<open>docs\<close> under a digest no other document has,
  a search for the digest finds exactly them, with the strings they were registered with.
\<close>

lemma found_batch:
  assumes "SetDocsBlockDigest P now (map Id docs) dg tx p = (p', None)" and "distinct (map Id docs)"
    and "\<And>d. d \<in> set docs \<Longrightarrow> \<exists>e. docs_of p (Id d) = Some e \<and> docString e = docString d"
    and "\<And>e. e \<in> ran (docs_of p) \<Longrightarrow> BlockDigest e = dg \<Longrightarrow> Id e \<in> Id ` set docs" and "dg \<noteq> []"
    and "FindDocsByBlockDigest P dg p' = Inr found"
  shows "mset (map docString found) = mset (map docString docs)"
proof (rule batch_strings [OF docs_ids_ok, where dg = dg])
  have t: "docs_of p' = fold (prove_row now dg tx) (map Id docs) (docs_of p)"
    using prove_ok [OF assms(1,2)] .
  show "distinct found" "set found = {x \<in> ran (docs_of p'). BlockDigest x = dg}"
    using by_digest [OF assms(6)] by auto
  show "digest_of (docs_of p') i = dg \<longleftrightarrow> i \<in> Id ` set docs" for i
  proof -
    have "digest_of (docs_of p) i = dg \<Longrightarrow> i \<in> Id ` set docs"
      using assms(4) [OF ranI] assms(5) table_ids by (fastforce simp: digest_of_def split: option.splits)
    then show ?thesis by (auto simp: t digest_fold_prove_row)
  qed
  show "string_of (docs_of p') (Id d) = Some (docString d)" if "d \<in> set docs" for d
    unfolding t using assms(3) [OF that]
    by (intro string_fold_prove_row [OF docs_ids_ok]) (auto simp: string_of_def)
qed (fact assms)+

end

section \<open>Properties of the batch digest\<close>

text \<open>
  C12. The digest of a batch does not depend on the order of the documents, and two non-empty
  batches have the same digest exactly when they hold the same strings the same number of
  times, as long as SHA-256 does not collide on the inputs hashed for them. So a changed,
  dropped, added or duplicated string of a document changes the digest.
\<close>

theorem formatDocs_detects:
  assumes "\<And>x. length (sha x) = L" and "inj_on sha (batch_inputs sha a \<union> batch_inputs sha b)"
    and "a \<noteq> []" and "b \<noteq> []"
  shows "formatDocs sha a = formatDocs sha b \<longleftrightarrow> mset (map docString a) = mset (map docString b)"
  using assms by (rule formatDocs_binding)

abbreviation doc_with :: "string \<Rightarrow> i64 \<Rightarrow> i64 \<Rightarrow> string \<Rightarrow> document" where
  "doc_with i st wd md \<equiv> zero_doc\<lparr>Id := i, SubmitTime := st, WaitDuration := wd, Metadata := md\<rparr>"

theorem formatDocs_detects_witness:
  "formatDocs (\<lambda>x. take 4 (drop 2 x @ ''....'')) [doc_with ''a'' 5 6 ''m''] \<noteq>
   formatDocs (\<lambda>x. take 4 (drop 2 x @ ''....'')) [doc_with ''a'' 5 6 ''n'']"
proof -
  have d: "docString (doc_with ''a'' 5 6 ''m'') = ''a56m''" "docString (doc_with ''a'' 5 6 ''n'') = ''a56n''"
    by code_simp+
  show ?thesis
    by (subst formatDocs_detects [where L = 4])
       (simp_all add: d batch_inputs_def mth_inputs.simps)
qed

text \<open>
  C39. The strings themselves are ambiguous: the two times and the metadata are printed next to
  each other without separators, so digits can move from one to the next. A document and its
  altered copy (another time of submission, another waiting period, other metadata) then have
  the same digest for every hash function, and the verification of a batch accepts the copy.
\<close>

theorem formatDocs_ambiguous:
  "\<exists>d e. Id d = Id e \<and> SubmitTime d \<noteq> SubmitTime e \<and> WaitDuration d \<noteq> WaitDuration e \<and> Metadata d \<noteq> Metadata e
     \<and> (\<forall>sha rest. formatDocs sha (d # rest) = formatDocs sha (e # rest))"
proof (intro exI conjI allI)
  let ?d = "doc_with ''id'' 1480000000000000001 60000000000 ''7 lines''"
    and ?e = "doc_with ''id'' 148000000000000000 1600000000007 '' lines''"
  have "docString ?d = docString ?e"
    by (simp add: docString_def dec_def dec_pos.simps decdigit_def digit_chars_def)
  then show "formatDocs sha (?d # rest) = formatDocs sha (?e # rest)" for sha rest
    by (intro formatDocs_mset_docString) simp
qed (simp_all add: zero_doc_def)

end
