(* ===== verification/Cache.thy ===== *)
theory Cache
  imports Protos Utils
begin

text \<open>
  The interface of package \<open>cache\<close> (\<open>CacheInterface\<close> in \<open>cache/cache.go\<close>), as the contract its
  two clients, the API server and the two consumers (\<open>blockchain\<close> and \<open>persister\<close>), rely on.
  A document waiting for a consumer on a topic is \<open>pending\<close> for it. \<open>cache_contract\<close> says what
  every implementation promises; \<open>fanout_cache\<close> adds that consumers do not take documents
  from each other. \<open>choice_ok\<close> describes the values the runtime may choose during a call (the
  iteration order of a Go map).
\<close>

text \<open>The document both caches build in \<open>Put\<close>.\<close>

definition new_doc :: "digests \<Rightarrow> gotime \<Rightarrow> string \<Rightarrow> bytes \<Rightarrow> string \<Rightarrow> i64 \<Rightarrow> document" where
  "new_doc D now appName raw metadata waitDuration =
     zero_doc\<lparr>Id := DocumentID D raw now, Hash := DocumentHash D raw, SubmitTime := UnixNano now,
              WaitDuration := waitDuration, Metadata := metadata, AppName := appName\<rparr>"

locale cache_contract =
  fixes D :: digests
    and put :: "gotime \<Rightarrow> string \<Rightarrow> bytes \<Rightarrow> string \<Rightarrow> i64 \<Rightarrow> 'c \<Rightarrow> 'c \<times> (err + document) outcome"
    and get :: "'o \<Rightarrow> string \<Rightarrow> string \<Rightarrow> i64 \<Rightarrow> 'c \<Rightarrow> 'c \<times> (err + document list) outcome"
    and pending :: "'c \<Rightarrow> string \<Rightarrow> string \<Rightarrow> document multiset"
    and choice_ok :: "'o \<Rightarrow> 'c \<Rightarrow> string \<Rightarrow> bool"
    and inv :: "'c \<Rightarrow> bool"
  assumes put_doc: "put now app raw meta w c = (c', Ret (Inr d)) \<Longrightarrow> d = new_doc D now app raw meta w"
    and put_inv: "inv c \<Longrightarrow> inv (fst (put now app raw meta w c))"
    and get_inv: "inv c \<Longrightarrow> choice_ok x c tp \<Longrightarrow> inv (fst (get x cu tp n c))"
    and get_takes: "inv c \<Longrightarrow> choice_ok x c tp \<Longrightarrow> get x cu tp n c = (c', Ret (Inr ds)) \<Longrightarrow>
        mset ds \<subseteq># pending c cu tp \<and> pending c' cu tp = pending c cu tp - mset ds"
    and get_count: "inv c \<Longrightarrow> choice_ok x c tp \<Longrightarrow> get x cu tp n c = (c', Ret (Inr ds)) \<Longrightarrow>
        length ds = min (nat (sint n)) (size (pending c cu tp))"
begin

lemma get_bounded:
  "inv c \<Longrightarrow> choice_ok x c tp \<Longrightarrow> get x cu tp n c = (c', Ret (Inr ds)) \<Longrightarrow> length ds \<le> nat (sint n)"
  using get_count by simp

text \<open>Two successive calls hand out disjoint parts of what was pending.\<close>

lemma get_get_disjoint:
  assumes "inv c" and "choice_ok x c tp" and "get x cu tp n c = (c1, Ret (Inr ds))"
    and "choice_ok y c1 tp" and "get y cu tp k c1 = (c2, Ret (Inr es))"
  shows "mset ds + mset es \<subseteq># pending c cu tp"
proof -
  have "inv c1" using get_inv [OF assms(1,2), of cu n] assms(3) by simp
  then have "mset es \<subseteq># pending c cu tp - mset ds"
    using get_takes [OF _ assms(4,5)] get_takes [OF assms(1-3)] by simp
  moreover have "mset ds \<subseteq># pending c cu tp"
    using get_takes [OF assms(1-3)] by simp
  ultimately show ?thesis
    by (simp add: subset_mset.le_diff_conv2 add.commute)
qed

text \<open>A call with room for everything leaves nothing pending.\<close>

lemma get_all:
  assumes "inv c" and "choice_ok x c tp" and "get x cu tp n c = (c', Ret (Inr ds))"
    and "size (pending c cu tp) \<le> nat (sint n)"
  shows "mset ds = pending c cu tp"
proof -
  have "size (mset ds) = size (pending c cu tp)"
    using get_count [OF assms(1-3)] assms(4) by simp
  then show ?thesis
    using get_takes [OF assms(1-3)] mset_subset_size [of "mset ds" "pending c cu tp"]
    by (auto simp: subset_mset.le_less)
qed

end

locale fanout_cache = cache_contract +
  assumes get_other: "inv c \<Longrightarrow> choice_ok x c tp \<Longrightarrow> get x cu tp n c = (c', Ret (Inr ds)) \<Longrightarrow>
        cu' \<noteq> cu \<Longrightarrow> pending c' cu' t = pending c cu' t"
begin

text \<open>
  What one consumer takes is still there for the other: both see every document pending for
  both, which is what the registration of a proof and the storage of the document need.
\<close>

lemma both_consumers:
  assumes "inv c" and "choice_ok x c tp" and "get x cu tp n c = (c1, Ret (Inr ds))"
    and "choice_ok y c1 tp" and "get y cu' tp k c1 = (c2, Ret (Inr es))" and "cu' \<noteq> cu"
    and "size (pending c cu' tp) \<le> nat (sint k)"
  shows "mset es = pending c cu' tp"
proof -
  have "inv c1" using get_inv [OF assms(1,2), of cu n] assms(3) by simp
  moreover have "pending c1 cu' tp = pending c cu' tp"
    by (rule get_other [OF assms(1-3,6)])
  ultimately show ?thesis using get_all [OF _ assms(4,5)] assms(7) by simp
qed

end

end
