(* ===== verification/Blockchain.thy ===== *)
theory Blockchain
  imports Chaincode Cache
begin

text \<open>
  The blockchain handler, \<open>blockchain/blockchain.go\<close>: construction from the configuration,
  verification and registration of a batch of documents, and one tick of the loop that
  registers what the cache holds for a period.
\<close>

section \<open>Construction\<close>

text \<open>
  \<open>len(strings.TrimSpace(s)) == 0\<close>: the string is a sequence of the runes of \<open>unicode.IsSpace\<close>,
  here by their UTF-8 encodings.
\<close>

definition space_runes :: "string list" where
  "space_runes = [[CHR 0x09], [CHR 0x0A], [CHR 0x0B], [CHR 0x0C], [CHR 0x0D], [CHR 0x20],
     [CHR 0xC2, CHR 0x85], [CHR 0xC2, CHR 0xA0], [CHR 0xE1, CHR 0x9A, CHR 0x80]]
     @ map (\<lambda>b. [CHR 0xE2, CHR 0x80, b])
         [CHR 0x80, CHR 0x81, CHR 0x82, CHR 0x83, CHR 0x84, CHR 0x85, CHR 0x86, CHR 0x87, CHR 0x88,
          CHR 0x89, CHR 0x8A, CHR 0xA8, CHR 0xA9, CHR 0xAF]
     @ [[CHR 0xE2, CHR 0x81, CHR 0x9F], [CHR 0xE3, CHR 0x80, CHR 0x80]]"

definition drop_rune :: "string \<Rightarrow> string option" where
  "drop_rune s = (case filter (\<lambda>r. take (length r) s = r) space_runes of
       [] \<Rightarrow> None | r # rs \<Rightarrow> Some (drop (length r) s))"

fun blank_fuel :: "nat \<Rightarrow> string \<Rightarrow> bool" where
  "blank_fuel n [] = True"
| "blank_fuel 0 s = False"
| "blank_fuel (Suc n) s = (case drop_rune s of None \<Rightarrow> False | Some s' \<Rightarrow> blank_fuel n s')"

definition blank :: "string \<Rightarrow> bool" where
  "blank s = blank_fuel (length s) s"

definition NewBlockchain :: "viper \<Rightarrow> err + Blockchain" where
  "NewBlockchain V =
     (let ccid = GetString V ''blockchain.chainCodeId''; pth = GetString V ''blockchain.path'';
          ctx = GetString V ''blockchain.secureCtx''; prs = GetStringSlice V ''blockchain.peers'';
          bal0 = GetString V ''blockchain.balance''; bal = (if blank bal0 then ''round-robin'' else bal0);
          rt0 = GetDuration V ''blockchain.regTimeout'';
          rt = (if dur_String rt0 = ''0s'' then 3 else rt0);
          fo0 = GetInt V ''blockchain.failover''; fo = (if fo0 = 0 then 3 else fo0);
          evs = GetStringSlice V ''blockchain.events''
      in if blank ccid then Inl ''config item <blockchain.chainCodeId> can not be empty.''
         else if blank pth then Inl ''config item <blockchain.path> can not be empty.''
         else if blank ctx then Inl ''config item <blockchain.secureCtx> can not be empty.''
         else if prs = [] then Inl ''config item <blockchain.peers> can not be empty.''
         else if evs = [] then Inl ''config item <blockchain.events> can not be empty.''
         else Inr \<lparr>bc_name = ''blockchain'', chainCodeId = ccid, path = pth, secureCtx = ctx,
                balance = bal, peers = prs, peerBackend = build bal prs, events = evs,
                regTimeout = rt, failOver = fo, bc_items = Map.empty\<rparr>)"

section \<open>Verification and registration\<close>

record queryResult =
  qr_Key :: string
  qr_HashKey :: string
  qr_Exist :: bool

text \<open>
  \<open>decode\<close> is \<open>json.Unmarshal\<close> into \<open>map[string]*queryResult\<close>: a JSON null leaves a nil pointer in
  the map, and reading \<open>Exist\<close> through it panics.
\<close>

type_synonym query_decoder = "bytes \<Rightarrow> err + (string \<Rightarrow> queryResult option option)"

definition VerifyDocs :: "hashfn \<Rightarrow> ('w, 'k) fabric \<Rightarrow> query_decoder \<Rightarrow> document list \<Rightarrow> Blockchain \<Rightarrow> 'w
    \<Rightarrow> Blockchain \<times> 'w \<times> bool outcome" where
  "VerifyDocs sha F decode docs bc w =
     (let formatedDocs = formatDocs sha docs
      in if formatedDocs = [] then (bc, w, Ret False)
         else case execute F ''query'' ''existence'' [''base'', formatedDocs] bc w of
                (bc', w', Panic e) \<Rightarrow> (bc', w', Panic e)
              | (bc', w', Fatal e) \<Rightarrow> (bc', w', Fatal e)
              | (bc', w', Ret (Inl e)) \<Rightarrow> (bc', w', Ret False)
              | (bc', w', Ret (Inr data)) \<Rightarrow>
                  (case decode data of
                     Inl e \<Rightarrow> (bc', w', Ret False)
                   | Inr results \<Rightarrow>
                       (case results formatedDocs of
                          Some (Some r) \<Rightarrow> (bc', w', Ret (qr_Exist r))
                        | Some None \<Rightarrow> (bc', w', Panic ''nil pointer dereference'')
                        | None \<Rightarrow> (bc', w', Ret False))))"

definition RegisterProof :: "hashfn \<Rightarrow> ('w, 'k) fabric \<Rightarrow> document list \<Rightarrow> Blockchain \<Rightarrow> 'w
    \<Rightarrow> Blockchain \<times> 'w \<times> unit outcome" where
  "RegisterProof sha F docs bc w =
     (let formatedDocs = formatDocs sha docs
      in if formatedDocs = [] then (bc, w, Ret ())
         else case execute F ''invoke'' ''register'' [''base'', formatedDocs] bc w of
                (bc', w', Panic e) \<Rightarrow> (bc', w', Panic e)
              | (bc', w', Fatal e) \<Rightarrow> (bc', w', Fatal e)
              | (bc', w', Ret (Inl e)) \<Rightarrow> (bc', w', Ret ())
              | (bc', w', Ret (Inr data)) \<Rightarrow>
                  (case items_Set data (DocSlice docs) (bc_items bc') of
                     (its, Ret b) \<Rightarrow> (bc'\<lparr>bc_items := its\<rparr>, w', Ret ())
                   | (its, Panic e) \<Rightarrow> (bc'\<lparr>bc_items := its\<rparr>, w', Panic e)
                   | (its, Fatal e) \<Rightarrow> (bc'\<lparr>bc_items := its\<rparr>, w', Fatal e)))"

text \<open>
  The two moments of \<open>RegisterProof\<close> at which other goroutines can come in between: the invocation,
  and recording the documents under the transaction it returned.
\<close>

definition register_invoke_shared :: "hashfn \<Rightarrow> ('w, 'k) fabric \<Rightarrow> (nat \<Rightarrow> nat) \<Rightarrow> document list \<Rightarrow> Blockchain \<Rightarrow> 'w
    \<Rightarrow> Blockchain \<times> 'w \<times> string option outcome" where
  "register_invoke_shared sha F turns docs bc w =
     (let formatedDocs = formatDocs sha docs
      in if formatedDocs = [] then (bc, w, Ret None)
         else case execute_shared F turns ''invoke'' ''register'' [''base'', formatedDocs] bc w of
                (bc', w', Panic e) \<Rightarrow> (bc', w', Panic e)
              | (bc', w', Fatal e) \<Rightarrow> (bc', w', Fatal e)
              | (bc', w', Ret (Inl e)) \<Rightarrow> (bc', w', Ret None)
              | (bc', w', Ret (Inr data)) \<Rightarrow> (bc', w', Ret (Some data)))"

definition register_invoke :: "hashfn \<Rightarrow> ('w, 'k) fabric \<Rightarrow> document list \<Rightarrow> Blockchain \<Rightarrow> 'w
    \<Rightarrow> Blockchain \<times> 'w \<times> string option outcome" where
  "register_invoke sha F = register_invoke_shared sha F (\<lambda>_. 0)"

lemma register_invoke_eq:
  "register_invoke sha F docs bc w =
     (let formatedDocs = formatDocs sha docs
      in if formatedDocs = [] then (bc, w, Ret None)
         else case execute F ''invoke'' ''register'' [''base'', formatedDocs] bc w of
                (bc', w', Panic e) \<Rightarrow> (bc', w', Panic e)
              | (bc', w', Fatal e) \<Rightarrow> (bc', w', Fatal e)
              | (bc', w', Ret (Inl e)) \<Rightarrow> (bc', w', Ret None)
              | (bc', w', Ret (Inr data)) \<Rightarrow> (bc', w', Ret (Some data)))"
  unfolding register_invoke_def register_invoke_shared_def execute_def ..

definition register_record :: "string \<Rightarrow> document list \<Rightarrow> Blockchain \<Rightarrow> Blockchain \<times> bool outcome" where
  "register_record txid docs bc =
     (case items_Set txid (DocSlice docs) (bc_items bc) of (its, r) \<Rightarrow> (bc\<lparr>bc_items := its\<rparr>, r))"

lemma RegisterProof_moments:
  "RegisterProof sha F docs bc w =
     (case register_invoke sha F docs bc w of
        (bc', w', Panic e) \<Rightarrow> (bc', w', Panic e)
      | (bc', w', Fatal e) \<Rightarrow> (bc', w', Fatal e)
      | (bc', w', Ret None) \<Rightarrow> (bc', w', Ret ())
      | (bc', w', Ret (Some txid)) \<Rightarrow>
          (case register_record txid docs bc' of
             (bc'', Ret b) \<Rightarrow> (bc'', w', Ret ())
           | (bc'', Panic e) \<Rightarrow> (bc'', w', Panic e)
           | (bc'', Fatal e) \<Rightarrow> (bc'', w', Fatal e)))"
  by (auto simp: RegisterProof_def register_invoke_eq register_record_def Let_def
      split: prod.splits outcome.splits sum.splits)

section \<open>The registration loop\<close>

text \<open>
  \<open>getDocsFromCache\<close> and one tick of the goroutine of a period, for a cache given by its \<open>Get\<close> and
  \<open>Topic\<close>. An error of the cache gives nil, which registers nothing.
\<close>

definition getDocsFromCache ::
    "('o \<Rightarrow> string \<Rightarrow> string \<Rightarrow> i64 \<Rightarrow> 'c \<Rightarrow> 'c \<times> (err + document list) outcome) \<Rightarrow> (i64 \<Rightarrow> string)
       \<Rightarrow> 'o \<Rightarrow> Blockchain \<Rightarrow> PeriodLimit \<Rightarrow> 'c \<Rightarrow> 'c \<times> document list outcome" where
  "getDocsFromCache get topicf x bc period c =
     (case get x (bc_name bc) (topicf (Period period)) (Limit period) c of
        (c', Ret (Inr docs)) \<Rightarrow> (c', Ret docs)
      | (c', Ret (Inl e)) \<Rightarrow> (c', Ret [])
      | (c', Panic e) \<Rightarrow> (c', Panic e)
      | (c', Fatal e) \<Rightarrow> (c', Fatal e))"

definition proof_tick ::
    "hashfn \<Rightarrow> ('w, 'k) fabric
       \<Rightarrow> ('o \<Rightarrow> string \<Rightarrow> string \<Rightarrow> i64 \<Rightarrow> 'c \<Rightarrow> 'c \<times> (err + document list) outcome) \<Rightarrow> (i64 \<Rightarrow> string)
       \<Rightarrow> 'o \<Rightarrow> PeriodLimit \<Rightarrow> Blockchain \<Rightarrow> 'c \<Rightarrow> 'w \<Rightarrow> Blockchain \<times> 'c \<times> 'w \<times> unit outcome" where
  "proof_tick sha F get topicf x period bc c w =
     (case getDocsFromCache get topicf x bc period c of
        (c', Ret docs) \<Rightarrow> (case RegisterProof sha F docs bc w of (bc', w', r) \<Rightarrow> (bc', c', w', r))
      | (c', Panic e) \<Rightarrow> (bc, c', w, Panic e)
      | (c', Fatal e) \<Rightarrow> (bc, c', w, Fatal e))"

section \<open>Verification against an honest chain\<close>

text \<open>
  What the client relies on, over the roots \<open>reg w\<close> registered on the chain in a world \<open>w\<close>: reading,
  dialing and closing do not change them, an invocation only adds to them, every peer answers
  an existence query, the answer decodes, and it says that a root exists exactly when it is
  registered at that moment.
\<close>

definition honest_chain :: "('w, 'k) fabric \<Rightarrow> query_decoder \<Rightarrow> ('w \<Rightarrow> string set) \<Rightarrow> bool" where
  "honest_chain F decode reg \<longleftrightarrow>
     (\<forall>a w. reg (fst (Dial F a w)) = reg w) \<and> (\<forall>k w. reg (CloseConn F k w) = reg w) \<and>
     (\<forall>k spec w. reg (fst (Query F k spec w)) = reg w) \<and>
     (\<forall>k spec w. reg w \<subseteq> reg (fst (Invoke F k spec w))) \<and>
     (\<forall>k spec root w. spec_Args spec = [''existence'', ''base'', root] \<longrightarrow>
        (\<exists>resp results. snd (Query F k spec w) = (Some resp, None) \<and> decode (resp_Msg resp) = Inr results \<and>
           (case results root of None \<Rightarrow> root \<notin> reg w | Some None \<Rightarrow> False
            | Some (Some q) \<Rightarrow> qr_Exist q = (root \<in> reg w))))"

lemma honest_frames:
  assumes "honest_chain F decode reg"
  shows "reg (fst (Dial F a w)) = reg w" and "reg (CloseConn F k w) = reg w"
    and "reg (fst (Query F k spec w)) = reg w" and "reg w \<subseteq> reg (fst (Invoke F k spec w))"
  using assms unfolding honest_chain_def by blast+

definition peer_available :: "('w, 'k) fabric \<Rightarrow> Blockchain \<Rightarrow> bool" where
  "peer_available F bc \<longleftrightarrow> rr_inv (peerBackend bc) \<and> 0 < sint (failOver bc) \<and>
     (\<exists>b \<in> set (rr_elems (peerBackend bc)). dialable F b)"

lemma VerifyDocs_answer:
  assumes "honest_chain F decode reg" and "peer_available F bc" and "formatDocs sha docs \<noteq> []"
  shows "\<exists>bc' w'. VerifyDocs sha F decode docs bc w = (bc', w', Ret (formatDocs sha docs \<in> reg w))"
proof -
  let ?root = "formatDocs sha docs"
  obtain b where b: "b \<in> set (rr_elems (peerBackend bc))" "dialable F b"
    and rr: "rr_inv (peerBackend bc)" "0 < sint (failOver bc)"
    using assms(2) by (auto simp: peer_available_def)
  obtain bc' k w1 w2 re where ex: "execute F ''query'' ''existence'' [''base'', ?root] bc w
        = (bc', CloseConn F k w2, Ret (reply_of re))"
    and q: "(w2, re) = Query F k (toSpec bc ''existence'' [''base'', ?root]) w1"
    and w1: "\<And>obs :: _ \<Rightarrow> string set. (\<And>a w. obs (fst (Dial F a w)) = obs w) \<Longrightarrow> obs w1 = obs w"
    by (rule execute_reply [OF rr(1) b rr(2), of "''query''" "''existence''" "[''base'', ?root]" w])
       (rule that, assumption, simp, blast)
  have reg: "reg w1 = reg w" by (rule w1) (rule honest_frames(1) [OF assms(1)])
  have "spec_Args (toSpec bc ''existence'' [''base'', ?root]) = [''existence'', ''base'', ?root]"
    by (simp add: toSpec_def)
  then obtain resp results where "snd (w2, re) = (Some resp, None)" "decode (resp_Msg resp) = Inr results"
    and "case results ?root of None \<Rightarrow> ?root \<notin> reg w1 | Some None \<Rightarrow> False
         | Some (Some q) \<Rightarrow> qr_Exist q = (?root \<in> reg w1)"
    using assms(1) unfolding honest_chain_def q by blast
  then show ?thesis
    using assms(3) by (auto simp: VerifyDocs_def Let_def ex reply_of_def reg split: option.splits)
qed

section \<open>Registration\<close>

lemma RegisterProof_answer:
  assumes "\<And>k w. \<exists>w'. Invoke F k (toSpec bc ''register'' [''base'', formatDocs sha docs]) w
              = (w', Some \<lparr>resp_Status = st, resp_Msg = txid\<rparr>, None)"
    and "peer_available F bc" and "formatDocs sha docs \<noteq> []"
  shows "\<exists>bc' w' rr. bc' = bc\<lparr>peerBackend := rr\<rparr> \<and> RegisterProof sha F docs bc w =
     (case items_Set txid (DocSlice docs) (bc_items bc) of (its, Ret b) \<Rightarrow> (bc'\<lparr>bc_items := its\<rparr>, w', Ret ())
        | (its, Panic e) \<Rightarrow> (bc'\<lparr>bc_items := its\<rparr>, w', Panic e) | (its, Fatal e) \<Rightarrow> (bc'\<lparr>bc_items := its\<rparr>, w', Fatal e))"
proof -
  let ?args = "[''base'', formatDocs sha docs]"
  obtain b where b: "b \<in> set (rr_elems (peerBackend bc))" "dialable F b"
    and rr: "rr_inv (peerBackend bc)" "0 < sint (failOver bc)"
    using assms(2) by (auto simp: peer_available_def)
  obtain bc' k w1 w2 re where ex: "execute F ''invoke'' ''register'' ?args bc w
        = (bc', CloseConn F k w2, Ret (reply_of re))"
    and i: "(w2, re) = Invoke F k (toSpec bc ''register'' ?args) w1"
    and bc': "\<exists>rr. bc' = bc\<lparr>peerBackend := rr\<rparr> \<and> mset rr = mset (peerBackend bc)"
    by (rule execute_reply [OF rr(1) b rr(2), of "''invoke''" "''register''" ?args w]) auto
  have "re = (Some \<lparr>resp_Status = st, resp_Msg = txid\<rparr>, None)"
    using assms(1) [of k w1] i by auto
  with bc' show ?thesis
    using assms(3) by (auto simp: RegisterProof_def Let_def ex reply_of_def split: prod.splits outcome.splits)
qed

section \<open>Properties\<close>

text \<open>
  C10. Verification is exact: with one peer that can be reached and an honest chain on which exactly
  the roots of the batches \<open>B\<close> are registered at the time of the call, \<open>VerifyDocs\<close> returns true exactly when the documents
  carry the same strings as one of these batches, in whatever order. So a batch from which a
  document was dropped, or in which a string was changed, is rejected, and an untouched one
  is accepted.
\<close>

theorem VerifyDocs_exact:
  assumes "honest_chain F decode reg" and "reg w = formatDocs sha ` B" and "peer_available F bc"
    and "docs \<noteq> []" and "[] \<notin> B" and "\<And>x. length (sha x) = Suc L"
    and "inj_on sha (\<Union>b \<in> insert docs B. batch_inputs sha b)"
  shows "\<exists>bc' w'. VerifyDocs sha F decode docs bc w =
     (bc', w', Ret (\<exists>b \<in> B. mset (map docString b) = mset (map docString docs)))"
proof -
  have "sha x \<noteq> []" for x using assms(6) [of x] by auto
  then have "formatDocs sha docs \<noteq> []" by (rule formatDocs_nonempty [OF assms(4)])
  moreover have "formatDocs sha docs \<in> formatDocs sha ` B
      \<longleftrightarrow> (\<exists>b \<in> B. mset (map docString b) = mset (map docString docs))"
  proof -
    have "formatDocs sha docs = formatDocs sha b \<longleftrightarrow> mset (map docString docs) = mset (map docString b)"
      if "b \<in> B" for b
    proof (rule formatDocs_binding [OF assms(6) _ assms(4)])
      show "inj_on sha (batch_inputs sha docs \<union> batch_inputs sha b)"
        by (rule inj_on_subset [OF assms(7)]) (use that in auto)
      show "b \<noteq> []" using that assms(5) by auto
    qed
    then show ?thesis by (auto simp: image_iff eq_commute)
  qed
  ultimately show ?thesis
    using VerifyDocs_answer [OF assms(1,3), of sha docs w] assms(2) by auto
qed

text \<open>A peer that answers every query, for the examples: its reply is the root it was asked for.\<close>

definition toy_sha :: hashfn where
  "toy_sha x = take 4 (drop 2 x @ ''....'')"

definition toy_fabric :: "(unit, unit) fabric" where
  "toy_fabric = \<lparr>Dial = (\<lambda>a w. (w, Some ())), CloseConn = (\<lambda>k w. w),
     Invoke = (\<lambda>k sp w. (w, Some \<lparr>resp_Status = 200, resp_Msg = ''tx''\<rparr>, None)),
     Query = (\<lambda>k sp w. (w, Some \<lparr>resp_Status = 200, resp_Msg = spec_Args sp ! 2\<rparr>, None))\<rparr>"

definition toy_decode :: "string set \<Rightarrow> query_decoder" where
  "toy_decode R msg = Inr [msg \<mapsto> Some \<lparr>qr_Key = [], qr_HashKey = [], qr_Exist = (msg \<in> R)\<rparr>]"

definition toy_bc :: Blockchain where
  "toy_bc = \<lparr>bc_name = ''blockchain'', chainCodeId = ''cc'', path = ''p'', secureCtx = ''jim'',
     balance = ''round-robin'', peers = [''h''], peerBackend = [Some ''h''], events = [''h''],
     regTimeout = 3, failOver = 3, bc_items = Map.empty\<rparr>"

lemma toy_chain: "honest_chain toy_fabric (toy_decode R) (\<lambda>_. R)" "peer_available toy_fabric toy_bc"
  by (auto simp: honest_chain_def toy_fabric_def toy_decode_def peer_available_def toy_bc_def rr_inv_def
      rr_elems_def dialable_def)

theorem VerifyDocs_exact_witness:
  "\<exists>bc' w'. VerifyDocs toy_sha toy_fabric (toy_decode (formatDocs toy_sha ` {[doc_with ''a'' 5 6 ''m'']}))
     [doc_with ''a'' 5 6 ''n''] toy_bc () = (bc', w', Ret False)"
proof -
  have d: "docString (doc_with ''a'' 5 6 ''m'') = ''a56m''" "docString (doc_with ''a'' 5 6 ''n'') = ''a56n''"
    by code_simp+
  have "\<exists>bc' w'. VerifyDocs toy_sha toy_fabric (toy_decode (formatDocs toy_sha ` {[doc_with ''a'' 5 6 ''m'']}))
     [doc_with ''a'' 5 6 ''n''] toy_bc () = (bc', w', Ret (\<exists>b \<in> {[doc_with ''a'' 5 6 ''m'']}.
        mset (map docString b) = mset (map docString [doc_with ''a'' 5 6 ''n''])))"
    by (rule VerifyDocs_exact [OF toy_chain(1) refl toy_chain(2), where L = 3])
       (simp_all add: d batch_inputs_def mth_inputs.simps toy_sha_def)
  then show ?thesis by (simp add: d)
qed

lemma execute_available:
  assumes "peer_available F bc" and "method \<in> {''invoke'', ''query''}"
  shows "\<exists>k w1 w2 re rr. execute F method func args bc w
       = (bc\<lparr>peerBackend := rr\<rparr>, CloseConn F k w2, Ret (reply_of re)) \<and>
     (if method = ''invoke'' then Invoke F else Query F) k (toSpec bc func args) w1 = (w2, re) \<and>
     mset rr = mset (peerBackend bc)"
proof -
  obtain b where b: "b \<in> set (rr_elems (peerBackend bc))" "dialable F b"
    and rr: "rr_inv (peerBackend bc)" "0 < sint (failOver bc)"
    using assms(1) by (auto simp: peer_available_def)
  obtain bc' k w1 w2 re where
    ex: "execute F method func args bc w = (bc', CloseConn F k w2, Ret (reply_of re))"
    and call: "(w2, re) = (if method = ''invoke'' then Invoke F k (toSpec bc func args) w1
                     else if method = ''query'' then Query F k (toSpec bc func args) w1
                     else (w1, None, None))"
    and bc': "\<exists>rr. bc' = bc\<lparr>peerBackend := rr\<rparr> \<and> mset rr = mset (peerBackend bc)"
    by (rule execute_reply [OF rr(1) b rr(2)])
  have "(if method = ''invoke'' then Invoke F else Query F) k (toSpec bc func args) w1 = (w2, re)"
    using call assms(2) by auto
  with ex bc' show ?thesis by blast
qed

text \<open>
  C22. Failover: as long as one peer of the ring accepts connections, an invocation or a query
  ends with the reply of a peer, never with a panic or for want of a connection, and afterwards
  the ring still holds the same hosts.
\<close>

theorem execute_failover:
  assumes "peer_available F bc" and "method \<in> {''invoke'', ''query''}"
  shows "\<exists>k w1 w2 re rr. execute F method func args bc w
       = (bc\<lparr>peerBackend := rr\<rparr>, CloseConn F k w2, Ret (reply_of re)) \<and>
     (if method = ''invoke'' then Invoke F else Query F) k (toSpec bc func args) w1 = (w2, re) \<and>
     mset rr = mset (peerBackend bc)"
  by (rule execute_available [OF assms])

text \<open>A fabric in which the first host refuses and the second one answers.\<close>

definition half_fabric :: "(unit, unit) fabric" where
  "half_fabric = toy_fabric\<lparr>Dial := (\<lambda>a w. (w, if a = ''up'' then Some () else None))\<rparr>"

theorem execute_failover_witness:
  "snd (snd (execute half_fabric ''query'' ''existence'' [''base'', ''root'']
       (toy_bc\<lparr>peerBackend := [Some ''down'', Some ''up'']\<rparr>) ())) = Ret (Inr ''root'')"
proof -
  have "peer_available half_fabric (toy_bc\<lparr>peerBackend := [Some ''down'', Some ''up'']\<rparr>)"
    by (auto simp: peer_available_def half_fabric_def toy_bc_def rr_inv_def rr_elems_def dialable_def)
  from execute_failover [OF this, of "''query''" "''existence''" "[''base'', ''root'']" "()"]
  show ?thesis by (auto simp: half_fabric_def toy_fabric_def reply_of_def toSpec_def)
qed

text \<open>
  A registration that the chain accepts is remembered under its transaction, so that the
  completion event can find the documents. If the chain answers with a transaction whose
  documents are still stored, the comparison of the two slices panics instead.
\<close>

theorem RegisterProof_records:
  assumes "\<And>k w. \<exists>w'. Invoke F k (toSpec bc ''register'' [''base'', formatDocs sha docs]) w
              = (w', Some \<lparr>resp_Status = st, resp_Msg = txid\<rparr>, None)"
    and "peer_available F bc" and "docs \<noteq> []" and "\<And>x. sha x \<noteq> []"
  shows "\<exists>bc' w' r. RegisterProof sha F docs bc w = (bc', w', r) \<and>
     (bc_items bc txid = None \<longrightarrow> r = Ret () \<and> bc_items bc' = (bc_items bc)(txid \<mapsto> DocSlice docs)) \<and>
     (\<forall>ds. bc_items bc txid = Some (DocSlice ds) \<longrightarrow> (\<exists>e. r = Panic e) \<and> bc_items bc' = bc_items bc)"
proof -
  obtain bc' w' rr where bc': "bc' = bc\<lparr>peerBackend := rr\<rparr>" and reg: "RegisterProof sha F docs bc w =
     (case items_Set txid (DocSlice docs) (bc_items bc) of (its, Ret b) \<Rightarrow> (bc'\<lparr>bc_items := its\<rparr>, w', Ret ())
        | (its, Panic e) \<Rightarrow> (bc'\<lparr>bc_items := its\<rparr>, w', Panic e) | (its, Fatal e) \<Rightarrow> (bc'\<lparr>bc_items := its\<rparr>, w', Fatal e))"
    using RegisterProof_answer [OF assms(1,2) formatDocs_nonempty [OF assms(3,4)], of w] by blast
  show ?thesis
  proof (cases "bc_items bc txid")
    case None
    then show ?thesis by (simp add: reg bc' items_Set_def)
  next
    case (Some v)
    then show ?thesis
      by (cases v) (auto simp: reg bc' items_Set_def)
  qed
qed

theorem RegisterProof_records_witness:
  "\<exists>bc' w'. RegisterProof toy_sha toy_fabric [zero_doc] toy_bc () = (bc', w', Ret ()) \<and>
     bc_items bc' = [''tx'' \<mapsto> DocSlice [zero_doc]]"
proof -
  have "\<exists>bc' w' r. RegisterProof toy_sha toy_fabric [zero_doc] toy_bc () = (bc', w', r) \<and>
     (bc_items toy_bc ''tx'' = None \<longrightarrow> r = Ret () \<and> bc_items bc' = (bc_items toy_bc)(''tx'' \<mapsto> DocSlice [zero_doc])) \<and>
     (\<forall>ds. bc_items toy_bc ''tx'' = Some (DocSlice ds) \<longrightarrow> (\<exists>e. r = Panic e) \<and> bc_items bc' = bc_items toy_bc)"
    by (rule RegisterProof_records [where st = 200, OF _ toy_chain(2)]) (simp_all add: toy_fabric_def toy_sha_def)
  then show ?thesis by (auto simp: toy_bc_def)
qed

text \<open>
  C30. A handler is only built from a complete configuration, and then its balancer rotates over
  exactly the configured peers, at least one dial is made for a positive setting, no transaction
  is pending, and the defaults are filled in. The default timeout is the number 3 of type
  \<open>time.Duration\<close>, which is three nanoseconds.
\<close>

theorem NewBlockchain_wf:
  assumes "NewBlockchain V = Inr bc"
  shows "\<not> blank (chainCodeId bc) \<and> \<not> blank (path bc) \<and> \<not> blank (secureCtx bc) \<and> events bc \<noteq> [] \<and>
     rr_inv (peerBackend bc) \<and> rr_elems (peerBackend bc) = GetStringSlice V ''blockchain.peers'' \<and>
     rr_elems (peerBackend bc) \<noteq> [] \<and> bc_items bc = Map.empty \<and> failOver bc \<noteq> 0 \<and>
     regTimeout bc = (if GetDuration V ''blockchain.regTimeout'' = 0 then 3
                      else GetDuration V ''blockchain.regTimeout'')"
  using assms by (auto simp: NewBlockchain_def Let_def dur_String_zero build_eq rr_inv_Some split: if_splits)

definition toy_viper :: viper where
  "toy_viper = \<lparr>GetString = (\<lambda>k. if k = ''blockchain.balance'' then [] else ''v''),
     GetStringSlice = (\<lambda>k. [''h1'', ''h2'']), GetDuration = (\<lambda>k. 0), GetInt = (\<lambda>k. 0),
     GetBool = (\<lambda>k. False)\<rparr>"

theorem NewBlockchain_wf_witness:
  "\<exists>bc. NewBlockchain toy_viper = Inr bc \<and> rr_elems (peerBackend bc) = [''h1'', ''h2''] \<and> regTimeout bc = 3"
proof -
  have "\<not> blank ''v''" by code_simp
  then obtain bc where bc: "NewBlockchain toy_viper = Inr bc"
    by (simp add: NewBlockchain_def toy_viper_def Let_def)
  from NewBlockchain_wf [OF this] bc show ?thesis by (auto simp: toy_viper_def)
qed


section \<open>Between the invocation and the record\<close>

lemma register_invoke_shared_items:
  "register_invoke_shared sha F turns docs bc w = (bc', w', r) \<Longrightarrow> bc_items bc' = bc_items bc"
  by (auto simp: register_invoke_shared_def Let_def dest!: execute_shared_items
      split: if_splits prod.splits outcome.splits sum.splits)

lemma register_invoke_items:
  "register_invoke sha F docs bc w = (bc', w', r) \<Longrightarrow> bc_items bc' = bc_items bc"
  unfolding register_invoke_def by (rule register_invoke_shared_items)

lemma invokeCompleted_other:
  "tx \<noteq> ev_TxID e \<Longrightarrow> bc_items (fst (invokeCompleted D um P now e bc p)) tx = bc_items bc tx"
  by (auto simp: invokeCompleted_def completed_defs split: option.splits iface.splits sum.splits)

text \<open>
  What happens to the pending items afterwards: events are handled, and batches are recorded under
  their transactions. \<open>moment_tx\<close> is the transaction concerned.
\<close>

datatype moment = Handle i64 ChaincodeEvent | Record string "document list"

fun moment_tx :: "moment \<Rightarrow> string" where
  "moment_tx (Handle now e) = ev_TxID e"
| "moment_tx (Record txid docs) = txid"

fun happen :: "digests \<Rightarrow> (bytes \<Rightarrow> err + (string \<Rightarrow> string option)) \<Rightarrow> 'p persister \<Rightarrow> moment
    \<Rightarrow> Blockchain \<times> 'p \<Rightarrow> Blockchain \<times> 'p" where
  "happen D um P (Handle now e) (bc, p) = (case invokeCompleted D um P now e bc p of (bc', p', er) \<Rightarrow> (bc', p'))"
| "happen D um P (Record txid docs) (bc, p) = (fst (register_record txid docs bc), p)"

lemma happen_other:
  "tx \<noteq> moment_tx m \<Longrightarrow> bc_items (fst (happen D um P m s)) tx = bc_items (fst s) tx"
proof (cases m)
  case (Handle now e)
  obtain bc p where s: "s = (bc, p)" by fastforce
  assume "tx \<noteq> moment_tx m"
  with Handle show ?thesis
    using invokeCompleted_other [of tx e D um P now bc p]
    by (cases "invokeCompleted D um P now e bc p") (simp add: s)
next
  case (Record txid docs)
  obtain bc p where s: "s = (bc, p)" by fastforce
  assume "tx \<noteq> moment_tx m"
  with Record show ?thesis
    by (auto simp: s register_record_def items_Set_def split: prod.splits option.splits outcome.splits bool.splits)
qed

lemma happens_other:
  "tx \<notin> moment_tx ` set ms \<Longrightarrow> bc_items (fst (fold (happen D um P) ms s)) tx = bc_items (fst s) tx"
  by (induction ms arbitrary: s) (simp_all add: happen_other)

text \<open>
  C35. An event that arrives after the chain has answered the invocation, but before the handler
  has recorded the documents under the transaction, is lost: it is refused, nothing is written
  to the database, and the record is made all the same. Whatever events and records of other
  transactions follow, in any order, the documents stay recorded; a further copy of the batch's own
  event, if there is one, still finds and removes them. (\<open>Close\<close> clears all items.)
\<close>

theorem early_completion_is_lost:
  assumes "register_invoke (sha256 D) F docs bc w = (bc1, w1, Ret (Some txid))" and "bc_items bc txid = None"
    and "ev_TxID e = txid" and "invokeCompleted D um P now e bc1 p = (bc2, p2, er)"
    and "register_record txid docs bc2 = (bc3, r)" and "txid \<notin> moment_tx ` set ms"
    and "fold (happen D um P) ms (bc3, p3) = (bc4, p4)"
  shows "er = Some ''not found stored documents'' \<and> p2 = p \<and> (\<exists>b. r = Ret b) \<and>
     bc_items bc3 = (bc_items bc)(txid \<mapsto> DocSlice docs) \<and> bc_items bc4 txid = Some (DocSlice docs) \<and>
     (\<forall>now' results h. um (ev_Payload e) = Inr results \<and> results (formatDocs (sha256 D) docs) = Some h \<longrightarrow>
        bc_items (fst (happen D um P (Handle now' e) (bc4, p4))) txid = None)"
proof -
  have none: "bc_items bc1 txid = None" using register_invoke_items [OF assms(1)] assms(2) by simp
  then have "er = Some ''not found stored documents''" "p2 = p" "bc2 = bc1"
    using assms(3,4) by (auto simp: invokeCompleted_missing)
  moreover from this have rec: "(\<exists>b. r = Ret b) \<and> bc_items bc3 = (bc_items bc)(txid \<mapsto> DocSlice docs)"
    using assms(5) none register_invoke_items [OF assms(1)] by (auto simp: register_record_def items_Set_def)
  moreover have kept: "bc_items bc4 txid = Some (DocSlice docs)"
    using happens_other [OF assms(6), of D um P "(bc3, p3)"] rec by (simp add: assms(7))
  moreover have "bc_items (fst (happen D um P (Handle now' e) (bc4, p4))) txid = None"
    if "um (ev_Payload e) = Inr results" "results (formatDocs (sha256 D) docs) = Some h" for now' results h
    using kept that assms(3) by (simp add: invokeCompleted_def completed_defs items_Get_def items_Delete_def Let_def)
  ultimately show ?thesis by blast
qed

definition tx_event :: ChaincodeEvent where
  "tx_event = \<lparr>ev_ChaincodeID = ''cc'', ev_EventName = ''invoke_completed'', ev_TxID = ''tx'', ev_Payload = ''{}''\<rparr>"

definition no_persister :: "unit persister" where
  "no_persister = \<lparr>PutDocsIntoDB = (\<lambda>ds p. (p, None)), GetDocFromDBByDocID = (\<lambda>i p. Inl ''not found''),
     SetDocsBlockDigest = (\<lambda>n is g t p. (p, None)), SetDocSignature = (\<lambda>i g p. (p, None)),
     FindDocsByBlockDigest = (\<lambda>g p. Inr []), FindDocsByHash = (\<lambda>h p. Inr []), FindDocs = (\<lambda>a st n p. Inr []),
     DocProofStat = (\<lambda>a b p. \<lparr>StartTime = 0, EndTime = 0, TotalDocs = 0, WaitDocs = 0, ProofedDocs = 0\<rparr>)\<rparr>"

theorem early_completion_is_lost_witness:
  "\<exists>bc1 w1 bc3 r. register_invoke (sha256 toy_digests) toy_fabric [zero_doc] toy_bc () = (bc1, w1, Ret (Some ''tx'')) \<and>
     invokeCompleted toy_digests (\<lambda>b. Inl ''bad'') no_persister 5 tx_event bc1 () = (bc1, (), Some ''not found stored documents'') \<and>
     register_record ''tx'' [zero_doc] bc1 = (bc3, r) \<and> bc_items bc3 ''tx'' = Some (DocSlice [zero_doc]) \<and>
     bc_items (fst (fold (happen toy_digests (\<lambda>b. Inl ''bad'') no_persister)
       [Record ''ty'' [zero_doc], Handle 6 (tx_event\<lparr>ev_TxID := ''ty''\<rparr>)] (bc3, ()))) ''tx'' = Some (DocSlice [zero_doc])"
proof -
  have "formatDocs (sha256 toy_digests) [zero_doc] \<noteq> []"
    by (rule formatDocs_nonempty [OF _ sha256_nonempty [OF digest_sizes_toy]]) simp
  then obtain bc1 w1 where inv: "register_invoke (sha256 toy_digests) toy_fabric [zero_doc] toy_bc () = (bc1, w1, Ret (Some ''tx''))"
    using execute_available [OF toy_chain(2), of "''invoke''" "''register''" "[''base'', formatDocs (sha256 toy_digests) [zero_doc]]" "()"]
    by (auto simp: register_invoke_eq Let_def toy_fabric_def reply_of_def)
  have n: "bc_items toy_bc ''tx'' = None" by (simp add: toy_bc_def)
  obtain bc2 p2 er where c: "invokeCompleted toy_digests (\<lambda>b. Inl ''bad'') no_persister 5 tx_event bc1 () = (bc2, p2, er)"
    by (metis prod_cases3)
  obtain bc3 r where rec: "register_record ''tx'' [zero_doc] bc2 = (bc3, r)" by (metis prod.collapse)
  have ev: "ev_TxID tx_event = ''tx''" by (simp add: tx_event_def)
  have "bc_items bc1 ''tx'' = None" using register_invoke_items [OF inv] n by simp
  then have "bc2 = bc1" using c by (simp add: invokeCompleted_missing ev)
  moreover obtain bc4 p4 where ms: "fold (happen toy_digests (\<lambda>b. Inl ''bad'') no_persister)
       [Record ''ty'' [zero_doc], Handle 6 (tx_event\<lparr>ev_TxID := ''ty''\<rparr>)] (bc3, ()) = (bc4, p4)"
    by (metis prod.collapse)
  have tx: "''tx'' \<notin> moment_tx ` set [Record ''ty'' [zero_doc], Handle 6 (tx_event\<lparr>ev_TxID := ''ty''\<rparr>)]" by simp
  note lost = early_completion_is_lost [OF inv n ev c rec tx ms]
  then have "p2 = ()" "er = Some ''not found stored documents''" "bc_items bc3 ''tx'' = Some (DocSlice [zero_doc])"
    "bc_items bc4 ''tx'' = Some (DocSlice [zero_doc])" by simp_all
  ultimately show ?thesis using inv c rec ms by (metis fst_conv)
qed

end
