(* ===== verification/Sign.thy ===== *)
theory Sign
  imports Prelude
begin

text \<open>
  Package \<open>sign\<close> (\<open>sign/ecdsa.go\<close>): the key pair loaded once from the configured files, signing
  and verification. Key parsing, ECDSA, ASN.1 and point encoding are parameters
  (\<open>'prk\<close>, \<open>'puk\<close> and \<open>'pt\<close> are the types of private keys, public keys and points). A public key has
  a curve and a point; the curves are those of \<open>crypto/elliptic\<close>. Decoding gives nil for bytes that
  are no point of the curve, and verifying with a nil point may panic.
\<close>

datatype curve = P224 | P256 | P384 | P521

record ('prk, 'puk, 'pt) ecdsa_lib =
  ReadFile :: "string \<Rightarrow> err + bytes"
  ParseECPrivateKey :: "bytes \<Rightarrow> err + 'prk"
  ParsePKIXPublicKey :: "bytes \<Rightarrow> err + 'puk option"   \<comment> \<open>None: a key of another kind\<close>
  sha512 :: "bytes \<Rightarrow> bytes"
  ecdsa_Sign :: "string \<Rightarrow> 'prk \<Rightarrow> bytes \<Rightarrow> err + int \<times> int"
  ecdsa_Verify :: "curve \<Rightarrow> 'pt option \<Rightarrow> bytes \<Rightarrow> int \<times> int \<Rightarrow> bool outcome"
  asn1_Marshal :: "int \<times> int \<Rightarrow> err + bytes"
  asn1_Unmarshal :: "bytes \<Rightarrow> err + int \<times> int"
  key_Curve :: "'puk \<Rightarrow> curve"
  key_Point :: "'puk \<Rightarrow> 'pt"
  public_of :: "'prk \<Rightarrow> 'puk"                            \<comment> \<open>the \<open>PublicKey\<close> embedded in a private key\<close>
  elliptic_Marshal :: "curve \<Rightarrow> 'pt \<Rightarrow> bytes"
  elliptic_Unmarshal :: "curve \<Rightarrow> bytes \<Rightarrow> 'pt option"

text \<open>The package variables.\<close>

record ('prk, 'puk) sign_state =
  once_ran :: bool
  entropy :: string
  prk :: "'prk option"
  puk :: "'puk option"

definition sign_init :: "('prk, 'puk) sign_state" where
  "sign_init = \<lparr>once_ran = False, entropy = [], prk = None, puk = None\<rparr>"

definition initKeys :: "('prk, 'puk, 'pt) ecdsa_lib \<Rightarrow> string \<Rightarrow> string \<Rightarrow> ('prk, 'puk) sign_state
    \<Rightarrow> ('prk, 'puk) sign_state outcome" where
  "initKeys E prkFile pukFile st =
     (case ReadFile E prkFile of
        Inl e \<Rightarrow> Fatal (''read <certs.prkFile> error: '' @ e)
      | Inr prkRaw \<Rightarrow> (case ParseECPrivateKey E prkRaw of
            Inl e \<Rightarrow> Fatal (''parse <certs.prkFile> error: '' @ e)
          | Inr k \<Rightarrow> (case ReadFile E pukFile of
                Inl e \<Rightarrow> Fatal (''read <certs.pukFile> error: '' @ e)
              | Inr pukRaw \<Rightarrow> (case ParsePKIXPublicKey E pukRaw of
                    Inl e \<Rightarrow> Fatal (''parse <certs.pukFile> error: '' @ e)
                  | Inr obj \<Rightarrow>
                      (let puk' = (case obj of Some q \<Rightarrow> Some q | None \<Rightarrow> puk st)
                       in if puk' = None then Fatal ''parse <certs.pukFile> error: is not vaild.''
                          else Ret (st\<lparr>entropy := ''RTZun8DdcdAlgKEP1f832fnbL43b5IqT'',
                                       prk := Some k, puk := puk'\<rparr>))))))"

definition once_Do :: "('prk, 'puk, 'pt) ecdsa_lib \<Rightarrow> string \<Rightarrow> string \<Rightarrow> ('prk, 'puk) sign_state
    \<Rightarrow> ('prk, 'puk) sign_state outcome" where
  "once_Do E prkFile pukFile st =
     (if once_ran st then Ret st else initKeys E prkFile pukFile (st\<lparr>once_ran := True\<rparr>))"

text \<open>The public key bytes; reading the curve of a nil key panics.\<close>

definition GetPublicKey :: "('prk, 'puk, 'pt) ecdsa_lib \<Rightarrow> ('prk, 'puk) sign_state \<Rightarrow> bytes outcome" where
  "GetPublicKey E st =
     (case puk st of None \<Rightarrow> Panic ''nil pointer dereference'' 
     | Some q \<Rightarrow> Ret (elliptic_Marshal E (key_Curve E q) (key_Point E q)))"

text \<open>
  The result of \<open>ECDSASign\<close> (signature and public key, or an error), with the package state. The
  random source is the constant string \<open>entropy\<close>, read from its start in every call.
\<close>

definition ECDSASign :: "('prk, 'puk, 'pt) ecdsa_lib \<Rightarrow> string \<Rightarrow> string \<Rightarrow> bytes \<Rightarrow> ('prk, 'puk) sign_state
    \<Rightarrow> ('prk, 'puk) sign_state \<times> (err + bytes \<times> bytes) outcome" where
  "ECDSASign E prkFile pukFile msg st =
     (case once_Do E prkFile pukFile st of
        Panic e \<Rightarrow> (st, Panic e)
      | Fatal e \<Rightarrow> (st, Fatal e)
      | Ret st' \<Rightarrow>
          (case prk st' of
             None \<Rightarrow> (st', Panic ''nil pointer dereference'')
           | Some k \<Rightarrow> (case ecdsa_Sign E (entropy st') k (sha512 E msg) of
                 Inl e \<Rightarrow> (st', Ret (Inl e))
               | Inr rs \<Rightarrow> (case asn1_Marshal E rs of
                     Inl e \<Rightarrow> (st', Ret (Inl e))
                   | Inr signRaw \<Rightarrow> (case GetPublicKey E st' of
                         Ret pukRaw \<Rightarrow> (st', Ret (Inr (signRaw, pukRaw)))
                       | Panic e \<Rightarrow> (st', Panic e)
                       | Fatal e \<Rightarrow> (st', Fatal e))))))"

text \<open>The key that is verified against is decoded for the curve P-521, whatever the curve of the loaded key.\<close>

definition ECDSAVerify :: "('prk, 'puk, 'pt) ecdsa_lib \<Rightarrow> bytes \<Rightarrow> bytes \<Rightarrow> bytes \<Rightarrow> (err + bool) outcome" where
  "ECDSAVerify E keyRaw signRaw msg =
     (let key = elliptic_Unmarshal E P521 keyRaw
      in case asn1_Unmarshal E signRaw of
           Inl e \<Rightarrow> Ret (Inl e)
         | Inr rs \<Rightarrow> (case ecdsa_Verify E P521 key (sha512 E msg) rs of
               Ret b \<Rightarrow> Ret (Inr b)
             | Panic e \<Rightarrow> Panic e
             | Fatal e \<Rightarrow> Fatal e))"

section \<open>Facts\<close>

text \<open>Once the keys are loaded they stay loaded.\<close>

definition keys_loaded :: "('prk, 'puk) sign_state \<Rightarrow> bool" where
  "keys_loaded st \<longleftrightarrow> once_ran st \<and> prk st \<noteq> None \<and> puk st \<noteq> None"

lemma once_Do_loaded: "keys_loaded st \<Longrightarrow> once_Do E f g st = Ret st"
  by (simp add: once_Do_def keys_loaded_def)

lemma once_Do_init: "once_Do E f g sign_init = Ret st \<Longrightarrow> keys_loaded st"
  by (auto simp: once_Do_def initKeys_def sign_init_def keys_loaded_def Let_def
      split: sum.splits option.splits if_splits)

lemma ECDSASign_keys:
  assumes "ECDSASign E f g msg st = (st', Ret (Inr (sg, pk)))"
  obtains k q rs where "once_Do E f g st = Ret st'" and "prk st' = Some k" and "puk st' = Some q"
    and "ecdsa_Sign E (entropy st') k (sha512 E msg) = Inr rs" and "asn1_Marshal E rs = Inr sg"
    and "pk = elliptic_Marshal E (key_Curve E q) (key_Point E q)"
  using assms by (auto simp: ECDSASign_def GetPublicKey_def split: outcome.splits option.splits sum.splits)

text \<open>
  What is documented of the libraries, each for all keys: a signature made with a private key
  verifies with the public key embedded in it; a point encoded for a curve is decoded for this
  curve, and is no point for another one; an encoded signature is decoded.
\<close>

definition ecdsa_correct :: "('prk, 'puk, 'pt) ecdsa_lib \<Rightarrow> bool" where
  "ecdsa_correct E \<longleftrightarrow> (\<forall>ent k h rs. ecdsa_Sign E ent k h = Inr rs \<longrightarrow>
     ecdsa_Verify E (key_Curve E (public_of E k)) (Some (key_Point E (public_of E k))) h rs = Ret True)"

definition points_decode :: "('prk, 'puk, 'pt) ecdsa_lib \<Rightarrow> bool" where
  "points_decode E \<longleftrightarrow> (\<forall>c q. elliptic_Unmarshal E c (elliptic_Marshal E (key_Curve E q) (key_Point E q))
     = (if c = key_Curve E q then Some (key_Point E q) else None))"

definition signatures_decode :: "('prk, 'puk, 'pt) ecdsa_lib \<Rightarrow> bool" where
  "signatures_decode E \<longleftrightarrow> (\<forall>rs b. asn1_Marshal E rs = Inr b \<longrightarrow> asn1_Unmarshal E b = Inr rs)"

text \<open>
  What \<open>ECDSAVerify\<close> makes of a signature of the server, for any two keys: the verdict of ECDSA on
  the loaded public key if it is a P-521 key, and that on a nil point otherwise.
\<close>

lemma verify_own_signature:
  assumes "ECDSASign E f g msg st = (st', Ret (Inr (sg, pk)))"
    and "prk st' = Some k" and "puk st' = Some q" and "points_decode E" and "signatures_decode E"
  obtains rs where "ecdsa_Sign E (entropy st') k (sha512 E msg) = Inr rs"
    and "ECDSAVerify E pk sg msg = (case ecdsa_Verify E P521 (if key_Curve E q = P521 then Some (key_Point E q) else None)
           (sha512 E msg) rs of Ret b \<Rightarrow> Ret (Inr b) | Panic e \<Rightarrow> Panic e | Fatal e \<Rightarrow> Fatal e)"
proof -
  obtain k' q' rs where "prk st' = Some k'" "puk st' = Some q'"
    and s: "ecdsa_Sign E (entropy st') k' (sha512 E msg) = Inr rs" "asn1_Marshal E rs = Inr sg"
    and pk: "pk = elliptic_Marshal E (key_Curve E q') (key_Point E q')"
    by (rule ECDSASign_keys [OF assms(1)])
  with assms(2,3) have kq: "k' = k" "q' = q" by simp_all
  have "elliptic_Unmarshal E P521 pk = (if key_Curve E q = P521 then Some (key_Point E q) else None)"
    using assms(4) unfolding points_decode_def pk kq by auto
  moreover have "asn1_Unmarshal E sg = Inr rs" using assms(5) s(2) unfolding signatures_decode_def by blast
  ultimately show ?thesis using that s(1) by (simp add: ECDSAVerify_def kq)
qed

lemma pair_verifies:
  assumes "ECDSASign E f g msg st = (st', Ret (Inr (sg, pk)))"
    and "prk st' = Some k" and "puk st' = Some q" and "points_decode E" and "signatures_decode E"
    and "ecdsa_correct E" and "q = public_of E k" and "key_Curve E q = P521"
  shows "ECDSAVerify E pk sg msg = Ret (Inr True)"
proof -
  obtain rs where s: "ecdsa_Sign E (entropy st') k (sha512 E msg) = Inr rs"
    and v: "ECDSAVerify E pk sg msg = (case ecdsa_Verify E P521 (if key_Curve E q = P521 then Some (key_Point E q) else None)
       (sha512 E msg) rs of Ret b \<Rightarrow> Ret (Inr b) | Panic e \<Rightarrow> Panic e | Fatal e \<Rightarrow> Fatal e)"
    by (rule verify_own_signature [OF assms(1-5)])
  have "ecdsa_Verify E P521 (Some (key_Point E q)) (sha512 E msg) rs = Ret True"
    using assms(6-8) s unfolding ecdsa_correct_def by metis
  then show ?thesis using v assms(8) by simp
qed

section \<open>Properties\<close>

text \<open>
  C26. Every signature of the server is made with the one pair of keys loaded for the first, and is
  returned with the same public key. If the two configured files are a pair of keys on the curve
  P-521, as the package's readme prescribes, every signature verifies for the message that was signed. The code checks
  neither: for a public key on another curve the verification is made with a nil point.
\<close>

theorem signature_verifies:
  assumes "ECDSASign E f g msg sign_init = (st, Ret (Inr (sg, pk)))" and "prk st = Some k" and "puk st = Some q"
    and "ecdsa_correct E" and "points_decode E" and "signatures_decode E"
  shows "(q = public_of E k \<and> key_Curve E q = P521 \<longrightarrow> ECDSAVerify E pk sg msg = Ret (Inr True)) \<and>
     (key_Curve E q \<noteq> P521 \<longrightarrow> (\<exists>rs. ECDSAVerify E pk sg msg =
        (case ecdsa_Verify E P521 None (sha512 E msg) rs of Ret b \<Rightarrow> Ret (Inr b) | Panic e \<Rightarrow> Panic e | Fatal e \<Rightarrow> Fatal e))) \<and>
     (\<forall>msg' st' sg' pk'. ECDSASign E f g msg' st = (st', Ret (Inr (sg', pk'))) \<longrightarrow> st' = st \<and> pk' = pk \<and>
        (q = public_of E k \<and> key_Curve E q = P521 \<longrightarrow> ECDSAVerify E pk sg' msg' = Ret (Inr True)))"
proof -
  note laws = assms(5,6)
  obtain k1 q1 where kq: "once_Do E f g sign_init = Ret st" "puk st = Some q1"
    "pk = elliptic_Marshal E (key_Curve E q1) (key_Point E q1)"
    by (rule ECDSASign_keys [OF assms(1)])
  have "st' = st \<and> pk' = pk \<and> (q = public_of E k \<and> key_Curve E q = P521 \<longrightarrow> ECDSAVerify E pk sg' msg' = Ret (Inr True))"
    if s: "ECDSASign E f g msg' st = (st', Ret (Inr (sg', pk')))" for msg' st' sg' pk'
  proof -
    obtain k2 q2 where k2: "once_Do E f g st = Ret st'" "puk st' = Some q2"
      "pk' = elliptic_Marshal E (key_Curve E q2) (key_Point E q2)"
      by (rule ECDSASign_keys [OF s])
    have st: "st' = st" using once_Do_loaded [OF once_Do_init [OF kq(1)], of E f g] k2(1) by simp
    have "pk' = pk" using kq(2,3) k2(2,3) by (simp add: st)
    then show ?thesis
      using st pair_verifies [OF s _ _ laws assms(4), unfolded st, OF assms(2,3)] by blast
  qed
  moreover have "\<exists>rs. ECDSAVerify E pk sg msg = (case ecdsa_Verify E P521 None (sha512 E msg) rs of
      Ret b \<Rightarrow> Ret (Inr b) | Panic e \<Rightarrow> Panic e | Fatal e \<Rightarrow> Fatal e)" if "key_Curve E q \<noteq> P521"
    using that by (rule_tac verify_own_signature [OF assms(1-3) laws]) auto
  ultimately show ?thesis using pair_verifies [OF assms(1-3) laws assms(4)] by blast
qed

text \<open>A library with one key pair and one signature, for the example.\<close>

definition toy_ecdsa :: "(int, int, string) ecdsa_lib" where
  "toy_ecdsa = \<lparr>ReadFile = (\<lambda>f. Inr f), ParseECPrivateKey = (\<lambda>b. Inr 7), ParsePKIXPublicKey = (\<lambda>b. Inr (Some 7)),
     sha512 = (\<lambda>m. m), ecdsa_Sign = (\<lambda>en k h. Inr (k, 0)),
     ecdsa_Verify = (\<lambda>c pt h rs. Ret (pt = Some (dec (fst rs)))),
     asn1_Marshal = (\<lambda>rs. if rs = (7, 0) then Inr ''sig'' else Inl ''number''),
     asn1_Unmarshal = (\<lambda>b. Inr (7, 0)), key_Curve = (\<lambda>q. P521), key_Point = dec, public_of = (\<lambda>k. k),
     elliptic_Marshal = (\<lambda>c p. p),
     elliptic_Unmarshal = (\<lambda>c b. if c = P521 then Some b else None)\<rparr>"

theorem signature_verifies_witness:
  "\<exists>st. ECDSASign toy_ecdsa ''k'' ''p'' ''doc'' sign_init = (st, Ret (Inr (''sig'', ''7''))) \<and>
     ECDSASign toy_ecdsa ''k'' ''p'' ''other'' st = (st, Ret (Inr (''sig'', ''7''))) \<and>
     ECDSAVerify toy_ecdsa ''7'' ''sig'' ''doc'' = Ret (Inr True) \<and>
     ECDSAVerify toy_ecdsa ''7'' ''sig'' ''other'' = Ret (Inr True)"
proof -
  have seven: "dec 7 = ''7''" by code_simp
  then obtain st where st: "ECDSASign toy_ecdsa ''k'' ''p'' ''doc'' sign_init = (st, Ret (Inr (''sig'', ''7'')))"
    and kq: "prk st = Some 7" "puk st = Some 7" and "once_ran st"
    by (simp add: ECDSASign_def once_Do_def sign_init_def initKeys_def toy_ecdsa_def GetPublicKey_def Let_def)
  then have again: "ECDSASign toy_ecdsa ''k'' ''p'' ''other'' st = (st, Ret (Inr (''sig'', ''7'')))"
    by (simp add: ECDSASign_def once_Do_def toy_ecdsa_def GetPublicKey_def seven)
  have "ecdsa_correct toy_ecdsa" "points_decode toy_ecdsa" "signatures_decode toy_ecdsa"
    by (simp_all add: ecdsa_correct_def points_decode_def signatures_decode_def toy_ecdsa_def)
  note v = signature_verifies [OF st kq this]
  have "public_of toy_ecdsa 7 = 7" "key_Curve toy_ecdsa 7 = P521" by (simp_all add: toy_ecdsa_def)
  then show ?thesis using st again v by metis
qed

end
