(* ===== verification/Api.thy ===== *)
theory Api
  imports Blockchain Sign
begin

text \<open>
  The HTTP handlers, \<open>api/v1.go\<close> and \<open>APIServer.Error\<close> of \<open>api/api.go\<close>. A handler takes the
  decoded request and returns the response it writes, together with the parts of the server
  state it changes. The web framework is reduced to the status and the body of a response; a
  goroutine the handler starts is returned as a value of \<open>spawned\<close>.
\<close>

section \<open>Requests and responses\<close>

definition default_appName :: string where
  "default_appName = ''def_appName''"

record DocumentSubmitRequest =
  ProofWaitPeriod :: string
  RawDocument :: string
  req_Metadata :: string
  req_AppName :: string

record DocumentSubmitResponse =
  sr_DocumentID :: string
  sr_PerdictProofTime :: i64

record GetProofStatusResponse =
  ps_Status :: string
  ps_DocumentID :: string
  ps_DocumentBlockDigest :: string
  ps_PerdictProofTime :: i64
  ps_ProofTime :: i64

record GetProofResponse =
  pr_Status :: string
  pr_Message :: string
  pr_PublicKey :: string
  pr_Doc :: document
  pr_PerdictProofTime :: i64

record NormalDocStatResponse =
  TotalStat :: proofStat
  TodayStat :: proofStat
  WeekStat :: proofStat
  MonthStat :: proofStat

datatype body =
  SubmitBody DocumentSubmitResponse
| StatusBody GetProofStatusResponse
| ProofBody GetProofResponse
| DocsBody "document list"
| StatBody proofStat
| NormalStatBody NormalDocStatResponse
| PlainError string                         \<comment> \<open>\<open>ctx.Error\<close>: a text\<close>
| JsonError string "GetProofResponse option" \<comment> \<open>\<open>srv.Error\<close>: error text and message\<close>

type_synonym response = "nat \<times> body"

datatype spawned = SpawnSetDocSignature string string

text \<open>\<open>APIServer.Error\<close> with its variadic arguments: the error text and what follows it.\<close>

fun srv_Error :: "nat \<Rightarrow> string option \<Rightarrow> GetProofResponse option \<Rightarrow> response" where
  "srv_Error status None rest = (status, JsonError ''unknown'' None)"
| "srv_Error status (Some e) rest = (status, JsonError e rest)"

text \<open>The predicted time of a proof, as every handler computes it.\<close>

definition perdictProofTime :: "document \<Rightarrow> i64" where
  "perdictProofTime doc = time_to_Unix (time_Add (time_Unix (SubmitTime doc)) (WaitDuration doc))"

section \<open>Submission\<close>

text \<open>
  \<open>submitRaw\<close>: \<open>readJSON\<close> is the decoded body, \<open>limits\<close> the value of \<open>GetPeriodLimits()\<close>, \<open>put\<close> the
  cache's \<open>Put\<close> at the current time.
\<close>

definition submitRaw ::
    "parse_duration \<Rightarrow> PeriodLimit list
       \<Rightarrow> (string \<Rightarrow> bytes \<Rightarrow> string \<Rightarrow> i64 \<Rightarrow> 'c \<Rightarrow> 'c \<times> (err + document) outcome)
       \<Rightarrow> (err + DocumentSubmitRequest) \<Rightarrow> 'c \<Rightarrow> 'c \<times> response outcome" where
  "submitRaw pd limits put readJSON c =
     (case readJSON of
        Inl e \<Rightarrow> (c, Ret (400, PlainError e))
      | Inr req \<Rightarrow>
          if ProofWaitPeriod req = [] \<and> limits = [] then (c, Panic ''index out of range'')
          else
            (let period = (if ProofWaitPeriod req = [] then dur_String (Period (limits ! 0))
                           else ProofWaitPeriod req)
             in case pd period of
                  Inl e \<Rightarrow> (c, Ret (400, PlainError ''proofWaitPeriod format is invalid''))
                | Inr waitPeriod \<Rightarrow>
                    (let appName = (if req_Metadata req \<noteq> [] then default_appName else req_AppName req)
                     in case put appName (RawDocument req) (req_Metadata req) waitPeriod c of
                          (c', Panic e) \<Rightarrow> (c', Panic e)
                        | (c', Fatal e) \<Rightarrow> (c', Fatal e)
                        | (c', Ret (Inl e)) \<Rightarrow>
                            (c', Ret (500, PlainError ''poe server can't provider service now, sorry''))
                        | (c', Ret (Inr doc)) \<Rightarrow>
                            if length (Id doc) < 8 then (c', Panic ''slice bounds out of range'')
                            else (c', Ret (201, SubmitBody
                                \<lparr>sr_DocumentID = Id doc, sr_PerdictProofTime = perdictProofTime doc\<rparr>)))))"

section \<open>Status of a proof\<close>

definition empty_status :: GetProofStatusResponse where
  "empty_status = \<lparr>ps_Status = [], ps_DocumentID = [], ps_DocumentBlockDigest = [],
     ps_PerdictProofTime = 0, ps_ProofTime = 0\<rparr>"

definition getProofStatus :: "'p persister \<Rightarrow> string \<Rightarrow> 'p \<Rightarrow> response" where
  "getProofStatus P documentID p =
     (if documentID = [] then (404, PlainError ''document not found'')
      else case GetDocFromDBByDocID P documentID p of
             Inl e \<Rightarrow> (404, StatusBody (empty_status\<lparr>ps_Status := ''none''\<rparr>))
           | Inr doc \<Rightarrow>
               (let r0 = empty_status\<lparr>ps_DocumentID := Id doc\<rparr>;
                    r1 = (if BlockDigest doc \<noteq> [] then r0\<lparr>ps_Status := ''ok'', ps_ProofTime := ProofTime doc\<rparr>
                          else r0\<lparr>ps_Status := ''wait'', ps_PerdictProofTime := perdictProofTime doc\<rparr>)
                in (200, StatusBody (r1\<lparr>ps_DocumentBlockDigest := BlockDigest doc\<rparr>))))"

section \<open>Proof of a document\<close>

text \<open>
  The server during a request for a proof: the blockchain handler, the fabric world and the
  state of package \<open>sign\<close>. The environment bundles the libraries and the persister.
\<close>

record ('w, 'prk, 'puk) server =
  srv_bc :: Blockchain
  srv_world :: 'w
  srv_sign :: "('prk, 'puk) sign_state"

record ('p, 'w, 'k, 'prk, 'puk, 'pt) server_env =
  env_persister :: "'p persister"
  env_fabric :: "('w, 'k) fabric"
  env_decode :: query_decoder
  env_digests :: digests
  env_ecdsa :: "('prk, 'puk, 'pt) ecdsa_lib"
  env_prkFile :: string
  env_pukFile :: string
  env_marshal :: "document \<Rightarrow> err + bytes"

definition empty_proof :: GetProofResponse where
  "empty_proof = \<lparr>pr_Status = [], pr_Message = [], pr_PublicKey = [], pr_Doc = zero_doc,
     pr_PerdictProofTime = 0\<rparr>"

text \<open>\<open>setDocSign\<close>: signature and public key in hexadecimal; storing the signature is a goroutine.\<close>

definition setDocSign ::
    "('p, 'w, 'k, 'prk, 'puk, 'pt) server_env \<Rightarrow> document \<Rightarrow> ('prk, 'puk) sign_state
       \<Rightarrow> ('prk, 'puk) sign_state \<times> spawned list \<times> (err + string \<times> string) outcome" where
  "setDocSign V doc st =
     (case env_marshal V doc of
        Inl e \<Rightarrow> (st, [], Ret (Inl e))
      | Inr docRaw \<Rightarrow>
          (case ECDSASign (env_ecdsa V) (env_prkFile V) (env_pukFile V) docRaw st of
             (st', Panic e) \<Rightarrow> (st', [], Panic e)
           | (st', Fatal e) \<Rightarrow> (st', [], Fatal e)
           | (st', Ret (Inl e)) \<Rightarrow> (st', [], Ret (Inl e))
           | (st', Ret (Inr (signRaw, pukRaw))) \<Rightarrow>
               (st', [SpawnSetDocSignature (Id doc) (hex signRaw)], Ret (Inr (hex signRaw, hex pukRaw)))))"

text \<open>
  The last part of both proof handlers, from the signature on: sign the document if it has no
  signature, otherwise read the public key. An error of signing is returned to the caller.
\<close>

definition attach_signature ::
    "('p, 'w, 'k, 'prk, 'puk, 'pt) server_env \<Rightarrow> GetProofResponse \<Rightarrow> ('prk, 'puk) sign_state
       \<Rightarrow> ('prk, 'puk) sign_state \<times> spawned list \<times> (err + GetProofResponse) outcome" where
  "attach_signature V r st =
     (if Sign (pr_Doc r) = [] then
        (case setDocSign V (pr_Doc r) st of
           (st', sp, Panic e) \<Rightarrow> (st', sp, Panic e)
         | (st', sp, Fatal e) \<Rightarrow> (st', sp, Fatal e)
         | (st', sp, Ret (Inl e)) \<Rightarrow> (st', sp, Ret (Inl e))
         | (st', sp, Ret (Inr (sg, pubKey))) \<Rightarrow>
             (st', sp, Ret (Inr (r\<lparr>pr_Doc := (pr_Doc r)\<lparr>Sign := sg\<rparr>, pr_PublicKey := pubKey,
                                   pr_Status := ''valid''\<rparr>))))
      else
        (case GetPublicKey (env_ecdsa V) st of
           Ret pk \<Rightarrow> (st, [], Ret (Inr (r\<lparr>pr_PublicKey := hex pk, pr_Status := ''valid''\<rparr>)))
         | Panic e \<Rightarrow> (st, [], Panic e)
         | Fatal e \<Rightarrow> (st, [], Fatal e)))"

definition postProofResult ::
    "('p, 'w, 'k, 'prk, 'puk, 'pt) server_env \<Rightarrow> (err + string) \<Rightarrow> 'p \<Rightarrow> ('w, 'prk, 'puk) server
       \<Rightarrow> ('w, 'prk, 'puk) server \<times> spawned list \<times> response outcome" where
  "postProofResult V readJSON p s =
     (case readJSON of
        Inl e \<Rightarrow> (s, [], Ret (400, PlainError e))
      | Inr raw \<Rightarrow>
          (case FindDocsByHash (env_persister V) (DocumentHash (env_digests V) raw) p of
             Inl e \<Rightarrow> (s, [], Ret (404, ProofBody (empty_proof\<lparr>pr_Status := ''none'', pr_Message := ''not found''\<rparr>)))
           | Inr [] \<Rightarrow> (s, [], Ret (404, ProofBody (empty_proof\<lparr>pr_Status := ''none'', pr_Message := ''not found''\<rparr>)))
           | Inr (doc # others) \<Rightarrow>
               (let r = empty_proof\<lparr>pr_Doc := doc\<rparr>
                in if BlockDigest doc = [] then
                     (s, [], Ret (202, ProofBody (r\<lparr>pr_Status := ''wait'', pr_PerdictProofTime := perdictProofTime doc\<rparr>)))
                   else (case FindDocsByBlockDigest (env_persister V) (BlockDigest doc) p of
                       Inl e \<Rightarrow> (s, [], Ret (404, ProofBody (r\<lparr>pr_Status := ''invalid'', pr_Message := e\<rparr>)))
                     | Inr blockDocs \<Rightarrow>
                         (case VerifyDocs (sha256 (env_digests V)) (env_fabric V) (env_decode V) blockDocs
                                 (srv_bc s) (srv_world s) of
                            (bc', w', v) \<Rightarrow>
                              (let s' = s\<lparr>srv_bc := bc', srv_world := w'\<rparr>
                               in case v of
                                    Panic e \<Rightarrow> (s', [], Panic e)
                                  | Fatal e \<Rightarrow> (s', [], Fatal e)
                                  | Ret False \<Rightarrow> (s', [], Ret (500, ProofBody
                                        (r\<lparr>pr_Status := ''invalid'', pr_Message := ''not verified.''\<rparr>)))
                                  | Ret True \<Rightarrow>
                                      (case attach_signature V r (srv_sign s') of
                                         (st', sp, Panic e) \<Rightarrow> (s'\<lparr>srv_sign := st'\<rparr>, sp, Panic e)
                                       | (st', sp, Fatal e) \<Rightarrow> (s'\<lparr>srv_sign := st'\<rparr>, sp, Fatal e)
                                       | (st', sp, Ret (Inl e)) \<Rightarrow> (s'\<lparr>srv_sign := st'\<rparr>, sp, Ret (500, ProofBody
                                            (r\<lparr>pr_Status := ''invalid'', pr_Message := e\<rparr>)))
                                       | (st', sp, Ret (Inr r')) \<Rightarrow>
                                           (s'\<lparr>srv_sign := st'\<rparr>, sp, Ret (200, ProofBody r')))))))))"

definition getProofResult ::
    "('p, 'w, 'k, 'prk, 'puk, 'pt) server_env \<Rightarrow> string \<Rightarrow> 'p \<Rightarrow> ('w, 'prk, 'puk) server
       \<Rightarrow> ('w, 'prk, 'puk) server \<times> spawned list \<times> response outcome" where
  "getProofResult V docID p s =
     (case GetDocFromDBByDocID (env_persister V) docID p of
        Inl e \<Rightarrow> (s, [], Ret (srv_Error 404 (Some (''cannot found '' @ docID @ '', '' @ e)) (Some empty_proof)))
      | Inr doc \<Rightarrow>
          (let r = empty_proof\<lparr>pr_Doc := doc\<rparr>
           in if BlockDigest doc = [] then
                (s, [], Ret (srv_Error 406 (Some ''file is waiting.'')
                   (Some (r\<lparr>pr_Status := ''wait'', pr_PerdictProofTime := perdictProofTime doc\<rparr>))))
              else (case FindDocsByBlockDigest (env_persister V) (BlockDigest doc) p of
                  Inl e \<Rightarrow> (s, [], Ret (srv_Error 404 (Some (''cannot found in blockchain, '' @ e)) (Some r)))
                | Inr blockDocs \<Rightarrow>
                    (case VerifyDocs (sha256 (env_digests V)) (env_fabric V) (env_decode V) blockDocs
                            (srv_bc s) (srv_world s) of
                       (bc', w', v) \<Rightarrow>
                         (let s' = s\<lparr>srv_bc := bc', srv_world := w'\<rparr>
                          in case v of
                               Panic e \<Rightarrow> (s', [], Panic e)
                             | Fatal e \<Rightarrow> (s', [], Fatal e)
                             | Ret False \<Rightarrow> (s', [], Ret (srv_Error 400 (Some ''verify failed.'')
                                   (Some (r\<lparr>pr_Status := ''invalid''\<rparr>))))
                             | Ret True \<Rightarrow>
                                 (case attach_signature V r (srv_sign s') of
                                    (st', sp, Panic e) \<Rightarrow> (s'\<lparr>srv_sign := st'\<rparr>, sp, Panic e)
                                  | (st', sp, Fatal e) \<Rightarrow> (s'\<lparr>srv_sign := st'\<rparr>, sp, Fatal e)
                                  | (st', sp, Ret (Inl e)) \<Rightarrow> (s'\<lparr>srv_sign := st'\<rparr>, sp,
                                       Ret (srv_Error 500 (Some e) (Some (r\<lparr>pr_Status := ''invalid''\<rparr>))))
                                  | (st', sp, Ret (Inr r')) \<Rightarrow>
                                      (s'\<lparr>srv_sign := st'\<rparr>, sp, Ret (200, ProofBody r'))))))))"

section \<open>Listings and statistics\<close>

text \<open>
  \<open>sort.Sort\<close> with the two orders of the handlers; the algorithm is not stable, so it is a
  parameter that returns some sorted permutation.
\<close>

type_synonym sorter = "(document \<Rightarrow> int) \<Rightarrow> document list \<Rightarrow> document list"

definition sort_Sort :: "sorter \<Rightarrow> bool" where
  "sort_Sort srt \<longleftrightarrow> (\<forall>key docs. mset (srt key docs) = mset docs \<and> sorted (map key (srt key docs)))"

definition by_SubmitTime :: "document \<Rightarrow> int" where
  "by_SubmitTime d = sint (SubmitTime d)"

definition by_ProofTime :: "document \<Rightarrow> int" where
  "by_ProofTime d = sint (ProofTime d)"

definition clamp_count :: "err + i64 \<Rightarrow> i64" where
  "clamp_count c =
     (let n = (case c of Inl e \<Rightarrow> 10 | Inr n \<Rightarrow> if sint n \<le> 0 then 10 else n)
      in if 200 < sint n then 200 else n)"

definition getDocs ::
    "'p persister \<Rightarrow> sorter \<Rightarrow> string \<Rightarrow> string \<Rightarrow> (err + i64) \<Rightarrow> 'p \<Rightarrow> response" where
  "getDocs P srt appParam searchType countParam p =
     (let appName = (if appParam = [] then default_appName else appParam);
          cnt = clamp_count countParam;
          answer = (\<lambda>key found. case found of Inl e \<Rightarrow> (500, PlainError e)
                                  | Inr docs \<Rightarrow> (200, DocsBody (srt key docs)))
      in if searchType = ''register'' then answer by_SubmitTime (FindDocs P appName NOT_PROOFED cnt p)
         else if searchType = ''proof'' then answer by_ProofTime (FindDocs P appName ALREADY_PROOFED cnt p)
         else if searchType = [] then answer by_SubmitTime (FindDocs P appName NOT_SPECIFIAL cnt p)
         else (400, PlainError ''not supported doc status type''))"

definition getDocStat :: "'p persister \<Rightarrow> (err + i64) \<Rightarrow> (err + i64) \<Rightarrow> 'p \<Rightarrow> response" where
  "getDocStat P startParam endParam p =
     (case startParam of
        Inl e \<Rightarrow> (400, PlainError e)
      | Inr startTs \<Rightarrow> (case endParam of
            Inl e \<Rightarrow> (400, PlainError e)
          | Inr endTs \<Rightarrow> (200, StatBody (DocProofStat P (time_Unix startTs) (time_Unix endTs) p))))"

text \<open>The bounds of the day, the week and the month come from package \<open>now\<close> as three pairs.\<close>

definition getNormalDocStat ::
    "'p persister \<Rightarrow> gotime \<times> gotime \<Rightarrow> gotime \<times> gotime \<Rightarrow> gotime \<times> gotime \<Rightarrow> 'p \<Rightarrow> response" where
  "getNormalDocStat P day week month p =
     (200, NormalStatBody \<lparr>TotalStat = DocProofStat P (time_Unix 0) (time_Unix 0) p,
        TodayStat = DocProofStat P (fst day) (snd day) p,
        WeekStat = DocProofStat P (fst week) (snd week) p,
        MonthStat = DocProofStat P (fst month) (snd month) p\<rparr>)"

section \<open>Properties\<close>

lemma smod_bounds: "- billion < a smod billion" "a smod billion < billion" for a :: int
  using smod_int_range [of billion a] by auto

lemma sdiv_smod_floor:
  "a sdiv billion + (if a smod billion < 0 then - 1 else 0) = a div billion" for a :: int
proof -
  define q r where "q = a sdiv billion" and "r = a smod billion"
  have a: "a = billion * q + r" using mult_sdiv_smod_eq [of billion a] by (simp add: q_def r_def)
  have "- billion < r" "r < billion" using smod_bounds [of a] by (simp_all add: r_def)
  then have "q + (if r < 0 then - 1 else 0) = a div billion"
    unfolding a by (cases "r < 0") simp_all
  then show ?thesis by (simp add: q_def r_def)
qed

lemma perdictProofTime_eq:
  "perdictProofTime doc = SubmitTime doc + word_of_int (sint (WaitDuration doc) div billion)"
proof -
  let ?w = "sint (WaitDuration doc)"
  have "perdictProofTime doc = SubmitTime doc + word_of_int (?w sdiv billion)
      + word_of_int (if ?w smod billion < 0 then - 1 else 0)"
    using smod_bounds [of ?w] by (simp add: perdictProofTime_def time_Unix_def time_Add_def time_to_Unix_def Let_def)
  also have "\<dots> = SubmitTime doc + word_of_int (?w sdiv billion + (if ?w smod billion < 0 then - 1 else 0))"
    by (simp add: word_of_int_hom_syms)
  finally show ?thesis unfolding sdiv_smod_floor .
qed

text \<open>
  The predicted time is the stored time of submission plus the whole seconds of the waiting
  period, rounded down, modulo \<open>2 ^ 64\<close>. The time of submission is stored in nanoseconds
  (\<open>UnixNano\<close>), so the sum is not a time in either unit.
\<close>

theorem perdictProofTime_formula:
  "perdictProofTime doc = SubmitTime doc + word_of_int (sint (WaitDuration doc) div billion)"
  by (rule perdictProofTime_eq)

text \<open>
  C40. After a restart, asking for the proof of a document that already carries a signature
  panics as soon as its batch verifies: the public key is read before any key was loaded,
  because only signing loads the keys.
\<close>

theorem signed_document_panics_after_restart:
  assumes "GetDocFromDBByDocID (env_persister V) docID p = Inr doc"
    and "BlockDigest doc \<noteq> []" and "Sign doc \<noteq> []"
    and "FindDocsByBlockDigest (env_persister V) (BlockDigest doc) p = Inr blockDocs"
    and "snd (snd (VerifyDocs (sha256 (env_digests V)) (env_fabric V) (env_decode V) blockDocs
               (srv_bc s) (srv_world s))) = Ret True"
    and "srv_sign s = sign_init"
  shows "\<exists>s' e. getProofResult V docID p s = (s', [], Panic e)"
proof -
  obtain bc' w' where "VerifyDocs (sha256 (env_digests V)) (env_fabric V) (env_decode V) blockDocs
      (srv_bc s) (srv_world s) = (bc', w', Ret True)"
    using assms(5) by (metis prod.collapse)
  then show ?thesis
    using assms(1-4,6) by (simp add: getProofResult_def Let_def attach_signature_def GetPublicKey_def
        sign_init_def empty_proof_def)
qed

text \<open>A persister that holds one proofed and signed document, in a server after its start.\<close>

definition signed_doc :: document where
  "signed_doc = zero_doc\<lparr>Id := ''i'', BlockDigest := ''dg'', Sign := ''sig''\<rparr>"

definition one_doc_persister :: "unit persister" where
  "one_doc_persister = \<lparr>PutDocsIntoDB = (\<lambda>ds p. (p, None)), GetDocFromDBByDocID = (\<lambda>i p. Inr signed_doc),
     SetDocsBlockDigest = (\<lambda>n is g t p. (p, None)), SetDocSignature = (\<lambda>i g p. (p, None)),
     FindDocsByBlockDigest = (\<lambda>g p. Inr [signed_doc]), FindDocsByHash = (\<lambda>h p. Inr [signed_doc]),
     FindDocs = (\<lambda>a st n p. Inr [signed_doc]), DocProofStat = (\<lambda>a b p. \<lparr>StartTime = 0, EndTime = 0, TotalDocs = 0, WaitDocs = 0, ProofedDocs = 0\<rparr>)\<rparr>"

definition toy_env :: "'p persister \<Rightarrow> ('p, unit, unit, int, int, string) server_env" where
  "toy_env P = \<lparr>env_persister = P, env_fabric = toy_fabric, env_decode = toy_decode UNIV,
     env_digests = toy_digests, env_ecdsa = toy_ecdsa, env_prkFile = ''k'', env_pukFile = ''p'',
     env_marshal = (\<lambda>d. Inr (Id d))\<rparr>"

definition toy_server :: "(unit, int, int) server" where
  "toy_server = \<lparr>srv_bc = toy_bc, srv_world = (), srv_sign = sign_init\<rparr>"

lemma toy_verifies:
  assumes "docs \<noteq> []"
  shows "snd (snd (VerifyDocs (sha256 toy_digests) toy_fabric (toy_decode UNIV) docs toy_bc ())) = Ret True"
proof -
  have "sha256 toy_digests x \<noteq> []" for x
    using digest_sizesD(1) [OF digest_sizes_toy, of x] by auto
  then have "formatDocs (sha256 toy_digests) docs \<noteq> []" by (rule formatDocs_nonempty [OF assms])
  from VerifyDocs_answer [OF toy_chain(1) [of UNIV] toy_chain(2) this, of "()"] show ?thesis by auto
qed

theorem signed_document_panics_after_restart_witness:
  "\<exists>s' e. getProofResult (toy_env one_doc_persister) ''i'' () toy_server = (s', [], Panic e)"
  by (rule signed_document_panics_after_restart [where doc = signed_doc and blockDocs = "[signed_doc]"])
     (simp_all add: toy_env_def one_doc_persister_def signed_doc_def toy_server_def toy_verifies)

end
