(* ===== verification/Cassandra.thy ===== *)
theory Cassandra
  imports Persister
begin

text \<open>
  The Cassandra persister, \<open>persist/cassandra/cassandra.go\<close>. The statements the code issues are
  values; the session (driver and cluster) that executes them is a record of functions and a
  parameter of every operation. \<open>cql_store\<close> states what the code relies on from CQL: inserts
  and updates are upserts of the named columns, a select returns the matching rows, a null
  column scans as the zero value. Some queries ask for consistency \<open>One\<close>: the answer of any one replica
  is taken. The laws of \<open>cql_store\<close> for them hold when the replica that answers has seen the writes before,
  as with one replica per row; a stale answer of a lagging replica is outside of them.
\<close>

section \<open>Statements and sessions\<close>

datatype cql_write =
  InsertDoc string string i64 i64 string string DocProofStatus
| UpdateProof string i64 string DocProofStatus string
| UpdateSign string string

datatype cql_where =
  WhereId string
| WhereBlockDigest string
| WhereHash string
| WhereDigestEqTimeEq string i64
| WhereDigestGtTimeGt string i64
| WhereApp string DocProofStatus

datatype cql_count = CountSubmitted i64 i64 | CountSubmittedStatus i64 i64 DocProofStatus

text \<open>A row of the table \<open>documents\<close>; every column but the key may be null.\<close>

record row =
  r_id :: string
  r_hash :: "string option"
  r_blockDigest :: "string option"
  r_submitTime :: "i64 option"
  r_proofTime :: "i64 option"
  r_waitDuration :: "i64 option"
  r_transactionId :: "string option"
  r_metadata :: "string option"
  r_sign :: "string option"
  r_appName :: "string option"
  r_proofStatus :: "DocProofStatus option"

definition null_row :: "string \<Rightarrow> row" where
  "null_row i = \<lparr>r_id = i, r_hash = None, r_blockDigest = None, r_submitTime = None,
     r_proofTime = None, r_waitDuration = None, r_transactionId = None, r_metadata = None,
     r_sign = None, r_appName = None, r_proofStatus = None\<rparr>"

text \<open>The consistency a query asks for; without one the session's default is used.\<close>

datatype consistency = gocql_One | gocql_Quorum

record 'db session =
  ExecuteBatch :: "cql_write list \<Rightarrow> 'db \<Rightarrow> 'db \<times> err option"
  Exec :: "cql_write \<Rightarrow> 'db \<Rightarrow> 'db \<times> err option"
  ScanOne :: "consistency \<Rightarrow> cql_where \<Rightarrow> 'db \<Rightarrow> err + row"
  IterRows :: "cql_where \<Rightarrow> i64 option \<Rightarrow> 'db \<Rightarrow> row list \<times> err option"
  ScanCount :: "consistency \<Rightarrow> cql_count \<Rightarrow> 'db \<Rightarrow> err + i64"

section \<open>The operations\<close>

definition put_statement :: "document \<Rightarrow> cql_write" where
  "put_statement doc = InsertDoc (Id doc) (Hash doc) (SubmitTime doc) (WaitDuration doc)
     (Metadata doc) (AppName doc) NOT_PROOFED"

text \<open>The error of the batch is logged; the function returns nil in every case.\<close>

definition cas_PutDocsIntoDB :: "'db session \<Rightarrow> document list \<Rightarrow> 'db \<Rightarrow> 'db \<times> err option" where
  "cas_PutDocsIntoDB S docs db = (fst (ExecuteBatch S (map put_statement docs) db), None)"

definition scan_row :: "row \<Rightarrow> document" where
  "scan_row r = \<lparr>Id = r_id r, BlockDigest = case_option [] (\<lambda>x. x) (r_blockDigest r),
     SubmitTime = case_option 0 (\<lambda>x. x) (r_submitTime r), ProofTime = case_option 0 (\<lambda>x. x) (r_proofTime r),
     Hash = case_option [] (\<lambda>x. x) (r_hash r), WaitDuration = case_option 0 (\<lambda>x. x) (r_waitDuration r),
     Metadata = case_option [] (\<lambda>x. x) (r_metadata r), Txid = case_option [] (\<lambda>x. x) (r_transactionId r),
     Sign = case_option [] (\<lambda>x. x) (r_sign r), AppName = case_option [] (\<lambda>x. x) (r_appName r),
     ProofStatus = case_option NOT_SPECIFIAL (\<lambda>x. x) (r_proofStatus r)\<rparr>"

definition cas_GetDocFromDBByDocID :: "'db session \<Rightarrow> string \<Rightarrow> 'db \<Rightarrow> err + document" where
  "cas_GetDocFromDBByDocID S docID db =
     (if docID = [] then Inl ''empty document id''
      else case ScanOne S gocql_One (WhereId docID) db of Inl e \<Rightarrow> Inl e | Inr r \<Rightarrow> Inr (scan_row r))"

definition cas_SetDocsBlockDigest ::
    "'db session \<Rightarrow> i64 \<Rightarrow> string list \<Rightarrow> string \<Rightarrow> string \<Rightarrow> 'db \<Rightarrow> 'db \<times> err option" where
  "cas_SetDocsBlockDigest S now docIDs digest txid db =
     (if docIDs = [] then (db, None)
      else ExecuteBatch S (map (UpdateProof digest now txid ALREADY_PROOFED) docIDs) db)"

definition cas_SetDocSignature :: "'db session \<Rightarrow> string \<Rightarrow> string \<Rightarrow> 'db \<Rightarrow> 'db \<times> err option" where
  "cas_SetDocSignature S docID sg db =
     (if docID = [] \<or> sg = [] then (db, Some ''invalid params'')
      else Exec S (UpdateSign sg docID) db)"

text \<open>\<open>iterToDocs\<close>: the rows scanned until the iterator ends, unless closing it reports an error.\<close>

definition iterToDocs :: "row list \<times> err option \<Rightarrow> err + document list" where
  "iterToDocs it = (case it of (rows, e) \<Rightarrow> (case e of Some e' \<Rightarrow> Inl e' | None \<Rightarrow> Inr (map scan_row rows)))"

definition cas_FindDocsByBlockDigest :: "'db session \<Rightarrow> string \<Rightarrow> 'db \<Rightarrow> err + document list" where
  "cas_FindDocsByBlockDigest S digest db =
     (if digest = [] then Inl ''invalid digest'' else iterToDocs (IterRows S (WhereBlockDigest digest) None db))"

definition cas_FindDocsByHash :: "'db session \<Rightarrow> string \<Rightarrow> 'db \<Rightarrow> err + document list" where
  "cas_FindDocsByHash S hsh db =
     (if hsh = [] then Inl ''invalid hash'' else iterToDocs (IterRows S (WhereHash hsh) None db))"

definition cas_FindRegisteredDocs :: "'db session \<Rightarrow> i64 \<Rightarrow> 'db \<Rightarrow> err + document list" where
  "cas_FindRegisteredDocs S cnt db =
     (if sint cnt \<le> 0 then Inl (''invalid param: count '' @ dec (sint cnt))
      else iterToDocs (IterRows S (WhereDigestEqTimeEq [] 0) (Some cnt) db))"

definition cas_FindProofedDocs :: "'db session \<Rightarrow> i64 \<Rightarrow> 'db \<Rightarrow> err + document list" where
  "cas_FindProofedDocs S cnt db =
     (if sint cnt \<le> 0 then Inl (''invalid param: count: '' @ dec (sint cnt))
      else iterToDocs (IterRows S (WhereDigestGtTimeGt [] 0) (Some cnt) db))"

definition cas_FindDocs :: "'db session \<Rightarrow> string \<Rightarrow> DocProofStatus \<Rightarrow> i64 \<Rightarrow> 'db \<Rightarrow> err + document list" where
  "cas_FindDocs S appName proofStatus cnt db =
     (if sint cnt \<le> 0 then Inl (''invalid param: count: '' @ dec (sint cnt))
      else iterToDocs (IterRows S (WhereApp appName proofStatus) (Some cnt) db))"

definition MaxInt64 :: i64 where
  "MaxInt64 = word_of_int (2 ^ 63 - 1)"

definition cas_DocProofStat :: "'db session \<Rightarrow> gotime \<Rightarrow> gotime \<Rightarrow> 'db \<Rightarrow> proofStat" where
  "cas_DocProofStat S sTime eTime db =
     (let startTime = (if sint (UnixNano sTime) \<le> 0 then 1 else UnixNano sTime);
          endTime = (if sint (UnixNano eTime) \<le> 0 then MaxInt64 else UnixNano eTime);
          stat = \<lparr>StartTime = startTime, EndTime = endTime, TotalDocs = 0, WaitDocs = 0, ProofedDocs = 0\<rparr>
      in case ScanCount S gocql_One (CountSubmitted startTime endTime) db of
           Inl e \<Rightarrow> stat
         | Inr n \<Rightarrow>
             (let stat1 = stat\<lparr>TotalDocs := n\<rparr>
              in case ScanCount S gocql_One (CountSubmittedStatus startTime endTime NOT_PROOFED) db of
                   Inl e \<Rightarrow> stat1
                 | Inr wait \<Rightarrow>
                     (let stat2 = stat1\<lparr>WaitDocs := wait\<rparr>
                      in stat2\<lparr>WaitDocs := TotalDocs stat2 - ProofedDocs stat2\<rparr>)))"

definition cassandra_persister :: "'db session \<Rightarrow> 'db persister" where
  "cassandra_persister S = \<lparr>PutDocsIntoDB = cas_PutDocsIntoDB S,
     GetDocFromDBByDocID = cas_GetDocFromDBByDocID S, SetDocsBlockDigest = cas_SetDocsBlockDigest S,
     SetDocSignature = cas_SetDocSignature S, FindDocsByBlockDigest = cas_FindDocsByBlockDigest S,
     FindDocsByHash = cas_FindDocsByHash S, FindDocs = cas_FindDocs S,
     DocProofStat = cas_DocProofStat S\<rparr>"

record gocql_cluster =
  cl_Hosts :: "string list"
  cl_Keyspace :: string

definition NewCassandraPersister :: "viper \<Rightarrow> (gocql_cluster \<Rightarrow> err + 'db session) \<Rightarrow> 'db persister outcome" where
  "NewCassandraPersister V createSession =
     (let cluster = \<lparr>cl_Hosts = GetStringSlice V ''persist.cassandra.clusters'',
                     cl_Keyspace = GetString V ''persist.cassandra.keyspace''\<rparr>
      in case createSession cluster of
           Inl e \<Rightarrow> Fatal (''can't create cassandra session: '' @ e)
         | Inr S \<Rightarrow> Ret (cassandra_persister S))"

section \<open>What the code relies on from CQL\<close>

fun write_key :: "cql_write \<Rightarrow> string" where
  "write_key (InsertDoc i h s w m a st) = i"
| "write_key (UpdateProof dg t tx st i) = i"
| "write_key (UpdateSign sg i) = i"

fun write_row :: "cql_write \<Rightarrow> row \<Rightarrow> row" where
  "write_row (InsertDoc i h s w m a st) r =
     r\<lparr>r_hash := Some h, r_submitTime := Some s, r_waitDuration := Some w, r_metadata := Some m,
       r_appName := Some a, r_proofStatus := Some st\<rparr>"
| "write_row (UpdateProof dg t tx st i) r =
     r\<lparr>r_blockDigest := Some dg, r_proofTime := Some t, r_transactionId := Some tx, r_proofStatus := Some st\<rparr>"
| "write_row (UpdateSign sg i) r = r\<lparr>r_sign := Some sg\<rparr>"

definition upsert :: "cql_write \<Rightarrow> (string \<Rightarrow> row option) \<Rightarrow> (string \<Rightarrow> row option)" where
  "upsert w t = t(write_key w \<mapsto>
     write_row w (case t (write_key w) of None \<Rightarrow> null_row (write_key w) | Some r \<Rightarrow> r))"

fun row_matches :: "cql_where \<Rightarrow> row \<Rightarrow> bool" where
  "row_matches (WhereId i) r \<longleftrightarrow> r_id r = i"
| "row_matches (WhereBlockDigest dg) r \<longleftrightarrow> r_blockDigest r = Some dg"
| "row_matches (WhereHash h) r \<longleftrightarrow> r_hash r = Some h"
| "row_matches (WhereDigestEqTimeEq dg t) r \<longleftrightarrow> r_blockDigest r = Some dg \<and> r_proofTime r = Some t"
| "row_matches (WhereDigestGtTimeGt dg t) r \<longleftrightarrow>
     (case r_blockDigest r of None \<Rightarrow> False | Some b \<Rightarrow> dg < b) \<and>
     (case r_proofTime r of None \<Rightarrow> False | Some p \<Rightarrow> sint t < sint p)"
| "row_matches (WhereApp a st) r \<longleftrightarrow> r_appName r = Some a \<and> r_proofStatus r = Some st"

fun count_matches :: "cql_count \<Rightarrow> row \<Rightarrow> bool" where
  "count_matches (CountSubmitted s e) r \<longleftrightarrow>
     (case r_submitTime r of None \<Rightarrow> False | Some t \<Rightarrow> sint s \<le> sint t \<and> sint t \<le> sint e)"
| "count_matches (CountSubmittedStatus s e st) r \<longleftrightarrow>
     r_proofStatus r = Some st \<and>
     (case r_submitTime r of None \<Rightarrow> False | Some t \<Rightarrow> sint s \<le> sint t \<and> sint t \<le> sint e)"

locale cql_store =
  fixes S :: "'db session"
    and rows :: "'db \<Rightarrow> string \<Rightarrow> row option"
  assumes row_key: "rows db i = Some r \<Longrightarrow> r_id r = i"
    and batch_ok: "ExecuteBatch S ws db = (db', None) \<Longrightarrow> distinct (map write_key ws) \<Longrightarrow>
        rows db' = fold upsert ws (rows db)"
    and exec_ok: "Exec S w db = (db', None) \<Longrightarrow> rows db' = upsert w (rows db)"
    and one_ok: "ScanOne S gocql_One (WhereId i) db = Inr r \<Longrightarrow> rows db i = Some r"
    and iter_ok: "IterRows S c None db = (rs, None) \<Longrightarrow>
        distinct (map r_id rs) \<and> set rs = {r \<in> ran (rows db). row_matches c r}"
    and iter_limit: "IterRows S c (Some n) db = (rs, None) \<Longrightarrow>
        distinct (map r_id rs) \<and> set rs \<subseteq> {r \<in> ran (rows db). row_matches c r} \<and> length rs \<le> nat (sint n)"
    and count_ok: "ScanCount S gocql_One q db = Inr n \<Longrightarrow> n = word_of_nat (card {r \<in> ran (rows db). count_matches q r})"

section \<open>The persister implements the interface\<close>

definition table_of :: "(string \<Rightarrow> row option) \<Rightarrow> table" where
  "table_of t i = map_option scan_row (t i)"

lemma scan_null_row: "scan_row (null_row i) = zero_doc\<lparr>Id := i\<rparr>"
  by (simp add: scan_row_def null_row_def zero_doc_def)

lemma table_of_put:
  assumes "\<And>i r. t i = Some r \<Longrightarrow> r_id r = i"
  shows "table_of (upsert (put_statement d) t) = put_row d (table_of t)"
  using assms by (auto simp: fun_eq_iff table_of_def upsert_def put_statement_def put_row_def Let_def
      scan_null_row scan_row_def null_row_def zero_doc_def split: option.splits)

lemma table_of_prove:
  assumes "\<And>i r. t i = Some r \<Longrightarrow> r_id r = i"
  shows "table_of (upsert (UpdateProof dg now tx ALREADY_PROOFED i) t) = prove_row now dg tx i (table_of t)"
  using assms by (auto simp: fun_eq_iff table_of_def upsert_def prove_row_def Let_def
      scan_row_def null_row_def zero_doc_def split: option.splits)

lemma table_of_sign:
  assumes "\<And>i r. t i = Some r \<Longrightarrow> r_id r = i"
  shows "table_of (upsert (UpdateSign sg i) t) = sign_row i sg (table_of t)"
  using assms by (auto simp: fun_eq_iff table_of_def upsert_def sign_row_def Let_def
      scan_row_def null_row_def zero_doc_def split: option.splits)

lemma write_row_id [simp]: "r_id (write_row w r) = r_id r"
  by (cases w) simp_all

lemma upsert_keys:
  assumes "\<And>i r. t i = Some r \<Longrightarrow> r_id r = i" and "upsert w t i = Some r"
  shows "r_id r = i"
  using assms by (auto simp: upsert_def null_row_def split: if_splits option.splits)

lemma table_of_fold_put:
  assumes "\<And>i r. t i = Some r \<Longrightarrow> r_id r = i"
  shows "table_of (fold upsert (map put_statement ds) t) = fold put_row ds (table_of t)"
  using assms
proof (induction ds arbitrary: t)
  case (Cons d ds)
  have "table_of (fold upsert (map put_statement ds) (upsert (put_statement d) t))
      = fold put_row ds (table_of (upsert (put_statement d) t))"
    by (rule Cons.IH) (rule upsert_keys [OF Cons.prems])
  then show ?case by (simp add: table_of_put [OF Cons.prems])
qed simp

lemma table_of_fold_prove:
  assumes "\<And>i r. t i = Some r \<Longrightarrow> r_id r = i"
  shows "table_of (fold upsert (map (UpdateProof dg now tx ALREADY_PROOFED) ids) t)
       = fold (prove_row now dg tx) ids (table_of t)"
  using assms
proof (induction ids arbitrary: t)
  case (Cons i ids)
  let ?t = "upsert (UpdateProof dg now tx ALREADY_PROOFED i) t"
  have "table_of (fold upsert (map (UpdateProof dg now tx ALREADY_PROOFED) ids) ?t)
      = fold (prove_row now dg tx) ids (table_of ?t)"
    by (rule Cons.IH) (rule upsert_keys [OF Cons.prems])
  then show ?case by (simp add: table_of_prove [OF Cons.prems])
qed simp

lemma iterToDocs_Inr: "iterToDocs it = Inr ds \<longleftrightarrow> (\<exists>rs. it = (rs, None) \<and> ds = map scan_row rs)"
  by (cases it) (auto simp: iterToDocs_def split: option.splits)

lemma scan_row_id [simp]: "Id (scan_row r) = r_id r"
  by (simp add: scan_row_def)

context cql_store
begin

lemma keys: "rows db i = Some r \<Longrightarrow> r_id r = i"
  by (rule row_key)

lemma scanned_docs:
  assumes "IterRows S w None db = (rs, None)"
    and "\<And>r. row_matches w r \<longleftrightarrow> Q (scan_row r)"
  shows "distinct (map scan_row rs) \<and> set (map scan_row rs) = {d \<in> ran (table_of (rows db)). Q d}"
proof -
  have "inj_on scan_row (set rs)"
  proof (rule inj_on_imageI2)
    have "Id \<circ> scan_row = r_id" by (simp add: fun_eq_iff)
    then show "inj_on (Id \<circ> scan_row) (set rs)"
      using conjunct1 [OF iter_ok [OF assms(1)]] by (simp add: distinct_map)
  qed
  moreover have "ran (table_of (rows db)) = scan_row ` ran (rows db)"
    by (auto simp: ran_def table_of_def)
  ultimately show ?thesis
    using iter_ok [OF assms(1)] assms(2) by (auto simp: distinct_map)
qed

end

sublocale cql_store \<subseteq> persist_contract "cassandra_persister S" "\<lambda>db. table_of (rows db)"
  "\<lambda>ds db. snd (ExecuteBatch S (map put_statement ds) db) = None"
proof unfold_locales
  fix p i d
  show "table_of (rows p) i = Some d \<Longrightarrow> Id d = i"
    by (auto simp: table_of_def dest: keys)
next
  fix ds p
  assume "snd (ExecuteBatch S (map put_statement ds) p) = None" and d: "distinct (map Id ds)"
  then obtain p' where b: "ExecuteBatch S (map put_statement ds) p = (p', None)"
    by (metis prod.collapse)
  have "map write_key (map put_statement ds) = map Id ds"
    by (simp add: put_statement_def)
  then have "rows p' = fold upsert (map put_statement ds) (rows p)"
    using batch_ok [OF b] d by (simp only: simp_thms)
  then show "table_of (rows (fst (PutDocsIntoDB (cassandra_persister S) ds p)))
      = fold put_row ds (table_of (rows p))"
    using table_of_fold_put [OF keys] b by (simp add: cassandra_persister_def cas_PutDocsIntoDB_def)
next
  fix now ids dg tx p p'
  assume a: "SetDocsBlockDigest (cassandra_persister S) now ids dg tx p = (p', None)" and d: "distinct ids"
  show "table_of (rows p') = fold (prove_row now dg tx) ids (table_of (rows p))"
  proof (cases "ids = []")
    case True
    with a show ?thesis by (simp add: cassandra_persister_def cas_SetDocsBlockDigest_def)
  next
    case False
    let ?ws = "map (UpdateProof dg now tx ALREADY_PROOFED) ids"
    have b: "ExecuteBatch S ?ws p = (p', None)"
      using a False by (simp add: cassandra_persister_def cas_SetDocsBlockDigest_def)
    have "map write_key ?ws = ids" by (simp add: comp_def)
    then have "rows p' = fold upsert ?ws (rows p)"
      using batch_ok [OF b] d by simp
    then show ?thesis using table_of_fold_prove [OF keys] by simp
  qed
next
  fix i sg p p'
  assume "SetDocSignature (cassandra_persister S) i sg p = (p', None)"
  then have "Exec S (UpdateSign sg i) p = (p', None)"
    by (simp add: cassandra_persister_def cas_SetDocSignature_def split: if_splits)
  then show "table_of (rows p') = sign_row i sg (table_of (rows p))"
    using table_of_sign [OF keys] exec_ok by simp
next
  fix i p d
  assume "GetDocFromDBByDocID (cassandra_persister S) i p = Inr d"
  then show "table_of (rows p) i = Some d"
    by (auto simp: cassandra_persister_def cas_GetDocFromDBByDocID_def table_of_def
        split: if_splits sum.splits dest: one_ok)
next
  fix dg p ds
  assume "FindDocsByBlockDigest (cassandra_persister S) dg p = Inr ds"
  then obtain rs where "dg \<noteq> []" "IterRows S (WhereBlockDigest dg) None p = (rs, None)" "ds = map scan_row rs"
    by (auto simp: cassandra_persister_def cas_FindDocsByBlockDigest_def iterToDocs_Inr split: if_splits)
  then show "distinct ds \<and> set ds = {d \<in> ran (table_of (rows p)). BlockDigest d = dg}"
    using scanned_docs [of "WhereBlockDigest dg" p rs "\<lambda>d. BlockDigest d = dg"]
    by (auto simp: scan_row_def split: option.splits)
next
  fix h p ds
  assume "FindDocsByHash (cassandra_persister S) h p = Inr ds"
  then obtain rs where "h \<noteq> []" "IterRows S (WhereHash h) None p = (rs, None)" "ds = map scan_row rs"
    by (auto simp: cassandra_persister_def cas_FindDocsByHash_def iterToDocs_Inr split: if_splits)
  then show "distinct ds \<and> set ds = {d \<in> ran (table_of (rows p)). Hash d = h}"
    using scanned_docs [of "WhereHash h" p rs "\<lambda>d. Hash d = h"]
    by (auto simp: scan_row_def split: option.splits)
qed

context cql_store
begin

lemma contract: "persist_contract (cassandra_persister S) (\<lambda>db. table_of (rows db))
    (\<lambda>ds db. snd (ExecuteBatch S (map put_statement ds) db) = None)"
  by (rule persist_contract_axioms)

end

text \<open>
  Writes that report an error: a logged batch is applied as a whole or not at all, and the driver
  may report an error (a timeout) for a write that takes effect.
\<close>

locale logged_store = cql_store +
  assumes batch_atomic: "ExecuteBatch S ws db = (db', Some e) \<Longrightarrow> distinct (map write_key ws) \<Longrightarrow>
        rows db' = rows db \<or> rows db' = fold upsert ws (rows db)"
    and exec_atomic: "Exec S w db = (db', Some e) \<Longrightarrow> rows db' = rows db \<or> rows db' = upsert w (rows db)"
begin

lemma batch_effect:
  assumes "distinct (map write_key ws)"
  shows "rows (fst (ExecuteBatch S ws db)) = fold upsert ws (rows db) \<or>
     snd (ExecuteBatch S ws db) \<noteq> None \<and> rows (fst (ExecuteBatch S ws db)) = rows db"
proof (cases "ExecuteBatch S ws db")
  case (Pair db' e)
  show ?thesis
  proof (cases e)
    case None
    with Pair batch_ok [OF _ assms, of db db'] show ?thesis by simp
  next
    case (Some x)
    with Pair batch_atomic [OF _ assms, of db db' x] show ?thesis by auto
  qed
qed

lemma put_effect:
  assumes "distinct (map Id ds)"
  shows "table_of (rows (fst (cas_PutDocsIntoDB S ds db)))
     \<in> effect (snd (ExecuteBatch S (map put_statement ds) db) = None) (fold put_row ds) (table_of (rows db))"
proof -
  have "map write_key (map put_statement ds) = map Id ds" by (simp add: put_statement_def)
  then have "distinct (map write_key (map put_statement ds))" using assms by (simp only:)
  from batch_effect [OF this, of db] show ?thesis
    using table_of_fold_put [OF keys] by (auto simp: effect_def cas_PutDocsIntoDB_def)
qed

lemma prove_effect:
  assumes "distinct ids"
  shows "table_of (rows (fst (cas_SetDocsBlockDigest S now ids dg tx db)))
     \<in> effect (snd (cas_SetDocsBlockDigest S now ids dg tx db) = None) (fold (prove_row now dg tx) ids) (table_of (rows db))"
proof (cases "ids = []")
  case False
  have "distinct (map write_key (map (UpdateProof dg now tx ALREADY_PROOFED) ids))"
    using assms by (simp add: comp_def)
  from batch_effect [OF this, of db] show ?thesis
    using table_of_fold_prove [OF keys] False by (auto simp: effect_def cas_SetDocsBlockDigest_def)
qed (simp add: effect_def cas_SetDocsBlockDigest_def)

lemma sign_effect:
  "\<exists>ok. table_of (rows (fst (cas_SetDocSignature S i sg db))) \<in> effect ok (sign_row i sg) (table_of (rows db))"
proof -
  obtain db' e where "Exec S (UpdateSign sg i) db = (db', e)" by (metis prod.collapse)
  then have "rows (fst (Exec S (UpdateSign sg i) db)) = rows db \<or>
      rows (fst (Exec S (UpdateSign sg i) db)) = upsert (UpdateSign sg i) (rows db)"
    using exec_ok exec_atomic by (cases e) auto
  then have "table_of (rows (fst (cas_SetDocSignature S i sg db))) \<in> effect False (sign_row i sg) (table_of (rows db))"
    using table_of_sign [OF keys] by (auto simp: effect_def cas_SetDocSignature_def)
  then show ?thesis by blast
qed

end

text \<open>
  What a session owes the refinement of the service: for the batches of documents that satisfy \<open>Q\<close>,
  a confirmed write took effect and an unconfirmed one may have.
\<close>

locale effective_store =
  fixes S :: "'db session"
    and rows :: "'db \<Rightarrow> string \<Rightarrow> row option"
    and Q :: "document list \<Rightarrow> bool"
  assumes put_done: "Q ds \<Longrightarrow> table_of (rows (fst (cas_PutDocsIntoDB S ds db)))
        \<in> effect (snd (ExecuteBatch S (map put_statement ds) db) = None) (fold put_row ds) (table_of (rows db))"
    and prove_done: "Q ds \<Longrightarrow> table_of (rows (fst (cas_SetDocsBlockDigest S now (map Id ds) dg tx db)))
        \<in> effect (snd (cas_SetDocsBlockDigest S now (map Id ds) dg tx db) = None)
             (fold (prove_row now dg tx) (map Id ds)) (table_of (rows db))"
    and sign_done: "\<exists>ok. table_of (rows (fst (cas_SetDocSignature S i sg db))) \<in> effect ok (sign_row i sg) (table_of (rows db))"

sublocale logged_store \<subseteq> unique: effective_store S rows "\<lambda>ds. distinct (map Id ds)"
  by unfold_locales (auto intro: put_effect prove_effect sign_effect)

text \<open>
  Batches with copies of a statement, which arise when the broker delivers a message again: all
  statements of a batch carry one timestamp, so when those for the same row are equal the batch
  does what a single one of them does.
\<close>

definition conflict_free :: "cql_write list \<Rightarrow> bool" where
  "conflict_free ws \<longleftrightarrow> inj_on write_key (set ws)"

locale merging_store = logged_store +
  assumes merge_ok: "ExecuteBatch S ws db = (db', None) \<Longrightarrow> conflict_free ws \<Longrightarrow> rows db' = fold upsert ws (rows db)"
    and merge_atomic: "ExecuteBatch S ws db = (db', Some e) \<Longrightarrow> conflict_free ws \<Longrightarrow>
        rows db' = rows db \<or> rows db' = fold upsert ws (rows db)"
begin

lemma merge_effect:
  assumes "conflict_free ws"
  shows "rows (fst (ExecuteBatch S ws db)) = fold upsert ws (rows db) \<or>
     snd (ExecuteBatch S ws db) \<noteq> None \<and> rows (fst (ExecuteBatch S ws db)) = rows db"
proof (cases "snd (ExecuteBatch S ws db)")
  case None
  with merge_ok [OF _ assms, of db] show ?thesis by (metis prod.collapse)
next
  case (Some e)
  with merge_atomic [OF _ assms, of db] show ?thesis by (metis option.discI prod.collapse)
qed

lemma put_merged:
  assumes "agree ds"
  shows "table_of (rows (fst (cas_PutDocsIntoDB S ds db)))
     \<in> effect (snd (ExecuteBatch S (map put_statement ds) db) = None) (fold put_row ds) (table_of (rows db))"
proof -
  have "conflict_free (map put_statement ds)"
    using assms by (auto simp: conflict_free_def agree_def put_statement_def inj_on_def)
  from merge_effect [OF this, of db] show ?thesis
    using table_of_fold_put [OF keys] by (auto simp: effect_def cas_PutDocsIntoDB_def)
qed

lemma prove_merged:
  "table_of (rows (fst (cas_SetDocsBlockDigest S now ids dg tx db)))
     \<in> effect (snd (cas_SetDocsBlockDigest S now ids dg tx db) = None) (fold (prove_row now dg tx) ids) (table_of (rows db))"
proof (cases "ids = []")
  case False
  have "conflict_free (map (UpdateProof dg now tx ALREADY_PROOFED) ids)"
    by (auto simp: conflict_free_def inj_on_def)
  from merge_effect [OF this, of db] show ?thesis
    using table_of_fold_prove [OF keys] False by (auto simp: effect_def cas_SetDocsBlockDigest_def)
qed (simp add: effect_def cas_SetDocsBlockDigest_def)

end

sublocale merging_store \<subseteq> repeated: effective_store S rows agree
  by unfold_locales (auto intro: put_merged prove_merged sign_effect)

context logged_store
begin

lemma effective: "effective_store S rows (\<lambda>ds. distinct (map Id ds))"
  by (rule unique.effective_store_axioms)

end

context merging_store
begin

lemma merging: "effective_store S rows agree"
  by (rule repeated.effective_store_axioms)

end

section \<open>A table in memory\<close>

text \<open>
  A session over an association list of rows, newest first, that always answers: it satisfies
  \<open>cql_store\<close>, so the contract can be met, and it serves as the concrete store of the examples.
\<close>

type_synonym memdb = "row list"

definition mem_rows :: "memdb \<Rightarrow> string \<Rightarrow> row option" where
  "mem_rows db = map_of (map (\<lambda>r. (r_id r, r)) db)"

definition mem_all :: "memdb \<Rightarrow> row list" where
  "mem_all db = List.map_filter (mem_rows db) (remdups (map r_id db))"

definition mem_write :: "cql_write \<Rightarrow> memdb \<Rightarrow> memdb" where
  "mem_write w db =
     write_row w (case mem_rows db (write_key w) of None \<Rightarrow> null_row (write_key w) | Some r \<Rightarrow> r) # db"

definition mem_session :: "memdb session" where
  "mem_session = \<lparr>ExecuteBatch = (\<lambda>ws db. (fold mem_write ws db, None)),
     Exec = (\<lambda>w db. (mem_write w db, None)),
     ScanOne = (\<lambda>cs w db. case filter (row_matches w) (mem_all db) of [] \<Rightarrow> Inl ''not found'' | r # rs \<Rightarrow> Inr r),
     IterRows = (\<lambda>w lim db. (let rs = filter (row_matches w) (mem_all db)
                  in (case lim of None \<Rightarrow> rs | Some n \<Rightarrow> take (nat (sint n)) rs), None)),
     ScanCount = (\<lambda>cs c db. Inr (word_of_nat (length (filter (count_matches c) (mem_all db)))))\<rparr>"

lemma mem_rows_key: "mem_rows db i = Some r \<Longrightarrow> r_id r = i"
  by (auto simp: mem_rows_def dest!: map_of_SomeD)

lemma mem_rows_write: "mem_rows (mem_write w db) = upsert w (mem_rows db)"
  using mem_rows_key [of db]
  by (auto simp: fun_eq_iff mem_write_def upsert_def mem_rows_def [of "_ # _"] mem_rows_def [symmetric]
      null_row_def split: option.splits)

lemma mem_rows_fold: "mem_rows (fold mem_write ws db) = fold upsert ws (mem_rows db)"
  by (induction ws arbitrary: db) (auto simp: mem_rows_write)

lemma mem_all_ids: "map r_id (mem_all db) = remdups (map r_id db)"
proof -
  have "map r_id (List.map_filter (mem_rows db) is) = is" if "set is \<subseteq> dom (mem_rows db)" for "is"
    using that by (induction "is") (auto simp: List.map_filter_def dest: mem_rows_key)
  moreover have "dom (mem_rows db) = r_id ` set db"
    by (simp add: mem_rows_def dom_map_of_conv_image_fst image_image)
  ultimately show ?thesis by (simp add: mem_all_def)
qed

lemma set_mem_all: "set (mem_all db) = ran (mem_rows db)"
proof -
  have "set (mem_all db) = the ` mem_rows db ` {i \<in> r_id ` set db. mem_rows db i \<noteq> None}"
    by (simp add: mem_all_def List.map_filter_def image_comp)
  also have "r_id ` set db = dom (mem_rows db)"
    by (simp add: mem_rows_def dom_map_of_conv_image_fst image_image)
  also have "the ` mem_rows db ` {i \<in> dom (mem_rows db). mem_rows db i \<noteq> None} = ran (mem_rows db)"
    by (force simp: ran_def dom_def)
  finally show ?thesis .
qed

lemma distinct_filter_ids: "distinct (map r_id xs) \<Longrightarrow> distinct (map r_id (filter Q xs))"
  by (induction xs) auto

interpretation memdb: merging_store mem_session mem_rows
proof unfold_locales
  fix q n and db :: memdb
  have "distinct (mem_all db)"
    using mem_all_ids [of db] by (metis distinct_map distinct_remdups)
  then have "card {r \<in> ran (mem_rows db). count_matches q r} = length (filter (count_matches q) (mem_all db))"
    by (metis distinct_card distinct_filter set_filter set_mem_all)
  then show "ScanCount mem_session gocql_One q db = Inr n \<Longrightarrow> n = word_of_nat (card {r \<in> ran (mem_rows db). count_matches q r})"
    by (simp add: mem_session_def)
next
  fix i r and db :: memdb
  show "mem_rows db i = Some r \<Longrightarrow> r_id r = i" by (rule mem_rows_key)
next
  fix ws and db db' :: memdb
  show "ExecuteBatch mem_session ws db = (db', None) \<Longrightarrow> mem_rows db' = fold upsert ws (mem_rows db)"
    by (auto simp: mem_session_def mem_rows_fold)
next
  fix w and db db' :: memdb
  show "Exec mem_session w db = (db', None) \<Longrightarrow> mem_rows db' = upsert w (mem_rows db)"
    by (auto simp: mem_session_def mem_rows_write)
next
  fix i r and db :: memdb
  assume "ScanOne mem_session gocql_One (WhereId i) db = Inr r"
  then have "r \<in> set (filter (row_matches (WhereId i)) (mem_all db))"
    unfolding mem_session_def
    by (cases "filter (row_matches (WhereId i)) (mem_all db)") simp_all
  then have "r \<in> ran (mem_rows db)" "r_id r = i" by (auto simp: set_mem_all)
  then show "mem_rows db i = Some r" by (auto simp: ran_def dest: mem_rows_key)
next
  fix w rs and db :: memdb
  assume "IterRows mem_session w None db = (rs, None)"
  then have "rs = filter (row_matches w) (mem_all db)" by (simp add: mem_session_def Let_def)
  then show "distinct (map r_id rs) \<and> set rs = {r \<in> ran (mem_rows db). row_matches w r}"
    by (auto simp: set_mem_all mem_all_ids intro!: distinct_filter_ids)
next
  fix w n rs and db :: memdb
  assume "IterRows mem_session w (Some n) db = (rs, None)"
  then have rs: "rs = take (nat (sint n)) (filter (row_matches w) (mem_all db))"
    by (simp add: mem_session_def Let_def)
  have "distinct (map r_id (filter (row_matches w) (mem_all db)))"
    by (rule distinct_filter_ids) (simp add: mem_all_ids)
  then have "distinct (map r_id rs)" unfolding rs by (metis distinct_take take_map)
  then show "distinct (map r_id rs) \<and> set rs \<subseteq> {r \<in> ran (mem_rows db). row_matches w r} \<and> length rs \<le> nat (sint n)"
    by (auto simp: rs set_mem_all dest: in_set_takeD)
qed (auto simp: mem_session_def mem_rows_fold)

section \<open>Properties\<close>

text \<open>
  C23. What was stored is what is read: a document that was not in the table and whose batch was
  executed reads back with its identifier, hash, times, metadata and application, as not yet
  proofed and without any trace of a proof or signature.
\<close>

theorem put_then_get:
  assumes "cql_store S rows" and "ExecuteBatch S (map put_statement ds) db = (db', None)"
    and "distinct (map Id ds)" and "d \<in> set ds" and "rows db (Id d) = None"
    and "cas_GetDocFromDBByDocID S (Id d) db' = Inr e"
  shows "fst (cas_PutDocsIntoDB S ds db) = db' \<and>
     e = d\<lparr>BlockDigest := [], ProofTime := 0, Txid := [], Sign := [], ProofStatus := NOT_PROOFED\<rparr>"
proof -
  have put: "fst (cas_PutDocsIntoDB S ds db) = db'"
    using assms(2) by (simp add: cas_PutDocsIntoDB_def)
  then have "table_of (rows db') = fold put_row ds (table_of (rows db))"
    using persist_contract.put_ok [OF cql_store.contract [OF assms(1)], of ds db] assms(2,3) by (simp add: cassandra_persister_def)
  moreover have "table_of (rows db') (Id d) = Some e"
    using persist_contract.by_id [OF cql_store.contract [OF assms(1)], of "Id d" db' e] assms(6) by (simp add: cassandra_persister_def)
  ultimately have "put_row d (table_of (rows db)) (Id d) = Some e"
    using fold_put_row [OF assms(3,4)] by metis
  then show ?thesis
    using put assms(5) by (auto simp: put_row_def table_of_def zero_doc_def)
qed

definition stored_doc :: document where
  "stored_doc = zero_doc\<lparr>Id := ''i'', Hash := ''h'', SubmitTime := 5, ProofStatus := NOT_PROOFED\<rparr>"

definition stored_db :: memdb where
  "stored_db = fst (ExecuteBatch mem_session (map put_statement [stored_doc]) [])"

lemma stored_db: "ExecuteBatch mem_session (map put_statement [stored_doc]) [] = (stored_db, None)"
  by (simp add: stored_db_def mem_session_def)

theorem put_then_get_witness:
  "cas_GetDocFromDBByDocID mem_session ''i'' stored_db = Inr stored_doc \<and>
   stored_doc = stored_doc\<lparr>BlockDigest := [], ProofTime := 0, Txid := [], Sign := [], ProofStatus := NOT_PROOFED\<rparr>"
proof
  show get: "cas_GetDocFromDBByDocID mem_session ''i'' stored_db = Inr stored_doc" by code_simp
  have "Id stored_doc = ''i''" by code_simp
  with put_then_get [OF memdb.cql_store_axioms stored_db, of stored_doc stored_doc] get
  show "stored_doc = stored_doc\<lparr>BlockDigest := [], ProofTime := 0, Txid := [], Sign := [], ProofStatus := NOT_PROOFED\<rparr>"
    by (simp add: mem_rows_def)
qed

text \<open>
  C38. The order of storing and proving a document matters. Both orders leave the same row but
  for the status: if the proof is recorded first, the later insert sets the status back, and
  the row has a block digest and says \<open>NOT_PROOFED\<close>.
\<close>

theorem late_put_resets_status:
  assumes "cql_store S rows"
    and "cas_SetDocsBlockDigest S now [Id d] dg tx db = (db1, None)"
    and "ExecuteBatch S [put_statement d] db1 = (db2, None)"
    and "ExecuteBatch S [put_statement d] db = (db3, None)"
    and "cas_SetDocsBlockDigest S now [Id d] dg tx db3 = (db4, None)"
  shows "\<exists>e. table_of (rows db4) (Id d) = Some e \<and> ProofStatus e = ALREADY_PROOFED \<and> BlockDigest e = dg \<and>
             table_of (rows db2) (Id d) = Some (e\<lparr>ProofStatus := NOT_PROOFED\<rparr>)"
proof -
  have put: "table_of (rows b) = put_row d (table_of (rows a))"
    if "ExecuteBatch S [put_statement d] a = (b, None)" for a b
    using persist_contract.put_ok [OF cql_store.contract [OF assms(1)], of "[d]" a] that
    by (simp add: cassandra_persister_def cas_PutDocsIntoDB_def)
  have prove: "table_of (rows b) = prove_row now dg tx (Id d) (table_of (rows a))"
    if "cas_SetDocsBlockDigest S now [Id d] dg tx a = (b, None)" for a b
    using persist_contract.prove_ok [OF cql_store.contract [OF assms(1)], of now "[Id d]" dg tx a b] that
    by (simp add: cassandra_persister_def)
  have "table_of (rows db2) = put_row d (prove_row now dg tx (Id d) (table_of (rows db)))"
    "table_of (rows db4) = prove_row now dg tx (Id d) (put_row d (table_of (rows db)))"
    using put [OF assms(3)] prove [OF assms(2)] put [OF assms(4)] prove [OF assms(5)] by simp_all
  then show ?thesis
    by (auto simp: put_row_def prove_row_def Let_def split: option.splits)
qed

theorem late_put_resets_status_witness:
  "\<exists>e. table_of (mem_rows (fst (cas_SetDocsBlockDigest mem_session 9 [Id stored_doc] ''dg'' ''tx'' stored_db))) (Id stored_doc) = Some e \<and>
     ProofStatus e = ALREADY_PROOFED \<and> BlockDigest e = ''dg'' \<and>
     table_of (mem_rows (fst (ExecuteBatch mem_session [put_statement stored_doc]
        (fst (cas_SetDocsBlockDigest mem_session 9 [Id stored_doc] ''dg'' ''tx'' []))))) (Id stored_doc)
       = Some (e\<lparr>ProofStatus := NOT_PROOFED\<rparr>)"
proof -
  have ok: "snd (ExecuteBatch mem_session ws a) = None" "snd (cas_SetDocsBlockDigest mem_session n is g t a) = None"
    for ws a n "is" g t
    by (simp_all add: mem_session_def cas_SetDocsBlockDigest_def)
  show ?thesis
    by (rule late_put_resets_status [OF memdb.cql_store_axioms, where db = "[]" and now = 9 and tx = "''tx''"])
       (use stored_db ok in \<open>simp_all add: prod_eq_iff\<close>)
qed

text \<open>
  C25. The statistics of an interval count the stored documents submitted in it, all of them as
  waiting: when both counts are answered, the total is the number of rows in the interval
  (modulo \<open>2 ^ 64\<close>), the number of proofed documents is zero, and the number of waiting ones is the
  total, however many of them were proofed, because the count of the waiting documents is
  overwritten by the difference of the total and the never assigned number of proofed ones.
\<close>

theorem DocProofStat_counts:
  assumes "cql_store S rows"
    and "st = (if sint (UnixNano t1) \<le> 0 then 1 else UnixNano t1)"
    and "en = (if sint (UnixNano t2) \<le> 0 then MaxInt64 else UnixNano t2)"
    and "ScanCount S gocql_One (CountSubmitted st en) db = Inr n" and "ScanCount S gocql_One (CountSubmittedStatus st en NOT_PROOFED) db = Inr k"
    and "inside = {r \<in> ran (rows db). \<exists>t. r_submitTime r = Some t \<and> sint st \<le> sint t \<and> sint t \<le> sint en}"
  shows "cas_DocProofStat S t1 t2 db = \<lparr>StartTime = st, EndTime = en, TotalDocs = word_of_nat (card inside),
     WaitDocs = word_of_nat (card inside), ProofedDocs = 0\<rparr>"
proof -
  have "inside = {r \<in> ran (rows db). count_matches (CountSubmitted st en) r}"
    unfolding assms(6) by (auto split: option.splits)
  then have n: "n = word_of_nat (card inside)"
    using cql_store.count_ok [OF assms(1,4)] by simp
  show ?thesis
    unfolding cas_DocProofStat_def Let_def assms(2,3) [symmetric] by (simp add: assms(4,5) n)
qed

theorem DocProofStat_counts_witness:
  "cas_DocProofStat mem_session (time_Unix 0) (time_Unix 0) (fst (cas_SetDocsBlockDigest mem_session 9 [''i''] ''dg'' ''tx'' stored_db))
     = \<lparr>StartTime = 1, EndTime = MaxInt64, TotalDocs = 1, WaitDocs = 1, ProofedDocs = 0\<rparr>"
proof -
  let ?db = "fst (cas_SetDocsBlockDigest mem_session 9 [''i''] ''dg'' ''tx'' stored_db)"
  have z: "sint (UnixNano (time_Unix 0)) \<le> 0" by code_simp
  have q: "ScanCount mem_session gocql_One q ?db = Inr (word_of_nat (length (filter (count_matches q) (mem_all ?db))))" for q
    by (simp add: mem_session_def)
  let ?in = "{r \<in> ran (mem_rows ?db). \<exists>t. r_submitTime r = Some t \<and> sint (1 :: i64) \<le> sint t \<and> sint t \<le> sint MaxInt64}"
  have "mem_rows ?db = [''i'' \<mapsto> scanned]" if "scanned = (write_row (UpdateProof ''dg'' 9 ''tx'' ALREADY_PROOFED ''i'')
       (write_row (put_statement stored_doc) (null_row ''i'')))" for scanned
    by (simp add: that cas_SetDocsBlockDigest_def mem_session_def stored_db_def mem_rows_write mem_rows_def [of "[]"]
        upsert_def fun_eq_iff put_statement_def stored_doc_def)
  then have "?in = {write_row (UpdateProof ''dg'' 9 ''tx'' ALREADY_PROOFED ''i'') (write_row (put_statement stored_doc) (null_row ''i''))}"
    by (auto simp: ran_def put_statement_def stored_doc_def MaxInt64_def)
  then have "card ?in = 1" by simp
  moreover have "cas_DocProofStat mem_session (time_Unix 0) (time_Unix 0) ?db = \<lparr>StartTime = 1, EndTime = MaxInt64,
      TotalDocs = word_of_nat (card ?in), WaitDocs = word_of_nat (card ?in), ProofedDocs = 0\<rparr>"
    by (rule DocProofStat_counts [OF memdb.cql_store_axioms _ _ q q refl]) (simp_all add: z)
  ultimately show ?thesis by simp
qed

end
