(* ===== verification/MemoryCache.thy ===== *)
theory MemoryCache
  imports Cache
begin

text \<open>
  The in-memory cache, \<open>cache/memory/memory.go\<close>: three nested maps (documents by topic and did,
  subscriptions, read marks), one operation per method. Every method runs under the mutex (\<open>Get\<close>
  after it has checked and made its subscription, which no other method undoes), so an operation is
  one step. A missing key of a Go map reads as the zero value.
\<close>

record MemoryCache =
  vals :: "string \<Rightarrow> (string \<Rightarrow> document option) option"
  customerTopics :: "string \<Rightarrow> (string \<Rightarrow> bool option) option"
  customerReaded :: "string \<Rightarrow> (string \<Rightarrow> (string \<Rightarrow> bool option) option) option"

definition NewMemoryCache :: MemoryCache where
  "NewMemoryCache = \<lparr>vals = Map.empty, customerTopics = Map.empty, customerReaded = Map.empty\<rparr>"

definition Topic :: "i64 \<Rightarrow> string" where
  "Topic d = ''memory_'' @ dur_String d"

definition Put :: "digests \<Rightarrow> gotime \<Rightarrow> string \<Rightarrow> bytes \<Rightarrow> string \<Rightarrow> i64 \<Rightarrow> MemoryCache
    \<Rightarrow> MemoryCache \<times> (err + document) outcome" where
  "Put D now appName raw metadata waitDuration m =
     (let topic = Topic waitDuration;
          docs = (case vals m topic of None \<Rightarrow> Map.empty | Some ds \<Rightarrow> ds);
          doc = new_doc D now appName raw metadata waitDuration
      in (m\<lparr>vals := (vals m)(topic \<mapsto> docs(Id doc \<mapsto> doc))\<rparr>, Ret (Inr doc)))"

definition Subscribe :: "string \<Rightarrow> string \<Rightarrow> MemoryCache \<Rightarrow> MemoryCache \<times> bool" where
  "Subscribe customer topic m =
     (let ts = (case customerTopics m customer of None \<Rightarrow> Map.empty | Some ts \<Rightarrow> ts)
      in (m\<lparr>customerTopics := (customerTopics m)(customer \<mapsto> ts(topic \<mapsto> True))\<rparr>, True))"

definition subscribed :: "MemoryCache \<Rightarrow> string \<Rightarrow> string \<Rightarrow> bool" where
  "subscribed m customer topic =
     (case customerTopics m customer of None \<Rightarrow> False | Some ts \<Rightarrow> ts topic = Some True)"

definition readed :: "MemoryCache \<Rightarrow> string \<Rightarrow> string \<Rightarrow> string \<Rightarrow> bool" where
  "readed m customer topic did =
     (case customerReaded m customer of None \<Rightarrow> False
      | Some ts \<Rightarrow> (case ts topic of None \<Rightarrow> False | Some ids \<Rightarrow> ids did = Some True))"

definition mark_readed :: "string \<Rightarrow> string \<Rightarrow> string \<Rightarrow> MemoryCache \<Rightarrow> MemoryCache" where
  "mark_readed customer topic did m =
     (let ts = (case customerReaded m customer of None \<Rightarrow> Map.empty | Some ts \<Rightarrow> ts);
          ids = (case ts topic of None \<Rightarrow> Map.empty | Some ids \<Rightarrow> ids)
      in m\<lparr>customerReaded := (customerReaded m)(customer \<mapsto> ts(topic \<mapsto> ids(did \<mapsto> True)))\<rparr>)"

definition delete_val :: "string \<Rightarrow> string \<Rightarrow> MemoryCache \<Rightarrow> MemoryCache" where
  "delete_val topic did m =
     (case vals m topic of None \<Rightarrow> m | Some ds \<Rightarrow> m\<lparr>vals := (vals m)(topic \<mapsto> ds(did := None))\<rparr>)"

text \<open>The body of the \<open>range\<close> loop, over the entries in iteration order.\<close>

fun get_loop :: "string \<Rightarrow> string \<Rightarrow> (string \<times> document) list \<Rightarrow> i64 \<Rightarrow> document list \<Rightarrow> MemoryCache
    \<Rightarrow> MemoryCache \<times> document list" where
  "get_loop customer topic [] cnt docs m = (m, docs)"
| "get_loop customer topic ((did, doc) # rest) cnt docs m =
     (if 0 < sint cnt then
        if readed m customer topic did then get_loop customer topic rest cnt docs m
        else get_loop customer topic rest (cnt - 1) (docs @ [doc])
               (mark_readed customer topic did (delete_val topic did m))
      else (m, docs))"

definition entries :: "string list \<Rightarrow> (string \<Rightarrow> document option) \<Rightarrow> (string \<times> document) list" where
  "entries order ds = List.map_filter (\<lambda>did. map_option (Pair did) (ds did)) order"

text \<open>\<open>order\<close> is the order in which the runtime iterates over the topic's map.\<close>

definition Get :: "string list \<Rightarrow> string \<Rightarrow> string \<Rightarrow> i64 \<Rightarrow> MemoryCache
    \<Rightarrow> MemoryCache \<times> (err + document list) outcome" where
  "Get order customer topic cnt m =
     (let (m1, ok) = (if subscribed m customer topic then (m, True) else Subscribe customer topic m)
      in if \<not> ok then (m1, Ret (Inl (''customer '' @ customer @ '' didn't subscribe topic '' @ topic)))
         else case vals m1 topic of
                None \<Rightarrow> (m1, Ret (Inl (''no such topic '' @ topic)))
              | Some ds \<Rightarrow> (let (m2, docs) = get_loop customer topic (entries order ds) cnt [] m1
                           in (m2, Ret (Inr docs))))"

definition Close :: "MemoryCache \<Rightarrow> MemoryCache" where
  "Close m = m\<lparr>vals := Map.empty\<rparr>"

section \<open>Invariant and abstraction\<close>

definition topic_docs :: "MemoryCache \<Rightarrow> string \<Rightarrow> (string \<Rightarrow> document option)" where
  "topic_docs m topic = (case vals m topic of None \<Rightarrow> Map.empty | Some ds \<Rightarrow> ds)"

definition unread :: "MemoryCache \<Rightarrow> string \<Rightarrow> string \<Rightarrow> string set" where
  "unread m customer topic = {did \<in> dom (topic_docs m topic). \<not> readed m customer topic did}"

definition pending :: "MemoryCache \<Rightarrow> string \<Rightarrow> string \<Rightarrow> document multiset" where
  "pending m customer topic =
     image_mset (\<lambda>did. the (topic_docs m topic did)) (mset_set (unread m customer topic))"

definition cache_inv :: "MemoryCache \<Rightarrow> bool" where
  "cache_inv m \<longleftrightarrow> (\<forall>topic. finite (dom (topic_docs m topic)) \<and>
     (\<forall>did d. topic_docs m topic did = Some d \<longrightarrow> Id d = did))"

definition order_ok :: "string list \<Rightarrow> MemoryCache \<Rightarrow> string \<Rightarrow> bool" where
  "order_ok order m topic \<longleftrightarrow> distinct order \<and> set order = dom (topic_docs m topic)"

lemma cache_inv_New: "cache_inv NewMemoryCache"
  by (simp add: cache_inv_def NewMemoryCache_def topic_docs_def)

lemma topic_docs_Put:
  "topic_docs (fst (Put D now app raw meta w m)) tp =
     (if tp = Topic w then (topic_docs m tp)(Id (new_doc D now app raw meta w) \<mapsto> new_doc D now app raw meta w)
      else topic_docs m tp)"
  by (simp add: Put_def Let_def topic_docs_def)

lemma cache_inv_Put: "cache_inv m \<Longrightarrow> cache_inv (fst (Put D now app raw meta w m))"
  by (auto simp: cache_inv_def topic_docs_Put)

lemma topic_docs_frame [simp]:
  "topic_docs (mark_readed cu tp did m) t = topic_docs m t"
  "topic_docs (fst (Subscribe cu tp m)) t = topic_docs m t"
  by (simp_all add: topic_docs_def mark_readed_def Subscribe_def Let_def)

lemma topic_docs_delete [simp]:
  "topic_docs (delete_val tp did m) t = (if t = tp then (topic_docs m t)(did := None) else topic_docs m t)"
  by (auto simp: topic_docs_def delete_val_def split: option.splits)

lemma readed_frame [simp]:
  "readed (delete_val tp did m) cu t i = readed m cu t i"
  "readed (fst (Subscribe cu' tp m)) cu t i = readed m cu t i"
  by (simp_all add: readed_def delete_val_def Subscribe_def Let_def split: option.splits)

lemma readed_mark [simp]:
  "readed (mark_readed cu' tp did m) cu t i \<longleftrightarrow> (cu = cu' \<and> t = tp \<and> i = did) \<or> readed m cu t i"
  by (auto simp: readed_def mark_readed_def Let_def split: option.splits)

section \<open>The loop of Get\<close>

text \<open>The ids the loop takes: the first \<open>cnt\<close> entries not marked as read.\<close>

definition taken :: "MemoryCache \<Rightarrow> string \<Rightarrow> string \<Rightarrow> (string \<times> document) list \<Rightarrow> i64
    \<Rightarrow> (string \<times> document) list" where
  "taken m customer topic es cnt =
     take (nat (sint cnt)) (filter (\<lambda>(did, d). \<not> readed m customer topic did) es)"

lemma sint_pred: "0 < sint n \<Longrightarrow> sint (n - 1) = sint n - 1" for n :: i64
  using sint_greater_eq [of n] sint_less [of n]
  by (simp add: signed_eq_0_iff signed_minus_1 sint_word_ariths signed_take_bit_int_eq_self)

lemma get_loop_taken:
  assumes "distinct (map fst es)"
  shows "get_loop customer topic es cnt docs m =
     (fold (\<lambda>(did, d) m. mark_readed customer topic did (delete_val topic did m))
           (taken m customer topic es cnt) m,
      docs @ map snd (taken m customer topic es cnt))"
  using assms
proof (induction customer topic es cnt docs m rule: get_loop.induct)
  case (1 customer topic cnt docs m)
  then show ?case by (simp add: taken_def)
next
  case (2 customer topic did doc rest cnt docs m)
  let ?m' = "mark_readed customer topic did (delete_val topic did m)"
  show ?case
  proof (cases "0 < sint cnt")
    case False
    then show ?thesis by (simp add: taken_def)
  next
    case pos: True
    show ?thesis
    proof (cases "readed m customer topic did")
      case True
      with "2.IH"(1) "2.prems" pos show ?thesis by (simp add: taken_def)
    next
      case False
      have "filter (\<lambda>(i, d). \<not> readed ?m' customer topic i) rest
          = filter (\<lambda>(i, d). \<not> readed m customer topic i) rest"
        using "2.prems" by (intro filter_cong) (auto simp: rev_image_eqI)
      moreover have "nat (sint cnt) = Suc (nat (sint (cnt - 1)))"
        using pos by (simp add: sint_pred)
      ultimately have "taken m customer topic ((did, doc) # rest) cnt
          = (did, doc) # taken ?m' customer topic rest (cnt - 1)"
        using False by (simp add: taken_def)
      with "2.IH"(2) "2.prems" pos False show ?thesis by simp
    qed
  qed
qed

abbreviation take_out :: "string \<Rightarrow> string \<Rightarrow> (string \<times> document) list \<Rightarrow> MemoryCache \<Rightarrow> MemoryCache" where
  "take_out customer topic es m \<equiv>
     fold (\<lambda>(did, d) m. mark_readed customer topic did (delete_val topic did m)) es m"

lemma topic_docs_take_out:
  "topic_docs (take_out cu tp es m) t i =
     (if t = tp \<and> i \<in> fst ` set es then None else topic_docs m t i)"
  by (induction es arbitrary: m) auto

lemma readed_take_out:
  "readed (take_out cu tp es m) cu' t i \<longleftrightarrow> (cu' = cu \<and> t = tp \<and> i \<in> fst ` set es) \<or> readed m cu' t i"
proof (induction es arbitrary: m)
  case (Cons e es)
  show ?case by (cases e) (simp add: Cons.IH, blast)
qed simp

lemma entries_eq: "set order \<subseteq> dom ds \<Longrightarrow> entries order ds = map (\<lambda>i. (i, the (ds i))) order"
  by (induction order) (auto simp: entries_def List.map_filter_def)

text \<open>The ids \<open>Get\<close> hands out, and the whole call in terms of them.\<close>

definition got :: "string list \<Rightarrow> string \<Rightarrow> string \<Rightarrow> i64 \<Rightarrow> MemoryCache \<Rightarrow> string list" where
  "got order customer topic cnt m =
     take (nat (sint cnt)) (filter (\<lambda>i. \<not> readed m customer topic i) order)"

abbreviation doc_of :: "MemoryCache \<Rightarrow> string \<Rightarrow> string \<Rightarrow> document" where
  "doc_of m topic i \<equiv> the (topic_docs m topic i)"

lemma Get_got:
  assumes "order_ok order m topic" and "vals m topic \<noteq> None"
  obtains m' where "Get order customer topic cnt m = (m', Ret (Inr (map (doc_of m topic) (got order customer topic cnt m))))"
    and "\<And>t i. topic_docs m' t i =
             (if t = topic \<and> i \<in> set (got order customer topic cnt m) then None else topic_docs m t i)"
    and "\<And>cu t i. readed m' cu t i \<longleftrightarrow>
             (cu = customer \<and> t = topic \<and> i \<in> set (got order customer topic cnt m)) \<or> readed m cu t i"
proof -
  define m1 where "m1 = (if subscribed m customer topic then m else fst (Subscribe customer topic m))"
  obtain ds where ds: "vals m topic = Some ds" using assms(2) by auto
  have m1: "vals m1 topic = Some ds" "topic_docs m1 t = topic_docs m t" "readed m1 cu t i = readed m cu t i" for t cu i
    using ds by (auto simp: m1_def Subscribe_def Let_def topic_docs_def readed_def)
  have td: "topic_docs m topic = ds" using ds by (simp add: topic_docs_def)
  let ?es = "entries order ds" and ?g = "got order customer topic cnt m"
  have es: "?es = map (\<lambda>i. (i, the (ds i))) order"
    using assms(1) td by (intro entries_eq) (simp add: order_ok_def)
  have dist: "distinct (map fst ?es)"
    using assms(1) by (simp add: es order_ok_def comp_def)
  have tk: "taken m1 customer topic ?es cnt = map (\<lambda>i. (i, the (ds i))) ?g"
    by (simp add: taken_def got_def es filter_map take_map m1 comp_def)
  have "get_loop customer topic ?es cnt [] m1 =
      (take_out customer topic (taken m1 customer topic ?es cnt) m1, map (doc_of m topic) ?g)"
    unfolding get_loop_taken [OF dist] by (simp add: tk td)
  then have "Get order customer topic cnt m =
      (take_out customer topic (taken m1 customer topic ?es cnt) m1, Ret (Inr (map (doc_of m topic) ?g)))"
    using m1(1) by (cases "subscribed m customer topic")
      (simp_all add: Get_def Let_def m1_def Subscribe_def)
  then show ?thesis
    by (rule that) (auto simp: topic_docs_take_out readed_take_out tk m1 image_image)
qed

lemma pending_order:
  assumes "order_ok order m topic"
  shows "pending m customer topic = mset (map (doc_of m topic) (filter (\<lambda>i. \<not> readed m customer topic i) order))"
proof -
  have "unread m customer topic = set (filter (\<lambda>i. \<not> readed m customer topic i) order)"
    using assms by (auto simp: unread_def order_ok_def)
  moreover have "distinct (filter (\<lambda>i. \<not> readed m customer topic i) order)"
    using assms by (simp add: order_ok_def)
  ultimately show ?thesis
    by (metis pending_def mset_map mset_set_set)
qed

lemma order_ok_rest:
  assumes "order_ok order m topic"
    and "\<And>t i. topic_docs m' t i = (if t = topic \<and> i \<in> set g then None else topic_docs m t i)"
  shows "order_ok (filter (\<lambda>i. i \<notin> set g) order) m' topic"
  using assms by (auto simp: order_ok_def dom_def split: if_splits)

lemma filter_not_in_take: "distinct xs \<Longrightarrow> filter (\<lambda>i. i \<notin> set (take k xs)) xs = drop k xs"
proof -
  assume d: "distinct xs"
  then have disj: "set (take k xs) \<inter> set (drop k xs) = {}"
    by (rule set_take_disj_set_drop_if_distinct) simp
  have "filter (\<lambda>i. i \<notin> set (take k xs)) (take k xs @ drop k xs) = drop k xs"
    using disj by (simp only: filter_append) (auto intro!: filter_True simp: filter_empty_conv)
  then show ?thesis by simp
qed

lemma pending_Get:
  assumes "order_ok order m topic" and "Get order customer topic cnt m = (m', Ret (Inr ds))"
  shows "pending m customer topic = mset ds + pending m' customer topic"
    and "length ds = min (nat (sint cnt)) (size (pending m customer topic))"
proof -
  have v: "vals m topic \<noteq> None"
    using assms(2) by (auto simp: Get_def Let_def Subscribe_def split: if_splits option.splits)
  obtain m'' where g: "Get order customer topic cnt m
        = (m'', Ret (Inr (map (doc_of m topic) (got order customer topic cnt m))))"
    and td: "\<And>t i. topic_docs m'' t i =
             (if t = topic \<and> i \<in> set (got order customer topic cnt m) then None else topic_docs m t i)"
    and rd: "\<And>cu t i. readed m'' cu t i \<longleftrightarrow>
             (cu = customer \<and> t = topic \<and> i \<in> set (got order customer topic cnt m)) \<or> readed m cu t i"
    by (rule Get_got [OF assms(1) v, where customer = customer and cnt = cnt]) (rule that, assumption+)
  let ?f = "filter (\<lambda>i. \<not> readed m customer topic i) order"
  let ?g = "got order customer topic cnt m"
  have m': "m' = m''" "ds = map (doc_of m topic) ?g" using assms(2) g by auto
  have "filter (\<lambda>i. \<not> readed m'' customer topic i) (filter (\<lambda>i. i \<notin> set ?g) order)
      = filter (\<lambda>i. i \<notin> set ?g) ?f"
    by (auto simp: rd intro: filter_cong)
  also have "\<dots> = drop (nat (sint cnt)) ?f"
    using assms(1) unfolding got_def by (intro filter_not_in_take) (simp add: order_ok_def)
  finally have rest: "filter (\<lambda>i. \<not> readed m'' customer topic i) (filter (\<lambda>i. i \<notin> set ?g) order)
      = drop (nat (sint cnt)) ?f" .
  have same: "doc_of m'' topic i = doc_of m topic i" if "i \<in> set (drop (nat (sint cnt)) ?f)" for i
    using that unfolding rest [symmetric] by (simp add: td)
  have "pending m'' customer topic = mset (map (doc_of m'' topic) (drop (nat (sint cnt)) ?f))"
    unfolding pending_order [OF order_ok_rest [OF assms(1) td]] rest ..
  also have "\<dots> = mset (map (doc_of m topic) (drop (nat (sint cnt)) ?f))"
    using same by (intro arg_cong [where f = mset] map_cong) auto
  finally show "pending m customer topic = mset ds + pending m' customer topic"
    unfolding pending_order [OF assms(1)] m' got_def
    by (metis append_take_drop_id map_append mset_append)
  show "length ds = min (nat (sint cnt)) (size (pending m customer topic))"
    unfolding pending_order [OF assms(1)] m'(2) got_def
    by (simp only: length_map length_take size_mset min.commute)
qed

lemma cache_inv_Get:
  assumes "cache_inv m" and "order_ok order m topic"
  shows "cache_inv (fst (Get order customer topic cnt m))"
proof (cases "vals m topic")
  case None
  then show ?thesis
    using assms(1) by (auto simp: Get_def Let_def Subscribe_def cache_inv_def topic_docs_def split: if_splits)
next
  case (Some ds)
  then obtain m' where "fst (Get order customer topic cnt m) = m'"
    and "\<And>t i. topic_docs m' t i =
             (if t = topic \<and> i \<in> set (got order customer topic cnt m) then None else topic_docs m t i)"
    using Get_got [OF assms(2)] by (metis fst_conv option.distinct(1))
  moreover have "dom (topic_docs m' t) \<subseteq> dom (topic_docs m t)" for t
    using calculation(2) by (auto split: if_splits)
  ultimately show ?thesis
    using assms(1) unfolding cache_inv_def
    by (metis finite_subset option.distinct(1))
qed

interpretation mem: cache_contract D "Put D" Get pending order_ok cache_inv for D
proof unfold_locales
  show "Put D now app raw meta w c = (c', Ret (Inr d)) \<Longrightarrow> d = new_doc D now app raw meta w" for D now app raw meta w c c' d
    by (auto simp: Put_def Let_def)
  show "cache_inv c \<Longrightarrow> cache_inv (fst (Put D now app raw meta w c))" for D now app raw meta w c
    by (rule cache_inv_Put)
  show "cache_inv c \<Longrightarrow> order_ok x c tp \<Longrightarrow> cache_inv (fst (Get x cu tp n c))" for c x tp cu n
    by (rule cache_inv_Get)
  show "cache_inv c \<Longrightarrow> order_ok x c tp \<Longrightarrow> Get x cu tp n c = (c', Ret (Inr ds)) \<Longrightarrow>
      mset ds \<subseteq># pending c cu tp \<and> pending c' cu tp = pending c cu tp - mset ds" for c x tp cu n c' ds
    using pending_Get(1) by simp
  show "cache_inv c \<Longrightarrow> order_ok x c tp \<Longrightarrow> Get x cu tp n c = (c', Ret (Inr ds)) \<Longrightarrow>
      length ds = min (nat (sint n)) (size (pending c cu tp))" for c x tp cu n c' ds
    by (rule pending_Get(2))
qed

lemma pending_topic_docs:
  assumes "cache_inv m" and "d \<in># pending m cu topic"
  shows "topic_docs m topic (Id d) = Some d"
proof -
  have "finite (unread m cu topic)" using assms(1) by (simp add: cache_inv_def unread_def)
  with assms(2) obtain i where "i \<in> unread m cu topic" "d = the (topic_docs m topic i)"
    by (auto simp: pending_def)
  then show ?thesis using assms(1) by (auto simp: unread_def cache_inv_def)
qed

section \<open>Properties\<close>

lemma pending_Put:
  assumes "cache_inv m" and "d = new_doc D now app raw meta w"
    and "topic_docs m (Topic w) (Id d) = None" and "\<not> readed m cu (Topic w) (Id d)"
  shows "pending (fst (Put D now app raw meta w m)) cu (Topic w) = add_mset d (pending m cu (Topic w))"
proof -
  let ?m = "fst (Put D now app raw meta w m)"
  have td: "topic_docs ?m (Topic w) = (topic_docs m (Topic w))(Id d \<mapsto> d)"
    by (simp add: topic_docs_Put assms(2))
  have rd: "readed ?m = readed m"
    by (simp add: fun_eq_iff readed_def Put_def Let_def)
  have un: "unread ?m cu (Topic w) = insert (Id d) (unread m cu (Topic w))"
    using assms(4) by (auto simp: unread_def td rd)
  have "finite (unread m cu (Topic w))" "Id d \<notin> unread m cu (Topic w)"
    using assms(1,3) by (auto simp: unread_def cache_inv_def)
  moreover have "image_mset (\<lambda>i. the (topic_docs ?m (Topic w) i)) (mset_set (unread m cu (Topic w)))
      = image_mset (\<lambda>i. the (topic_docs m (Topic w) i)) (mset_set (unread m cu (Topic w)))"
    using calculation by (intro image_mset_cong) (auto simp: td)
  ultimately show ?thesis
    unfolding pending_def un by (simp add: td)
qed

text \<open>
  C16. \<open>Get\<close> hands out exactly as many unread documents of the topic as it was asked for and
  the topic has, each of them once; what it hands out and what is left is what was pending.
\<close>

theorem memory_Get:
  assumes "cache_inv m" and "order_ok order m topic"
    and "Get order customer topic cnt m = (m', Ret (Inr ds))"
  shows "mset ds + pending m' customer topic = pending m customer topic \<and>
         length ds = min (nat (sint cnt)) (size (pending m customer topic)) \<and> cache_inv m'"
  using mem.get_takes [OF assms] mem.get_count [OF assms] mem.get_inv [OF assms(1,2), of customer cnt]
    assms(3) by simp

text \<open>A cache with one document, put at the start of the epoch with the period 1s.\<close>

definition one_doc_cache :: MemoryCache where
  "one_doc_cache = fst (Put toy_digests (time_Unix 0) ''app'' ''abc'' [] 1000000000 NewMemoryCache)"

definition one_doc :: document where
  "one_doc = new_doc toy_digests (time_Unix 0) ''app'' ''abc'' [] 1000000000"

lemma one_doc_cache:
  "cache_inv one_doc_cache" "order_ok [Id one_doc] one_doc_cache (Topic 1000000000)"
  "vals one_doc_cache = [Topic 1000000000 \<mapsto> [Id one_doc \<mapsto> one_doc]]"
  "customerTopics one_doc_cache = Map.empty" "customerReaded one_doc_cache = Map.empty"
  unfolding one_doc_cache_def one_doc_def
  by (auto intro: cache_inv_Put cache_inv_New simp: order_ok_def topic_docs_Put)
     (simp_all add: Put_def Let_def NewMemoryCache_def topic_docs_def)

lemma Get_one_doc:
  "snd (Get [Id one_doc] ''persister'' (Topic 1000000000) 5 one_doc_cache) = Ret (Inr [one_doc])"
  by (simp add: Get_def subscribed_def one_doc_cache Subscribe_def Let_def entries_def
      List.map_filter_def readed_def)

theorem memory_Get_witness:
  "\<exists>m'. Get [Id one_doc] ''persister'' (Topic 1000000000) 5 one_doc_cache = (m', Ret (Inr [one_doc])) \<and>
     mset [one_doc] + pending m' ''persister'' (Topic 1000000000)
       = pending one_doc_cache ''persister'' (Topic 1000000000) \<and> cache_inv m'"
  using memory_Get [OF one_doc_cache(1,2), of "''persister''" 5] Get_one_doc
  by (metis prod.collapse)

text \<open>
  A new document is pending for every consumer at once: \<open>Put\<close> adds it to what each of them
  may take and changes nothing else of it.
\<close>

theorem memory_Put:
  assumes "cache_inv m" and "Put D now app raw meta w m = (m', Ret (Inr d))"
    and "topic_docs m (Topic w) (Id d) = None" and "\<not> readed m cu (Topic w) (Id d)"
  shows "d = new_doc D now app raw meta w \<and>
         pending m' cu (Topic w) = add_mset d (pending m cu (Topic w))"
  using mem.put_doc [OF assms(2)] pending_Put [OF assms(1) _ assms(3,4)] assms(2) by (metis fst_conv)

theorem memory_Put_witness:
  "pending one_doc_cache ''blockchain'' (Topic 1000000000) = {#one_doc#}"
proof -
  have "Put toy_digests (time_Unix 0) ''app'' ''abc'' [] 1000000000 NewMemoryCache
      = (one_doc_cache, Ret (Inr one_doc))"
    by (simp add: one_doc_cache_def one_doc_def Put_def Let_def)
  from memory_Put [OF cache_inv_New this, of "''blockchain''"] show ?thesis
    by (simp add: NewMemoryCache_def topic_docs_def readed_def pending_def unread_def)
qed

text \<open>
  A history of the cache: the documents put, newest first, and what was handed to which consumer.
  A restart of the process begins with a new cache.
\<close>

inductive mem_run :: "digests \<Rightarrow> MemoryCache \<Rightarrow> document list \<Rightarrow> (string \<times> document) list \<Rightarrow> bool" for D where
  start: "mem_run D NewMemoryCache [] []"
| put: "mem_run D m ps hs \<Longrightarrow> Put D now app raw meta w m = (m', Ret (Inr d)) \<Longrightarrow> mem_run D m' (d # ps) hs"
| get: "mem_run D m ps hs \<Longrightarrow> order_ok order m topic \<Longrightarrow> Get order cu topic n m = (m', Ret (Inr ds)) \<Longrightarrow>
     mem_run D m' ps (map (Pair cu) ds @ hs)"
| get_none: "mem_run D m ps hs \<Longrightarrow> order_ok order m topic \<Longrightarrow> Get order cu topic n m = (m', Ret (Inl e)) \<Longrightarrow>
     mem_run D m' ps hs"
| subscribe: "mem_run D m ps hs \<Longrightarrow> mem_run D (fst (Subscribe cu topic m)) ps hs"
| close: "mem_run D m ps hs \<Longrightarrow> mem_run D (Close m) ps hs"
| restart: "mem_run D m ps hs \<Longrightarrow> mem_run D NewMemoryCache ps hs"

abbreviation handed_ids :: "(string \<times> document) list \<Rightarrow> string list" where
  "handed_ids hs \<equiv> map (\<lambda>x. Id (snd x)) hs"

definition stocked :: "MemoryCache \<Rightarrow> document list \<Rightarrow> (string \<times> document) list \<Rightarrow> bool" where
  "stocked m ps hs \<longleftrightarrow> cache_inv m \<and> distinct (handed_ids hs) \<and> snd ` set hs \<subseteq> set ps \<and>
     (\<forall>t i d. topic_docs m t i = Some d \<longrightarrow> d \<in> set ps \<and> t = Topic (WaitDuration d) \<and> i \<notin> set (handed_ids hs))"

lemma Get_docs:
  assumes "cache_inv m" and "order_ok order m topic" and "Get order cu topic n m = (m', Ret (Inr ds))"
  shows "distinct (map Id ds)" and "\<And>d. d \<in> set ds \<Longrightarrow> topic_docs m topic (Id d) = Some d"
    and "\<And>t i. topic_docs m' t i = (if t = topic \<and> i \<in> Id ` set ds then None else topic_docs m t i)"
proof -
  have v: "vals m topic \<noteq> None"
    using assms(3) by (auto simp: Get_def Let_def Subscribe_def split: if_splits option.splits)
  let ?g = "got order cu topic n m"
  obtain m'' where g: "Get order cu topic n m = (m'', Ret (Inr (map (doc_of m topic) ?g)))"
    and td: "\<And>t i. topic_docs m'' t i = (if t = topic \<and> i \<in> set ?g then None else topic_docs m t i)"
    by (rule Get_got [OF assms(2) v, where customer = cu and cnt = n]) (rule that, assumption+)
  have ids: "Id (doc_of m topic i) = i \<and> topic_docs m topic i = Some (doc_of m topic i)" if "i \<in> set ?g" for i
  proof -
    have "i \<in> dom (topic_docs m topic)"
      using that assms(2) by (auto simp: got_def order_ok_def dest: in_set_takeD)
    then show ?thesis using assms(1) by (auto simp: cache_inv_def)
  qed
  have ds: "ds = map (doc_of m topic) ?g" "m' = m''" using g assms(3) by auto
  have mi: "map Id ds = ?g" using ids by (simp add: ds map_idI)
  moreover have "distinct ?g" using assms(2) by (simp add: got_def order_ok_def)
  ultimately show "distinct (map Id ds)" by simp
  show "topic_docs m topic (Id d) = Some d" if "d \<in> set ds" for d
    using that ids by (auto simp: ds)
  show "topic_docs m' t i = (if t = topic \<and> i \<in> Id ` set ds then None else topic_docs m t i)" for t i
    using td mi ds(2) by (metis list.set_map)
qed

lemma stocked_get:
  assumes "stocked m ps hs" and "distinct (map Id ps)" and "order_ok order m topic"
    and "Get order cu topic n m = (m', Ret (Inr ds))"
  shows "stocked m' ps (map (Pair cu) ds @ hs)"
proof -
  note st = assms(1)
  then have inv: "cache_inv m" by (simp add: stocked_def)
  note g = Get_docs [OF inv assms(3,4)]
  have new: "d \<in> set ps \<and> Id d \<notin> set (handed_ids hs)" if "d \<in> set ds" for d
    using st g(2) [OF that] by (simp add: stocked_def)
  have hd: "handed_ids (map (Pair cu) ds @ hs) = map Id ds @ handed_ids hs" by simp
  have "distinct (handed_ids (map (Pair cu) ds @ hs))"
    unfolding hd using st g(1) new by (auto simp: stocked_def)
  moreover have "cache_inv m'" using cache_inv_Get [OF inv assms(3), of cu n] assms(4) by simp
  moreover have "d \<in> set ps \<and> t = Topic (WaitDuration d) \<and> i \<notin> set (handed_ids (map (Pair cu) ds @ hs))"
    if td: "topic_docs m' t i = Some d" for t i d
  proof -
    have old: "topic_docs m t i = Some d" "\<not> (t = topic \<and> i \<in> Id ` set ds)"
      using td unfolding g(3) by (auto split: if_splits)
    have "i \<notin> Id ` set ds"
    proof
      assume "i \<in> Id ` set ds"
      then obtain e where e: "e \<in> set ds" "i = Id e" by auto
      have "inj_on Id (set ps)" using assms(2) by (simp add: distinct_map)
      moreover have "d \<in> set ps" "Id d = i" using st old(1) inv by (auto simp: stocked_def cache_inv_def)
      ultimately have "e = d" using new [OF e(1)] e(2) by (metis inj_onD)
      then have "t = topic" using st old(1) g(2) [OF e(1)] unfolding stocked_def by metis
      with old(2) e show False by auto
    qed
    then show ?thesis using st old(1) by (auto simp: stocked_def)
  qed
  moreover have "snd ` set (map (Pair cu) ds @ hs) \<subseteq> set ps" using st new by (auto simp: stocked_def)
  ultimately show ?thesis by (simp only: stocked_def) blast
qed

lemma stocked_run:
  assumes "mem_run D m ps hs" and "distinct (map Id ps)"
  shows "stocked m ps hs"
  using assms
proof (induction rule: mem_run.induct)
  case start
  show ?case by (simp add: stocked_def cache_inv_New) (simp add: NewMemoryCache_def topic_docs_def)
next
  case (put m ps hs now app raw meta w m' d)
  then have m': "m' = fst (Put D now app raw meta w m)" "d = new_doc D now app raw meta w"
    by (auto simp: Put_def Let_def)
  have wd: "WaitDuration d = w" by (simp add: m'(2) new_doc_def)
  have "Id d \<notin> set (handed_ids hs)" using put by (auto simp: stocked_def)
  then show ?case
    using put cache_inv_Put by (auto simp: stocked_def m' topic_docs_Put wd [unfolded m'(2)] split: if_splits)
next
  case (get m ps hs order topic cu n m' ds)
  then show ?case by (intro stocked_get) simp_all
next
  case (get_none m ps hs order topic cu n m' e)
  have "topic_docs m' t = topic_docs m t" for t
    using get_none(3) by (auto simp: Get_def Let_def Subscribe_def topic_docs_def split: if_splits option.splits prod.splits)
  then show ?case using get_none by (simp add: stocked_def cache_inv_def)
next
  case (subscribe m ps hs cu topic)
  then show ?case by (simp add: stocked_def cache_inv_def)
next
  case (close m ps hs)
  then show ?case by (simp add: stocked_def cache_inv_def Close_def topic_docs_def)
next
  case (restart m ps hs)
  then have "distinct (handed_ids hs)" "snd ` set hs \<subseteq> set ps" by (simp_all add: stocked_def)
  then show ?case by (simp add: stocked_def cache_inv_New) (simp add: NewMemoryCache_def topic_docs_def)
qed

text \<open>
  C37. With the memory cache a document reaches one consumer only: over the whole history of the
  cache, whatever is put, asked for and subscribed in whatever order, no document is handed out
  twice, and one that was handed out waits for nobody. So a document that the blockchain
  handler registered is never stored, and one that the persister stored is never registered.
\<close>

theorem memory_hands_out_once:
  assumes "mem_run D m ps hs" and "distinct (map Id ps)"
  shows "distinct (handed_ids hs) \<and> snd ` set hs \<subseteq> set ps \<and>
     (\<forall>cu d t other. (cu, d) \<in> set hs \<longrightarrow> d \<notin># pending m other t \<and> ((other, d) \<in> set hs \<longrightarrow> other = cu))"
proof -
  have st: "stocked m ps hs" by (rule stocked_run [OF assms])
  have gone: "d \<notin># pending m other t" if "(cu, d) \<in> set hs" for cu d other t
  proof
    assume "d \<in># pending m other t"
    then have "topic_docs m t (Id d) = Some d"
      using st by (intro pending_topic_docs) (simp_all add: stocked_def)
    then have "Id d \<notin> set (handed_ids hs)" using st unfolding stocked_def by blast
    with that show False by force
  qed
  have one: "other = cu" if "(cu, d) \<in> set hs" "(other, d) \<in> set hs" for cu other d
  proof -
    have "inj_on (\<lambda>x. Id (snd x)) (set hs)" using st by (simp add: stocked_def distinct_map)
    from inj_onD [OF this _ that] show ?thesis by simp
  qed
  have "distinct (handed_ids hs)" "snd ` set hs \<subseteq> set ps" using st unfolding stocked_def by blast+
  then show ?thesis using gone one by simp
qed

theorem memory_hands_out_once_witness:
  "\<exists>m. mem_run toy_digests m [one_doc] [(''persister'', one_doc)] \<and>
     one_doc \<notin># pending m ''blockchain'' (Topic 1000000000)"
proof -
  have "Put toy_digests (time_Unix 0) ''app'' ''abc'' [] 1000000000 NewMemoryCache = (one_doc_cache, Ret (Inr one_doc))"
    by (simp add: one_doc_cache_def one_doc_def Put_def Let_def)
  then have "mem_run toy_digests one_doc_cache [one_doc] []"
    by (rule mem_run.put [OF mem_run.start])
  moreover obtain m where g: "Get [Id one_doc] ''persister'' (Topic 1000000000) 5 one_doc_cache = (m, Ret (Inr [one_doc]))"
    using Get_one_doc by (metis prod.collapse)
  ultimately have r: "mem_run toy_digests m [one_doc] [(''persister'', one_doc)]"
    using mem_run.get [OF _ one_doc_cache(2) g] by force
  from memory_hands_out_once [OF this] r show ?thesis by auto
qed

lemma Get_other_topic:
  assumes "order_ok order m topic" and "t \<noteq> topic"
  shows "pending (fst (Get order customer topic cnt m)) cu t = pending m cu t"
proof -
  let ?m' = "fst (Get order customer topic cnt m)"
  have "topic_docs ?m' t = topic_docs m t \<and> readed ?m' cu t = readed m cu t"
  proof (cases "vals m topic")
    case None
    then show ?thesis
      by (auto simp: Get_def Let_def Subscribe_def topic_docs_def readed_def fun_eq_iff)
  next
    case (Some ds)
    then have "vals m topic \<noteq> None" by simp
    then obtain m' where g: "Get order customer topic cnt m
          = (m', Ret (Inr (map (doc_of m topic) (got order customer topic cnt m))))"
      and "\<And>t i. topic_docs m' t i =
             (if t = topic \<and> i \<in> set (got order customer topic cnt m) then None else topic_docs m t i)"
      and "\<And>cu t i. readed m' cu t i \<longleftrightarrow>
             (cu = customer \<and> t = topic \<and> i \<in> set (got order customer topic cnt m)) \<or> readed m cu t i"
      by (rule Get_got [OF assms(1), where customer = customer and cnt = cnt]) (rule that, assumption+)
    then show ?thesis using assms(2) by (simp add: fun_eq_iff)
  qed
  then show ?thesis by (simp add: pending_def unread_def)
qed

text \<open>
  Periods do not mix: the topics of two different periods are different, whatever the
  periods, so serving one period leaves the documents of every other period pending. In
  particular a document submitted with a period that is not configured is accepted and never
  served, since the consumers only ask for the topics of the configured periods.
\<close>

theorem memory_periods_separate:
  assumes "cache_inv m" and "order_ok order m (Topic p)" and "w \<noteq> p"
    and "Get order customer (Topic p) cnt m = (m', r)"
  shows "Topic w \<noteq> Topic p \<and> pending m' cu (Topic w) = pending m cu (Topic w) \<and> cache_inv m'"
proof -
  have ne: "Topic w \<noteq> Topic p" using assms(3) by (simp add: Topic_def dur_String_inject)
  have m': "m' = fst (Get order customer (Topic p) cnt m)" using assms(4) by simp
  show ?thesis
    using ne Get_other_topic [OF assms(2) ne, of customer cnt cu] cache_inv_Get [OF assms(1,2), of customer cnt]
    unfolding m' by blast
qed

theorem memory_periods_separate_witness:
  "one_doc \<in># pending (fst (Get [] ''persister'' (Topic 60000000000) 5 one_doc_cache)) ''persister'' (Topic 1000000000)"
proof -
  have "Topic 60000000000 \<noteq> Topic 1000000000" by (simp add: Topic_def dur_String_inject)
  then have "order_ok [] one_doc_cache (Topic 60000000000)"
    by (simp add: order_ok_def topic_docs_def one_doc_cache(3))
  then have "pending (fst (Get [] ''persister'' (Topic 60000000000) 5 one_doc_cache)) ''persister'' (Topic 1000000000)
      = pending one_doc_cache ''persister'' (Topic 1000000000)"
    using memory_periods_separate [OF one_doc_cache(1), of "[]" 60000000000 1000000000 "''persister''" 5]
    by (cases "Get [] ''persister'' (Topic 60000000000) 5 one_doc_cache") simp
  moreover have "pending one_doc_cache ''persister'' (Topic 1000000000) = {#one_doc#}"
    using pending_order [OF one_doc_cache(2), of "''persister''"]
    by (simp add: topic_docs_def readed_def one_doc_cache(3,5))
  ultimately show ?thesis by simp
qed

end
