(* ===== verification/KafkaCache.thy ===== *)
theory KafkaCache
  imports Cache
begin

text \<open>
  The Kafka cache, \<open>cache/kafka/kafka.go\<close>. The broker (producer and group consumers) and the
  protobuf encoder are parameters. Each consumer has one channel per topic, filled by its
  message goroutine and drained by \<open>Get\<close>.

  A channel is the list of the documents sent and not yet received. A full channel only delays
  the sender, and \<open>Get\<close> takes effect at its last receive: every document sent before that
  moment has either been received by the call or is still in the channel, in order. So a call
  of \<open>Get\<close> is one step on the list and a completed send is one step, whatever the capacity.
\<close>

section \<open>Construction\<close>

text \<open>The configuration of the client library, as far as the program sets it.\<close>

record tls_config =
  Certificates :: "bytes list"
  RootCAs :: "bytes list"
  InsecureSkipVerify :: bool

datatype acks = WaitForAll

datatype initial_offset = OffsetNewest

record sarama_config =
  RequiredAcks :: acks
  Retry_Max :: i64
  Return_Successes :: bool
  Offsets_Initial :: initial_offset
  TLS_Config :: "tls_config option"
  TLS_Enable :: bool

record 'w kafka_lib =
  LoadX509KeyPair :: "string \<Rightarrow> string \<Rightarrow> err + bytes"
  ReadFile :: "string \<Rightarrow> err + bytes"
  CertsFromPEM :: "bytes \<Rightarrow> bytes list"
  NewSyncProducer :: "string list \<Rightarrow> sarama_config \<Rightarrow> 'w \<Rightarrow> 'w \<times> err option"
  marshal :: "document \<Rightarrow> err + bytes"
  unmarshal :: "bytes \<Rightarrow> err + document"
  SendMessage :: "string \<Rightarrow> bytes \<Rightarrow> 'w \<Rightarrow> 'w \<times> err option"
  NewConsumer :: "string list \<Rightarrow> string \<Rightarrow> string list \<Rightarrow> sarama_config \<Rightarrow> 'w \<Rightarrow> 'w \<times> err option"
  CloseProducer :: "'w \<Rightarrow> 'w \<times> err option"
  CommitOffsets :: "string \<Rightarrow> 'w \<Rightarrow> 'w \<times> err option"
  CloseConsumer :: "string \<Rightarrow> 'w \<Rightarrow> 'w \<times> err option"

record 'w KafkaCache =
  k_brokers :: "string list"
  k_topics :: "string list"
  k_config :: sarama_config
  k_consumers :: "string \<Rightarrow> bool"
  k_chans :: "string \<Rightarrow> (string \<Rightarrow> document list option) option"
  k_world :: 'w

definition Topic :: "i64 \<Rightarrow> string" where
  "Topic d = ''kafka_'' @ dur_String d"

text \<open>TLS is set up only when all three files are named; a file that cannot be read ends the process.\<close>

definition createTlsConfiguration :: "viper \<Rightarrow> 'w kafka_lib \<Rightarrow> tls_config option outcome" where
  "createTlsConfiguration V K =
     (let certFile = GetString V ''cache.kafka.tls.certFile'';
          keyFile = GetString V ''cache.kafka.tls.keyFile'';
          caFile = GetString V ''cache.kafka.tls.caFile''
      in if certFile \<noteq> [] \<and> keyFile \<noteq> [] \<and> caFile \<noteq> [] then
           (case LoadX509KeyPair K certFile keyFile of
              Inl e \<Rightarrow> Fatal e
            | Inr cert \<Rightarrow> (case ReadFile K caFile of
                  Inl e \<Rightarrow> Fatal e
                | Inr caCert \<Rightarrow> Ret (Some \<lparr>Certificates = [cert], RootCAs = CertsFromPEM K caCert,
                      InsecureSkipVerify = GetBool V ''cache.kafka.tls.insecureSkipVerify''\<rparr>)))
         else Ret None)"

text \<open>The caches with their configuration: one map of channels for every configured period.\<close>

definition kafka_state :: "string list \<Rightarrow> sarama_config \<Rightarrow> PeriodLimit list \<Rightarrow> 'w \<Rightarrow> 'w KafkaCache" where
  "kafka_state brokers config periods w =
     \<lparr>k_brokers = brokers, k_topics = map (Topic \<circ> Period) periods, k_config = config,
      k_consumers = (\<lambda>_. False),
      k_chans = fold (\<lambda>p m. m(Topic (Period p) \<mapsto> Map.empty)) periods Map.empty,
      k_world = w\<rparr>"

definition NewKafkaCache :: "viper \<Rightarrow> 'w kafka_lib \<Rightarrow> PeriodLimit list \<Rightarrow> 'w \<Rightarrow> 'w KafkaCache outcome" where
  "NewKafkaCache V K periods w =
     obind (createTlsConfiguration V K) (\<lambda>tls.
       (let config = \<lparr>RequiredAcks = WaitForAll, Retry_Max = GetInt V ''cache.kafka.retry'',
              Return_Successes = True, Offsets_Initial = OffsetNewest, TLS_Config = tls,
              TLS_Enable = (tls \<noteq> None)\<rparr>;
            brokers = GetStringSlice V ''cache.kafka.brokers''
        in case NewSyncProducer K brokers config w of
             (w', Some e) \<Rightarrow> Fatal (''Failed to start Sarama producer: '' @ e)
           | (w', None) \<Rightarrow> Ret (kafka_state brokers config periods w')))"

section \<open>Putting, receiving and delivering\<close>

text \<open>The debug output after a send slices the id; a shorter id would panic.\<close>

definition Put :: "'w kafka_lib \<Rightarrow> digests \<Rightarrow> gotime \<Rightarrow> string \<Rightarrow> bytes \<Rightarrow> string \<Rightarrow> i64
    \<Rightarrow> 'w KafkaCache \<Rightarrow> 'w KafkaCache \<times> (err + document) outcome" where
  "Put K D now appName raw metadata waitDuration k =
     (let topic = Topic waitDuration; doc = new_doc D now appName raw metadata waitDuration
      in case marshal K doc of
           Inl e \<Rightarrow> (k, Ret (Inl e))
         | Inr docBytes \<Rightarrow>
             (case SendMessage K topic docBytes (k_world k) of
                (w', Some e) \<Rightarrow> (k\<lparr>k_world := w'\<rparr>, Ret (Inl e))
              | (w', None) \<Rightarrow>
                  if length (Id doc) < 8 then (k\<lparr>k_world := w'\<rparr>, Panic ''slice bounds out of range'')
                  else (k\<lparr>k_world := w'\<rparr>, Ret (Inr doc))))"

text \<open>\<open>constructTopicConsumerDocsChan\<close>: the first period with that topic gives the capacity.\<close>

definition construct_chan :: "PeriodLimit list \<Rightarrow> string \<Rightarrow> string \<Rightarrow> 'w KafkaCache
    \<Rightarrow> 'w KafkaCache outcome" where
  "construct_chan periods topic consumerName k =
     (let present = (case k_chans k topic of None \<Rightarrow> False | Some m \<Rightarrow> m consumerName \<noteq> None)
      in if present then Ret k
         else case List.find (\<lambda>p. Topic (Period p) = topic) periods of
                None \<Rightarrow> Fatal (''invalid topic '' @ topic)
              | Some p \<Rightarrow>
                  if sint (Limit p) < 0 then Panic ''makechan: size out of range''
                  else (case k_chans k topic of
                          None \<Rightarrow> Panic ''assignment to entry in nil map''
                        | Some m \<Rightarrow> Ret (k\<lparr>k_chans := (k_chans k)(topic \<mapsto> m(consumerName \<mapsto> []))\<rparr>)))"

text \<open>The receive loop: documents in order until the count or the channel is exhausted.\<close>

fun drain :: "i64 \<Rightarrow> document list \<Rightarrow> document list \<Rightarrow> document list \<times> document list" where
  "drain cnt docs [] = (docs, [])"
| "drain cnt docs (d # ch) = (if sint cnt \<le> 0 then (docs, d # ch) else drain (cnt - 1) (docs @ [d]) ch)"

definition Get :: "PeriodLimit list \<Rightarrow> unit \<Rightarrow> string \<Rightarrow> string \<Rightarrow> i64 \<Rightarrow> 'w KafkaCache
    \<Rightarrow> 'w KafkaCache \<times> (err + document list) outcome" where
  "Get periods u consumerName topic cnt k =
     (case construct_chan periods topic consumerName k of
        Panic e \<Rightarrow> (k, Panic e)
      | Fatal e \<Rightarrow> (k, Fatal e)
      | Ret k1 \<Rightarrow>
          (case (case k_chans k1 topic of None \<Rightarrow> None | Some m \<Rightarrow> m consumerName) of
             None \<Rightarrow> (k1, Ret (Inl (''invalid topic '' @ topic)))
           | Some ch \<Rightarrow>
               (let (docs, ch') = drain cnt [] ch; m = the (k_chans k1 topic)
                in (k1\<lparr>k_chans := (k_chans k1)(topic \<mapsto> m(consumerName \<mapsto> ch'))\<rparr>, Ret (Inr docs)))))"

definition Subscribe :: "'w kafka_lib \<Rightarrow> string \<Rightarrow> string \<Rightarrow> 'w KafkaCache \<Rightarrow> 'w KafkaCache \<times> bool" where
  "Subscribe K consumerName topic k =
     (if topic \<notin> set (k_topics k) then (k, False)
      else if k_consumers k consumerName then (k, True)
      else case NewConsumer K (k_brokers k) consumerName (k_topics k) (k_config k) (k_world k) of
             (w', Some e) \<Rightarrow> (k\<lparr>k_world := w'\<rparr>, False)
           | (w', None) \<Rightarrow> (k\<lparr>k_world := w', k_consumers := (k_consumers k)(consumerName := True)\<rparr>, True))"

text \<open>
  One message of the goroutine of \<open>handleConsumer\<close>: the state, and whether its offset is marked
  as consumed.
\<close>

definition deliver :: "'w kafka_lib \<Rightarrow> PeriodLimit list \<Rightarrow> string \<Rightarrow> string \<Rightarrow> bytes \<Rightarrow> 'w KafkaCache
    \<Rightarrow> ('w KafkaCache \<times> bool) outcome" where
  "deliver K periods consumerName msgTopic msgValue k =
     (if k_chans k msgTopic = None then Ret (k, False)
      else obind (construct_chan periods msgTopic consumerName k) (\<lambda>k1.
        case unmarshal K msgValue of
          Inl e \<Rightarrow> Ret (k1, False)
        | Inr doc \<Rightarrow>
            (case k_chans k1 msgTopic of
               None \<Rightarrow> Panic ''send on nil channel''
             | Some m \<Rightarrow> (case m consumerName of
                   None \<Rightarrow> Panic ''send on nil channel''
                 | Some ch \<Rightarrow>
                     Ret (k1\<lparr>k_chans := (k_chans k1)(msgTopic \<mapsto> m(consumerName \<mapsto> ch @ [doc]))\<rparr>, True)))))"

section \<open>Closing\<close>

text \<open>
  The last loop of \<open>Close\<close>. \<open>len c t\<close> is the length of channel \<open>c\<close> at time \<open>t\<close>, \<open>chans\<close> the
  channels in the order of the iteration that starts at time \<open>t\<close>, \<open>pos\<close> what is left of the
  current iteration. None is "does not return".
\<close>

partial_function (option) close_loop ::
    "(nat \<Rightarrow> nat \<Rightarrow> nat) \<Rightarrow> (nat \<Rightarrow> nat list) \<Rightarrow> nat list \<Rightarrow> nat \<Rightarrow> unit option" where
  "close_loop len chans pos t =
     (case pos of
        [] \<Rightarrow> close_loop len chans (chans (Suc t)) (Suc t)
      | c # cs \<Rightarrow> if len c t \<noteq> 0 then close_loop len chans (c # cs) (Suc t)
                  else close_loop len chans cs t)"

text \<open>
  \<open>Close\<close>: the producer, then every consumer in the order \<open>names\<close> of the iteration over their map;
  errors are only logged. Then the loop above.
\<close>

definition close_consumers :: "'w kafka_lib \<Rightarrow> string list \<Rightarrow> 'w \<Rightarrow> 'w" where
  "close_consumers K names w = fold (\<lambda>n w. fst (CloseConsumer K n (fst (CommitOffsets K n w)))) names w"

definition Close :: "'w kafka_lib \<Rightarrow> string list \<Rightarrow> (nat \<Rightarrow> nat \<Rightarrow> nat) \<Rightarrow> (nat \<Rightarrow> nat list) \<Rightarrow> 'w KafkaCache
    \<Rightarrow> 'w KafkaCache option" where
  "Close K names len chans k =
     (let k' = k\<lparr>k_world := close_consumers K names (fst (CloseProducer K (k_world k)))\<rparr>
      in map_option (\<lambda>_. k') (close_loop len chans (chans 0) 0))"

lemma close_loop_None: "close_loop len chans pos t = None"
proof (cases "close_loop len chans pos t")
  case (Some u)
  have "False"
    by (rule close_loop.raw_induct [where P = "\<lambda>len chans pos t u. False", OF _ Some])
       (auto split: list.splits if_splits)
  then show ?thesis ..
qed

section \<open>The interface\<close>

definition chan_of :: "'w KafkaCache \<Rightarrow> string \<Rightarrow> string \<Rightarrow> document list" where
  "chan_of k consumerName topic =
     (case k_chans k topic of None \<Rightarrow> []
      | Some m \<Rightarrow> (case m consumerName of None \<Rightarrow> [] | Some ch \<Rightarrow> ch))"

abbreviation kafka_pending :: "'w KafkaCache \<Rightarrow> string \<Rightarrow> string \<Rightarrow> document multiset" where
  "kafka_pending k consumerName topic \<equiv> mset (chan_of k consumerName topic)"

lemma sint_pred_pos: "0 < sint n \<Longrightarrow> nat (sint n) = Suc (nat (sint (n - 1)))" for n :: i64
  using sint_greater_eq [of n] sint_less [of n]
  by (simp add: signed_eq_0_iff signed_minus_1 sint_word_ariths signed_take_bit_int_eq_self)

lemma drain_eq: "drain cnt docs ch = (docs @ take (nat (sint cnt)) ch, drop (nat (sint cnt)) ch)"
proof (induction cnt docs ch rule: drain.induct)
  case (2 cnt docs d ch)
  then show ?case
    by (cases "sint cnt \<le> 0") (auto simp: sint_pred_pos not_le)
qed simp

lemma construct_chan_of:
  assumes "construct_chan periods topic consumerName k = Ret k'"
  shows "chan_of k' cu t = chan_of k cu t" and "\<exists>m. k_chans k' topic = Some m \<and> m consumerName \<noteq> None"
  using assms by (auto simp: construct_chan_def chan_of_def Let_def split: if_splits option.splits)

lemma Get_chan_of:
  assumes "Get periods u consumerName topic cnt k = (k', Ret (Inr ds))"
  shows "ds = take (nat (sint cnt)) (chan_of k consumerName topic)"
    and "chan_of k' cu t = (if cu = consumerName \<and> t = topic
           then drop (nat (sint cnt)) (chan_of k consumerName topic) else chan_of k cu t)"
proof -
  obtain k1 where k1: "construct_chan periods topic consumerName k = Ret k1"
    using assms by (auto simp: Get_def split: outcome.splits)
  obtain m ch where m: "k_chans k1 topic = Some m" "m consumerName = Some ch"
    using construct_chan_of(2) [OF k1] by auto
  have "chan_of k1 consumerName topic = ch"
    by (simp add: chan_of_def m)
  then have ch: "chan_of k consumerName topic = ch"
    unfolding construct_chan_of(1) [OF k1] .
  show "ds = take (nat (sint cnt)) (chan_of k consumerName topic)"
    using assms by (auto simp: Get_def k1 m ch drain_eq)
  show "chan_of k' cu t = (if cu = consumerName \<and> t = topic
           then drop (nat (sint cnt)) (chan_of k consumerName topic) else chan_of k cu t)"
    using assms unfolding ch construct_chan_of(1) [OF k1, symmetric]
    by (auto simp: Get_def k1 m drain_eq chan_of_def)
qed

lemma mset_take_subset: "mset (take n xs) \<subseteq># mset xs"
  by (metis append_take_drop_id mset_append mset_subset_eq_add_left)

lemma mset_drop: "mset (drop n xs) = mset xs - mset (take n xs)"
  by (metis add_diff_cancel_left' append_take_drop_id mset_append)

interpretation kafka: fanout_cache D "Put K D" "Get periods" kafka_pending "\<lambda>_ _ _. True" "\<lambda>_. True"
  for D K periods
proof unfold_locales
  show "Put K D now app raw meta w c = (c', Ret (Inr d)) \<Longrightarrow> d = new_doc D now app raw meta w"
    for K D now app raw meta w c c' d
    by (auto simp: Put_def Let_def split: sum.splits option.splits prod.splits if_splits)
  show "Get periods x cu tp n c = (c', Ret (Inr ds)) \<Longrightarrow>
      mset ds \<subseteq># kafka_pending c cu tp \<and> kafka_pending c' cu tp = kafka_pending c cu tp - mset ds"
    for periods x cu tp n c c' ds
    using Get_chan_of [of periods x cu tp n c c' ds]
    by (simp add: mset_take_subset mset_drop)
  show "Get periods x cu tp n c = (c', Ret (Inr ds)) \<Longrightarrow>
      length ds = min (nat (sint n)) (size (kafka_pending c cu tp))" for periods x cu tp n c c' ds
    using Get_chan_of(1) [of periods x cu tp n c c' ds] by simp
  show "Get periods x cu tp n c = (c', Ret (Inr ds)) \<Longrightarrow> cu' \<noteq> cu \<Longrightarrow>
      kafka_pending c' cu' t = kafka_pending c cu' t" for periods x cu tp n c c' ds cu' t
    using Get_chan_of(2) [of periods x cu tp n c c' ds] by simp
qed auto

section \<open>What waits for a consumer over all topics\<close>

definition pend_all :: "'w KafkaCache \<Rightarrow> string \<Rightarrow> document multiset" where
  "pend_all k cu = (\<Sum>t \<in> set (k_topics k). kafka_pending k cu t)"

definition kafka_wf :: "PeriodLimit list \<Rightarrow> 'w KafkaCache \<Rightarrow> bool" where
  "kafka_wf periods k \<longleftrightarrow> k_topics k = map (Topic \<circ> Period) periods \<and> dom (k_chans k) \<subseteq> set (k_topics k)"

lemma dom_fold_topics:
  "dom (fold (\<lambda>p m. m(Topic (Period p) \<mapsto> Map.empty)) ps m) = dom m \<union> set (map (Topic \<circ> Period) ps)"
  by (induction ps arbitrary: m) auto

lemma kafka_wf_init: "kafka_wf periods (kafka_state brokers config periods w)"
  by (simp add: kafka_wf_def kafka_state_def dom_fold_topics)

lemma pend_all_init: "pend_all (kafka_state brokers config periods w) cu = {#}"
proof -
  have "fold (\<lambda>p m. m(Topic (Period p) \<mapsto> Map.empty)) periods m t \<in> {None, Some Map.empty}"
    if "m t \<in> {None, Some Map.empty}" for m :: "string \<Rightarrow> (string \<Rightarrow> document list option) option" and t
    using that by (induction periods arbitrary: m) auto
  from this [of Map.empty] have "chan_of (kafka_state brokers config periods w) cu t = []" for t
    by (auto simp: chan_of_def kafka_state_def split: option.splits) (metis option.discI option.inject)
  then show ?thesis by (simp add: pend_all_def)
qed

text \<open>A change of one channel changes the total by as much.\<close>

lemma pend_all_update:
  assumes "k_topics k' = k_topics k" and "tp \<in> set (k_topics k)"
    and "\<And>t. t \<noteq> tp \<Longrightarrow> chan_of k' cu t = chan_of k cu t"
  shows "pend_all k' cu + kafka_pending k cu tp = pend_all k cu + kafka_pending k' cu tp"
proof -
  have "(\<Sum>t \<in> set (k_topics k) - {tp}. kafka_pending k' cu t) = (\<Sum>t \<in> set (k_topics k) - {tp}. kafka_pending k cu t)"
    by (rule sum.cong) (auto simp: assms(3))
  then show ?thesis
    using assms(1,2) by (simp add: pend_all_def sum.remove [of "set (k_topics k)" tp])
qed

lemma pend_all_cong:
  "k_topics k' = k_topics k \<Longrightarrow> (\<And>t. chan_of k' cu t = chan_of k cu t) \<Longrightarrow> pend_all k' cu = pend_all k cu"
  by (simp add: pend_all_def)

lemma construct_chan_frame:
  "construct_chan periods topic cu k = Ret k' \<Longrightarrow>
     k_topics k' = k_topics k \<and> k_world k' = k_world k \<and> dom (k_chans k') = dom (k_chans k)"
  by (auto simp: construct_chan_def Let_def split: if_splits option.splits)

lemma construct_chan_topic:
  assumes "construct_chan periods topic cu k = Ret k'" and "kafka_wf periods k"
  shows "topic \<in> set (k_topics k)"
proof -
  obtain m where "k_chans k' topic = Some m" using construct_chan_of(2) [OF assms(1)] by blast
  then have "topic \<in> dom (k_chans k)" using construct_chan_frame [OF assms(1)] by blast
  then show ?thesis using assms(2) by (auto simp: kafka_wf_def)
qed

lemma Get_frame:
  assumes "Get periods u cu topic n k = (k', r)"
  shows "k_topics k' = k_topics k \<and> k_world k' = k_world k \<and> dom (k_chans k') = dom (k_chans k)"
proof (cases "construct_chan periods topic cu k")
  case (Ret k1)
  obtain m ch where m: "k_chans k1 topic = Some m" "m cu = Some ch"
    using construct_chan_of(2) [OF Ret] by auto
  then have "insert topic (dom (k_chans k1)) = dom (k_chans k1)" by blast
  then show ?thesis
    using construct_chan_frame [OF Ret] assms
    by (cases "drain n [] ch") (clarsimp simp: Get_def Ret m Let_def)
qed (use assms in \<open>auto simp: Get_def\<close>)

text \<open>\<open>Get\<close> moves the documents it returns out of the total of its consumer.\<close>

lemma Get_pend_all:
  assumes "kafka_wf periods k" and "Get periods u cu topic n k = (k', Ret (Inr ds))"
  shows "pend_all k cu' = pend_all k' cu' + (if cu' = cu then mset ds else {#})" and "kafka_wf periods k'"
proof -
  note fr = Get_frame [OF assms(2)]
  obtain k1 where "construct_chan periods topic cu k = Ret k1"
    using assms(2) by (auto simp: Get_def split: outcome.splits)
  then have tp: "topic \<in> set (k_topics k)" using construct_chan_topic assms(1) by blast
  show "kafka_wf periods k'" using fr assms(1) unfolding kafka_wf_def by metis
  show "pend_all k cu' = pend_all k' cu' + (if cu' = cu then mset ds else {#})"
  proof (cases "cu' = cu")
    case True
    have "pend_all k' cu + kafka_pending k cu topic = pend_all k cu + kafka_pending k' cu topic"
      by (rule pend_all_update) (use fr tp Get_chan_of(2) [OF assms(2)] in auto)
    moreover have "kafka_pending k cu topic = mset ds + kafka_pending k' cu topic"
      unfolding Get_chan_of(1) [OF assms(2)] Get_chan_of(2) [OF assms(2), of cu topic]
      by (simp flip: mset_append)
    ultimately have "pend_all k cu = pend_all k' cu + mset ds"
      by (metis add.assoc add_right_cancel)
    then show ?thesis using True by simp
  next
    case False
    then show ?thesis
      using fr Get_chan_of(2) [OF assms(2), of cu'] pend_all_cong [of k' k cu'] by simp
  qed
qed

text \<open>A delivered message adds its document to the total of its consumer.\<close>

lemma deliver_unacked:
  assumes "deliver K periods cu topic b k = Ret (k', False)"
  shows "k' = k \<or> construct_chan periods topic cu k = Ret k'"
proof (cases "construct_chan periods topic cu k")
  case (Ret k1)
  obtain m ch where "k_chans k1 topic = Some m" "m cu = Some ch"
    using construct_chan_of(2) [OF Ret] by auto
  with Ret assms show ?thesis
    by (auto simp: deliver_def split: if_splits sum.splits)
qed (use assms in \<open>auto simp: deliver_def split: if_splits\<close>)

lemma deliver_acked:
  assumes "deliver K periods cu topic b k = Ret (k', True)"
  obtains k1 m ch d where "construct_chan periods topic cu k = Ret k1" and "k_chans k1 topic = Some m" and "m cu = Some ch"
    and "unmarshal K b = Inr d" and "k' = k1\<lparr>k_chans := (k_chans k1)(topic \<mapsto> m(cu \<mapsto> ch @ [d]))\<rparr>"
proof -
  obtain k1 where c1: "construct_chan periods topic cu k = Ret k1"
    using assms by (auto simp: deliver_def split: if_splits)
  obtain m ch where m: "k_chans k1 topic = Some m" "m cu = Some ch"
    using construct_chan_of(2) [OF c1] by auto
  obtain d where "unmarshal K b = Inr d"
    using assms c1 by (auto simp: deliver_def split: if_splits sum.splits)
  with c1 m show ?thesis
    by (intro that [of k1 m ch d]) (use assms in \<open>auto simp: deliver_def split: if_splits\<close>)
qed

lemma deliver_pend_all:
  assumes "kafka_wf periods k" and "deliver K periods cu topic b k = Ret (k', acked)"
  shows "pend_all k' cu' = (if acked \<and> cu' = cu then add_mset (projr (unmarshal K b)) (pend_all k cu') else pend_all k cu')"
    and "kafka_wf periods k'" and "k_world k' = k_world k"
proof -
  have wf: "kafka_wf periods k1" if "construct_chan periods topic cu k = Ret k1" for k1
    using construct_chan_frame [OF that] assms(1) unfolding kafka_wf_def by metis
  have c: "pend_all k1 cu' = pend_all k cu'" if "construct_chan periods topic cu k = Ret k1" for k1 cu'
    using construct_chan_frame [OF that] construct_chan_of(1) [OF that] by (intro pend_all_cong) auto
  have res: "pend_all k' cu' = (if acked \<and> cu' = cu then add_mset (projr (unmarshal K b)) (pend_all k cu') else pend_all k cu')
      \<and> kafka_wf periods k' \<and> k_world k' = k_world k"
  proof (cases acked)
    case False
    with assms(2) have "k' = k \<or> construct_chan periods topic cu k = Ret k'" by (simp add: deliver_unacked)
    with False assms(1) wf [of k'] c [of k'] construct_chan_frame [of periods topic cu k k'] show ?thesis by auto
  next
    case True
    with assms(2) obtain k1 m ch d where k1: "construct_chan periods topic cu k = Ret k1" "k_chans k1 topic = Some m"
      "m cu = Some ch" "unmarshal K b = Inr d" "k' = k1\<lparr>k_chans := (k_chans k1)(topic \<mapsto> m(cu \<mapsto> ch @ [d]))\<rparr>"
      by (auto elim: deliver_acked)
    have tp: "topic \<in> set (k_topics k1)"
      using construct_chan_topic [OF k1(1) assms(1)] construct_chan_frame [OF k1(1)] by simp
    have "pend_all k' cu' + kafka_pending k1 cu' topic = pend_all k1 cu' + kafka_pending k' cu' topic"
      by (rule pend_all_update) (use tp k1(5) in \<open>auto simp: chan_of_def\<close>)
    moreover have "kafka_pending k' cu' topic = kafka_pending k1 cu' topic + (if cu' = cu then {#d#} else {#})"
      using k1(2,3) by (simp add: k1(5) chan_of_def)
    ultimately have "pend_all k' cu' = pend_all k cu' + (if cu' = cu then {#d#} else {#})"
      using c [OF k1(1), of cu'] by (cases "cu' = cu") simp_all
    moreover have "kafka_wf periods k'"
      using wf [OF k1(1)] tp by (auto simp: kafka_wf_def k1(5))
    ultimately show ?thesis using True k1(4) construct_chan_frame [OF k1(1)] by (simp add: k1(5))
  qed
  from res show "pend_all k' cu' = (if acked \<and> cu' = cu then add_mset (projr (unmarshal K b)) (pend_all k cu') else pend_all k cu')"
    and "kafka_wf periods k'" and "k_world k' = k_world k" by blast+
qed

text \<open>Sending and subscribing leave the channels alone.\<close>

lemma Put_frame: "Put K D now app raw meta w k = (k', r) \<Longrightarrow> k_chans k' = k_chans k \<and> k_topics k' = k_topics k"
  by (auto simp: Put_def Let_def split: sum.splits option.splits prod.splits if_splits)

lemma Subscribe_frame: "Subscribe K cu topic k = (k', b) \<Longrightarrow> k_chans k' = k_chans k \<and> k_topics k' = k_topics k"
  by (auto simp: Subscribe_def split: option.splits prod.splits if_splits)

lemma frame_pend_all:
  assumes "k_chans k' = k_chans k \<and> k_topics k' = k_topics k"
  shows "pend_all k' cu = pend_all k cu" and "kafka_wf periods k' = kafka_wf periods k"
  using assms by (simp_all add: pend_all_def chan_of_def kafka_wf_def)

section \<open>Properties\<close>

text \<open>
  \<open>Get\<close> hands a consumer the oldest documents of its own channel in the order in which they
  were delivered, at most as many as asked for; every other channel stays as it is.
\<close>

theorem kafka_Get_fifo:
  assumes "Get periods u consumerName topic cnt k = (k', Ret (Inr ds))"
  shows "ds @ chan_of k' consumerName topic = chan_of k consumerName topic \<and>
     length ds = min (nat (sint cnt)) (length (chan_of k consumerName topic)) \<and>
     (\<forall>cu t. (cu, t) \<noteq> (consumerName, topic) \<longrightarrow> chan_of k' cu t = chan_of k cu t)"
  using Get_chan_of [OF assms] by auto

definition toy_config :: sarama_config where
  "toy_config = \<lparr>RequiredAcks = WaitForAll, Retry_Max = 3, Return_Successes = True,
     Offsets_Initial = OffsetNewest, TLS_Config = None, TLS_Enable = False\<rparr>"

definition toy_kafka :: "unit KafkaCache" where
  "toy_kafka = (kafka_state [] toy_config [\<lparr>Period = 1, Limit = 4\<rparr>] ())\<lparr>k_chans :=
     [''kafka_1ns'' \<mapsto> [''blockchain'' \<mapsto> [zero_doc, zero_doc\<lparr>Id := ''b''\<rparr>], ''persister'' \<mapsto> [zero_doc]]]\<rparr>"

lemma toy_chans: "k_chans toy_kafka =
     [''kafka_1ns'' \<mapsto> [''blockchain'' \<mapsto> [zero_doc, zero_doc\<lparr>Id := ''b''\<rparr>], ''persister'' \<mapsto> [zero_doc]]]"
  by (simp add: toy_kafka_def)

lemma toy_Get: "snd (Get [\<lparr>Period = 1, Limit = 4\<rparr>] () ''blockchain'' ''kafka_1ns'' 1 toy_kafka)
    = Ret (Inr [zero_doc])"
  by (simp add: Get_def construct_chan_def toy_chans Let_def)

theorem kafka_Get_fifo_witness:
  "\<exists>k'. Get [\<lparr>Period = 1, Limit = 4\<rparr>] () ''blockchain'' ''kafka_1ns'' 1 toy_kafka = (k', Ret (Inr [zero_doc])) \<and>
     chan_of k' ''blockchain'' ''kafka_1ns'' = [zero_doc\<lparr>Id := ''b''\<rparr>] \<and>
     chan_of k' ''persister'' ''kafka_1ns'' = [zero_doc]"
proof -
  obtain k' where k': "Get [\<lparr>Period = 1, Limit = 4\<rparr>] () ''blockchain'' ''kafka_1ns'' 1 toy_kafka = (k', Ret (Inr [zero_doc]))"
    using toy_Get by (metis prod.collapse)
  have "chan_of toy_kafka ''blockchain'' ''kafka_1ns'' = [zero_doc, zero_doc\<lparr>Id := ''b''\<rparr>]"
    "chan_of toy_kafka ''persister'' ''kafka_1ns'' = [zero_doc]"
    by (simp_all add: chan_of_def toy_chans)
  with kafka_Get_fifo [OF k'] k' show ?thesis by auto
qed

text \<open>
  C18. With Kafka the two consumers do not compete: whatever one of them has taken, the other
  still receives everything that was waiting for it.
\<close>

theorem kafka_both_consumers:
  assumes "Get periods u cu topic n k = (k1, Ret (Inr ds))" and "cu' \<noteq> cu"
    and "Get periods u cu' topic n' k1 = (k2, Ret (Inr es))"
    and "length (chan_of k cu' topic) \<le> nat (sint n')"
  shows "mset es = kafka_pending k cu' topic"
  using kafka.both_consumers [OF _ _ assms(1) _ assms(3,2)] assms(4) by simp

theorem kafka_both_consumers_witness:
  "\<exists>k1 k2. Get [\<lparr>Period = 1, Limit = 4\<rparr>] () ''blockchain'' ''kafka_1ns'' 1 toy_kafka = (k1, Ret (Inr [zero_doc])) \<and>
     Get [\<lparr>Period = 1, Limit = 4\<rparr>] () ''persister'' ''kafka_1ns'' 1 k1 = (k2, Ret (Inr [zero_doc])) \<and>
     mset [zero_doc] = kafka_pending toy_kafka ''persister'' ''kafka_1ns''"
proof -
  obtain k1 where k1: "Get [\<lparr>Period = 1, Limit = 4\<rparr>] () ''blockchain'' ''kafka_1ns'' 1 toy_kafka = (k1, Ret (Inr [zero_doc]))"
    using toy_Get by (metis prod.collapse)
  then have "k_chans k1 = [''kafka_1ns'' \<mapsto> [''blockchain'' \<mapsto> [zero_doc\<lparr>Id := ''b''\<rparr>], ''persister'' \<mapsto> [zero_doc]]]"
    by (auto simp: Get_def construct_chan_def toy_chans Let_def fun_eq_iff)
  then have "snd (Get [\<lparr>Period = 1, Limit = 4\<rparr>] () ''persister'' ''kafka_1ns'' 1 k1) = Ret (Inr [zero_doc])"
    by (simp add: Get_def construct_chan_def Let_def)
  then obtain k2 where k2: "Get [\<lparr>Period = 1, Limit = 4\<rparr>] () ''persister'' ''kafka_1ns'' 1 k1 = (k2, Ret (Inr [zero_doc]))"
    by (metis prod.collapse)
  have "mset [zero_doc] = kafka_pending toy_kafka ''persister'' ''kafka_1ns''"
    by (rule kafka_both_consumers [OF k1 _ k2]) (simp_all add: chan_of_def toy_chans)
  with k1 k2 show ?thesis by blast
qed

text \<open>
  C19. A document put into the Kafka cache reaches a consumer unchanged: the message that \<open>Put\<close>
  sends, when the consumer's goroutine handles it, appends the document to the channel of the
  consumer for the topic of its waiting period, if the encoder can be read back and the topic
  is one of the configured ones.
\<close>

theorem kafka_roundtrip:
  assumes "\<And>d b. marshal K d = Inr b \<Longrightarrow> unmarshal K b = Inr d"
    and "Put K D now app raw meta w k = (k', Ret (Inr d))" and "marshal K d = Inr b"
    and "k_chans k1 (Topic w) \<noteq> None" and "deliver K periods cu (Topic w) b k1 = Ret (k2, acked)"
  shows "d = new_doc D now app raw meta w \<and> acked \<and>
         chan_of k2 cu (Topic w) = chan_of k1 cu (Topic w) @ [d] \<and>
         (\<forall>cu' t. (cu', t) \<noteq> (cu, Topic w) \<longrightarrow> chan_of k2 cu' t = chan_of k1 cu' t)"
proof -
  obtain k0 where k0: "construct_chan periods (Topic w) cu k1 = Ret k0"
    using assms(4,5) by (auto simp: deliver_def split: outcome.splits if_splits)
  obtain m ch where m: "k_chans k0 (Topic w) = Some m" "m cu = Some ch"
    using construct_chan_of(2) [OF k0] by auto
  have "k2 = k0\<lparr>k_chans := (k_chans k0)(Topic w \<mapsto> m(cu \<mapsto> ch @ [d]))\<rparr>" "acked"
    using assms(4,5) assms(1) [OF assms(3)] k0 m by (auto simp: deliver_def)
  then show ?thesis
    using kafka.put_doc [OF assms(2)] m
    unfolding construct_chan_of(1) [OF k0, symmetric] by (auto simp: chan_of_def)
qed

definition toy_lib :: "'w kafka_lib" where
  "toy_lib = \<lparr>LoadX509KeyPair = (\<lambda>c k. Inl ''none''), ReadFile = (\<lambda>f. Inl ''none''), CertsFromPEM = (\<lambda>b. []),
     NewSyncProducer = (\<lambda>b c w. (w, None)),
     marshal = (\<lambda>d. if d = new_doc toy_digests (time_Unix 0) [] ''abc'' [] 1 then Inr ''1'' else Inl ''no''),
     unmarshal = (\<lambda>b. Inr (new_doc toy_digests (time_Unix 0) [] ''abc'' [] 1)),
     SendMessage = (\<lambda>t b w. (w, None)), NewConsumer = (\<lambda>b c t f w. (w, None)),
     CloseProducer = (\<lambda>w. (w, None)), CommitOffsets = (\<lambda>n w. (w, None)), CloseConsumer = (\<lambda>n w. (w, None))\<rparr>"

theorem kafka_roundtrip_witness:
  "\<exists>k2. deliver toy_lib [\<lparr>Period = 1, Limit = 4\<rparr>] ''blockchain'' (Topic 1) ''1'' toy_kafka = Ret (k2, True) \<and>
     chan_of k2 ''blockchain'' (Topic 1) = chan_of toy_kafka ''blockchain'' (Topic 1)
       @ [new_doc toy_digests (time_Unix 0) [] ''abc'' [] 1]"
proof -
  let ?d = "new_doc toy_digests (time_Unix 0) [] ''abc'' [] 1"
  have tp: "Topic 1 = ''kafka_1ns''" by code_simp
  have len: "\<not> length (Id ?d) < 8"
    by (simp add: new_doc_def length_DocumentID [OF digest_sizes_toy])
  have put: "Put toy_lib toy_digests (time_Unix 0) [] ''abc'' [] 1 toy_kafka = (toy_kafka, Ret (Inr ?d))"
    using len by (simp add: Put_def toy_lib_def Let_def)
  obtain k2 where k2: "deliver toy_lib [\<lparr>Period = 1, Limit = 4\<rparr>] ''blockchain'' (Topic 1) ''1'' toy_kafka = Ret (k2, True)"
    by (simp add: deliver_def construct_chan_def tp toy_chans toy_lib_def)
  have "?d = ?d \<and> True \<and>
     chan_of k2 ''blockchain'' (Topic 1) = chan_of toy_kafka ''blockchain'' (Topic 1) @ [?d] \<and>
     (\<forall>cu' t. (cu', t) \<noteq> (''blockchain'', Topic 1) \<longrightarrow> chan_of k2 cu' t = chan_of toy_kafka cu' t)"
    by (rule kafka_roundtrip [OF _ put _ _ k2]) (auto simp: toy_lib_def tp toy_chans split: if_splits)
  with k2 show ?thesis by blast
qed

text \<open>
  \<open>Close\<close> never returns, whatever the library answers: the loop that waits for the channels to
  drain starts over after every pass, even when every channel is empty, so the return statement
  is never reached and the signal handler never gets to the blockchain handler's \<open>Close\<close>.
\<close>

theorem kafka_Close_never_returns: "Close K names len chans k = None"
  by (simp add: Close_def Let_def close_loop_None)

end
