(* ===== verification/PersistLoop.thy ===== *)
theory PersistLoop
  imports Persister
begin

text \<open>
  The persistence loop, \<open>continuePersist\<close> and \<open>Close\<close> of \<open>persist/persist.go\<close>, as a transition
  system: the main goroutine with its \<open>select\<close>, the goroutines that fetch documents from the
  cache and send them into \<open>docsChan\<close>, and the workers that write batches, limited by the
  semaphore of \<open>vendor/github.com/conseweb/common/semaphore\<close>. Every interleaving of their steps
  is a run. The last four fields of the state are history: what was fetched, the order in
  which documents entered the channel, the batches started and the batches written.
\<close>

section \<open>States and steps\<close>

datatype pc = Selecting | PutAcquire | TickAcquire

record pconfig =
  chanCap :: nat
  queueSize :: int
  workers :: nat
  n_periods :: nat

definition default_persistChan_cap :: int where
  "default_persistChan_cap = 10000"

text \<open>The configuration values, with the default of the channel capacity.\<close>

definition load_pconfig :: "int \<Rightarrow> int \<Rightarrow> nat \<Rightarrow> nat \<Rightarrow> pconfig" where
  "load_pconfig chancap qsize nworkers periods =
     \<lparr>chanCap = nat (if chancap \<le> 0 then default_persistChan_cap else chancap),
      queueSize = qsize, workers = nworkers, n_periods = periods\<rparr>"

record pstate =
  main_pc :: pc
  docsChan :: "document list"
  docQueue :: "document list"
  busy :: nat                         \<comment> \<open>elements in the semaphore's channel\<close>
  jobs :: "nat list"                  \<comment> \<open>ticked goroutines: fetches still to start before the release\<close>
  getters :: nat                      \<comment> \<open>fetches started, \<open>cc.Get\<close> not yet called\<close>
  outboxes :: "document list list"    \<comment> \<open>fetched documents not yet sent, per goroutine\<close>
  inflight :: "document list list"    \<comment> \<open>batches in \<open>PutDocsIntoDB\<close>\<close>
  fetched :: "document multiset"
  sent :: "document list"
  started :: "document list list"
  written :: "document list list"

definition p_init :: pstate where
  "p_init = \<lparr>main_pc = Selecting, docsChan = [], docQueue = [], busy = 0, jobs = [],
     getters = 0, outboxes = [], inflight = [], fetched = {#}, sent = [], started = [], written = []\<rparr>"

abbreviation fetch_jobs :: "pstate \<Rightarrow> nat" where
  "fetch_jobs s \<equiv> length (jobs s)"

inductive pstep :: "pconfig \<Rightarrow> pstate \<Rightarrow> pstate \<Rightarrow> bool" for C where
  tick: "main_pc s = Selecting \<Longrightarrow> pstep C s (s\<lparr>main_pc := TickAcquire\<rparr>)"
| tick_go: "main_pc s = TickAcquire \<Longrightarrow> busy s < workers C \<Longrightarrow>
     pstep C s (s\<lparr>main_pc := Selecting, busy := busy s + 1, jobs := jobs s @ [n_periods C]\<rparr>)"
| fetch_start: "jobs s = xs @ Suc n # ys \<Longrightarrow>
     pstep C s (s\<lparr>jobs := xs @ n # ys, getters := getters s + 1\<rparr>)"
| fetch_release: "jobs s = xs @ 0 # ys \<Longrightarrow> pstep C s (s\<lparr>jobs := xs @ ys, busy := busy s - 1\<rparr>)"
| fetch_get: "getters s = Suc n \<Longrightarrow>
     pstep C s (s\<lparr>getters := n, outboxes := outboxes s @ [ds], fetched := fetched s + mset ds\<rparr>)"
| fetch_send: "outboxes s = xs @ (d # ds) # ys \<Longrightarrow> length (docsChan s) < chanCap C \<Longrightarrow>
     pstep C s (s\<lparr>outboxes := xs @ ds # ys, docsChan := docsChan s @ [d], sent := sent s @ [d]\<rparr>)"
| recv: "main_pc s = Selecting \<Longrightarrow> docsChan s = d # ds \<Longrightarrow>
     pstep C s (s\<lparr>docsChan := ds, docQueue := docQueue s @ [d],
        main_pc := (if int (length (docQueue s @ [d])) < queueSize C then Selecting else PutAcquire)\<rparr>)"
| timeout: "main_pc s = Selecting \<Longrightarrow>
     pstep C s (s\<lparr>main_pc := (if docQueue s = [] then Selecting else PutAcquire)\<rparr>)"
| put_go: "main_pc s = PutAcquire \<Longrightarrow> busy s < workers C \<Longrightarrow>
     pstep C s (s\<lparr>main_pc := Selecting, busy := busy s + 1, inflight := inflight s @ [docQueue s],
        started := started s @ [docQueue s], docQueue := []\<rparr>)"
| worker_done: "inflight s = xs @ b # ys \<Longrightarrow>
     pstep C s (s\<lparr>inflight := xs @ ys, busy := busy s - 1, written := written s @ [b]\<rparr>)"

inductive reachable :: "pconfig \<Rightarrow> pstate \<Rightarrow> bool" for C where
  start: "reachable C p_init"
| step: "reachable C s \<Longrightarrow> pstep C s t \<Longrightarrow> reachable C t"

text \<open>The condition on which the loop in \<open>Close\<close> ends and the session is closed.\<close>

definition close_ready :: "pstate \<Rightarrow> bool" where
  "close_ready s \<longleftrightarrow> \<not> (0 < length (docsChan s) \<or> 0 < length (docQueue s))"

section \<open>Invariants\<close>

definition conserved :: "pstate \<Rightarrow> bool" where
  "conserved s \<longleftrightarrow> fetched s = mset (concat (outboxes s)) + mset (sent s)"

definition fifo :: "pstate \<Rightarrow> bool" where
  "fifo s \<longleftrightarrow> sent s = concat (started s) @ docQueue s @ docsChan s \<and>
     mset (started s) = mset (inflight s) + mset (written s)"

definition bounded :: "pconfig \<Rightarrow> pstate \<Rightarrow> bool" where
  "bounded C s \<longleftrightarrow> length (docsChan s) \<le> chanCap C \<and> busy s \<le> workers C \<and>
     busy s = length (inflight s) + fetch_jobs s"

definition queue_ok :: "pconfig \<Rightarrow> pstate \<Rightarrow> bool" where
  "queue_ok C s \<longleftrightarrow> int (length (docQueue s)) \<le> max 1 (queueSize C) \<and>
     (main_pc s = Selecting \<longrightarrow> docQueue s = [] \<or> int (length (docQueue s)) < queueSize C) \<and>
     (main_pc s = TickAcquire \<longrightarrow> docQueue s = [] \<or> int (length (docQueue s)) < queueSize C) \<and>
     (main_pc s = PutAcquire \<longrightarrow> docQueue s \<noteq> []) \<and>
     (\<forall>b \<in> set (started s). b \<noteq> [] \<and> int (length b) \<le> max 1 (queueSize C))"

lemma conserved_step: "pstep C s t \<Longrightarrow> conserved s \<Longrightarrow> conserved t"
  by (induction rule: pstep.induct) (auto simp: conserved_def)

lemma fifo_step: "pstep C s t \<Longrightarrow> fifo s \<Longrightarrow> fifo t"
  by (induction rule: pstep.induct) (auto simp: fifo_def)

lemma bounded_step: "pstep C s t \<Longrightarrow> bounded C s \<Longrightarrow> bounded C t"
  by (induction rule: pstep.induct) (auto simp: bounded_def)

lemma queue_ok_step: "pstep C s t \<Longrightarrow> queue_ok C s \<Longrightarrow> queue_ok C t"
  by (induction rule: pstep.induct) (auto simp: queue_ok_def)

lemma reachable_inv:
  assumes "reachable C s"
  shows "conserved s" and "fifo s" and "bounded C s" and "queue_ok C s"
proof -
  have "conserved s \<and> fifo s \<and> bounded C s \<and> queue_ok C s"
    using assms
  proof (induction rule: reachable.induct)
    case start
    show ?case by (simp add: p_init_def conserved_def fifo_def bounded_def queue_ok_def)
  next
    case (step s t)
    then show ?case by (blast intro: conserved_step fifo_step bounded_step queue_ok_step)
  qed
  then show "conserved s" and "fifo s" and "bounded C s" and "queue_ok C s" by auto
qed

lemma mset_concat_mset: "mset (concat xss) = sum_mset (image_mset mset (mset xss))"
  by (induction xss) auto

text \<open>Every fetched document is in exactly one place.\<close>

lemma conservation:
  assumes "reachable C s"
  shows "fetched s = mset (concat (outboxes s)) + mset (docsChan s) + mset (docQueue s)
           + mset (concat (inflight s)) + mset (concat (written s))"
  using reachable_inv(1,2) [OF assms]
  by (simp add: conserved_def fifo_def mset_concat_mset ac_simps)

lemma job_step: "jobs s \<noteq> [] \<Longrightarrow> \<exists>t. pstep C s t"
  using pstep.fetch_start [of s "[]"] pstep.fetch_release [of s "[]"]
  by (metis append_Nil list.exhaust not0_implies_Suc)

text \<open>Some goroutine can always move as long as the semaphore has room for one worker.\<close>

lemma progress:
  assumes "reachable C s" and "0 < workers C"
  shows "\<exists>t. pstep C s t"
proof (cases "main_pc s")
  case Selecting
  then show ?thesis by (blast intro: pstep.tick)
next
  case blocked: PutAcquire
  show ?thesis
  proof (cases "busy s < workers C")
    case True
    with blocked show ?thesis by (blast intro: pstep.put_go)
  next
    case False
    with reachable_inv(3) [OF assms(1)] assms(2) have "inflight s \<noteq> [] \<or> jobs s \<noteq> []"
      by (auto simp: bounded_def)
    then show ?thesis using job_step by (metis pstep.worker_done append_Nil list.exhaust)
  qed
next
  case blocked: TickAcquire
  show ?thesis
  proof (cases "busy s < workers C")
    case True
    with blocked show ?thesis by (blast intro: pstep.tick_go)
  next
    case False
    with reachable_inv(3) [OF assms(1)] assms(2) have "inflight s \<noteq> [] \<or> jobs s \<noteq> []"
      by (auto simp: bounded_def)
    then show ?thesis using job_step by (metis pstep.worker_done append_Nil list.exhaust)
  qed
qed

section \<open>Properties\<close>

text \<open>
  C13. No document is lost or duplicated: in every reachable state each fetched document is in
  exactly one place, with a fetching goroutine, in the channel, in the queue, with a worker or
  written, and the documents leave the channel in the order in which they entered it.
\<close>

theorem persist_conservation:
  assumes "reachable C s"
  shows "fetched s = mset (concat (outboxes s)) + mset (docsChan s) + mset (docQueue s)
           + mset (concat (inflight s)) + mset (concat (written s)) \<and>
         sent s = concat (started s) @ docQueue s @ docsChan s"
  using conservation [OF assms] reachable_inv(2) [OF assms] by (simp add: fifo_def)

text \<open>A run for the examples: one document fetched, sent, received and handed to a worker.\<close>

definition run_config :: pconfig where
  "run_config = load_pconfig 0 1 1 1"

definition run_state :: pstate where
  "run_state = p_init\<lparr>busy := 1, outboxes := [[]], inflight := [[zero_doc]], fetched := {#zero_doc#},
     sent := [zero_doc], started := [[zero_doc]]\<rparr>"

lemma reachable_step: "reachable C s \<Longrightarrow> pstep C s t' \<Longrightarrow> t' = t \<Longrightarrow> reachable C t"
  by (blast intro: reachable.step)

lemma run_config: "chanCap run_config = 10000" "queueSize run_config = 1" "workers run_config = 1"
  "n_periods run_config = 1"
  by (simp_all add: run_config_def load_pconfig_def default_persistChan_cap_def)

lemma run_reachable: "reachable run_config run_state"
proof -
  let ?f = "p_init\<lparr>fetched := {#zero_doc#}\<rparr>"
  have "reachable run_config (p_init\<lparr>main_pc := TickAcquire\<rparr>)"
    by (rule reachable_step [OF reachable.start pstep.tick]) (simp_all add: p_init_def)
  then have "reachable run_config (p_init\<lparr>busy := 1, jobs := [1]\<rparr>)"
    by (rule reachable_step [OF _ pstep.tick_go]) (simp_all add: p_init_def run_config)
  then have "reachable run_config (p_init\<lparr>busy := 1, jobs := [0], getters := 1\<rparr>)"
    by (rule reachable_step [OF _ pstep.fetch_start [where xs = "[]" and ys = "[]" and n = 0]]) (simp_all add: p_init_def run_config)
  then have "reachable run_config (p_init\<lparr>getters := 1\<rparr>)"
    by (rule reachable_step [OF _ pstep.fetch_release [where xs = "[]" and ys = "[]"]]) (simp_all add: p_init_def run_config)
  then have "reachable run_config (?f\<lparr>outboxes := [[zero_doc]]\<rparr>)"
    by (rule reachable_step [OF _ pstep.fetch_get [where n = 0 and ds = "[zero_doc]"]])
       (simp_all add: p_init_def)
  then have "reachable run_config (?f\<lparr>outboxes := [[]], docsChan := [zero_doc], sent := [zero_doc]\<rparr>)"
    by (rule reachable_step [OF _ pstep.fetch_send [where xs = "[]" and ys = "[]" and d = zero_doc and ds = "[]"]])
       (simp_all add: p_init_def run_config)
  then have "reachable run_config (?f\<lparr>outboxes := [[]], docQueue := [zero_doc], sent := [zero_doc],
      main_pc := PutAcquire\<rparr>)"
    by (rule reachable_step [OF _ pstep.recv [where d = zero_doc and ds = "[]"]])
       (simp_all add: p_init_def run_config)
  then show ?thesis
    by (rule reachable_step [OF _ pstep.put_go]) (simp_all add: p_init_def run_config run_state_def)
qed

theorem persist_conservation_witness:
  "fetched run_state = mset (concat (outboxes run_state)) + mset (docsChan run_state)
     + mset (docQueue run_state) + mset (concat (inflight run_state)) + mset (concat (written run_state))
   \<and> sent run_state = concat (started run_state) @ docQueue run_state @ docsChan run_state"
  by (rule persist_conservation [OF run_reachable])

text \<open>
  C15. Every batch handed to a worker is non-empty and no larger than the configured queue size
  (and than one document, when the size is not positive); the channel never exceeds its capacity
  and the number of workers and fetchers at work never exceeds the semaphore.
\<close>

theorem persist_batch_bounds:
  assumes "reachable C s" and "b \<in> set (started s)"
  shows "b \<noteq> [] \<and> int (length b) \<le> max 1 (queueSize C) \<and> length (docsChan s) \<le> chanCap C \<and>
         length (inflight s) + fetch_jobs s \<le> workers C"
  using reachable_inv(3,4) [OF assms(1)] assms(2) by (auto simp: queue_ok_def bounded_def)

theorem persist_batch_bounds_witness:
  "[zero_doc] \<noteq> [] \<and> int (length [zero_doc]) \<le> max 1 (queueSize run_config) \<and>
   length (docsChan run_state) \<le> chanCap run_config \<and>
   length (inflight run_state) + fetch_jobs run_state \<le> workers run_config"
  by (rule persist_batch_bounds [OF run_reachable]) (simp add: run_state_def)

section \<open>Draining\<close>

text \<open>
  How far the documents are from the database, the fetches still to start, and the blocking states of
  the main goroutine.
\<close>

fun pc_weight :: "pconfig \<Rightarrow> pc \<Rightarrow> nat" where
  "pc_weight C Selecting = 1"
| "pc_weight C PutAcquire = 0"
| "pc_weight C TickAcquire = n_periods C + 3"

definition work_left :: "pconfig \<Rightarrow> pstate \<Rightarrow> nat" where
  "work_left C s = 8 * length (concat (outboxes s)) + 6 * length (docsChan s) + 4 * length (docQueue s)
     + 2 * length (inflight s) + sum_list (map Suc (jobs s)) + pc_weight C (main_pc s)"

definition drained :: "pstate \<Rightarrow> bool" where
  "drained s \<longleftrightarrow> concat (outboxes s) = [] \<and> docsChan s = [] \<and> docQueue s = [] \<and> inflight s = []"

lemma concat_nonempty_split: "concat xss \<noteq> [] \<Longrightarrow> \<exists>as d ds bs. xss = as @ (d # ds) # bs"
proof -
  assume "concat xss \<noteq> []"
  then obtain xs where xs: "xs \<in> set xss" "xs \<noteq> []" by auto
  then obtain as bs where "xss = as @ xs # bs" by (metis split_list)
  with xs(2) show ?thesis by (cases xs) blast+
qed

lemma selecting_step:
  assumes "main_pc s = Selecting" and "inflight s = []" and "0 < chanCap C" and "\<not> drained s"
  shows "\<exists>t. pstep C s t \<and> work_left C t < work_left C s \<and> fetched t = fetched s"
proof (cases "docsChan s")
  case (Cons d ds)
  from pstep.recv [OF assms(1) Cons] show ?thesis
    by - (intro exI conjI, assumption, auto simp: work_left_def assms(1) Cons)
next
  case no_chan: Nil
  show ?thesis
  proof (cases "docQueue s = []")
    case False
    with pstep.timeout [OF assms(1), of C] show ?thesis
      by - (intro exI conjI, assumption, auto simp: work_left_def assms(1))
  next
    case True
    with assms(2,4) no_chan have "concat (outboxes s) \<noteq> []" by (simp add: drained_def)
    then obtain as d ds bs where o: "outboxes s = as @ (d # ds) # bs"
      using concat_nonempty_split by blast
    have "length (docsChan s) < chanCap C" using no_chan assms(3) by simp
    from pstep.fetch_send [OF o this] show ?thesis
      by - (intro exI conjI, assumption, auto simp: work_left_def o)
  qed
qed

lemma work_step:
  assumes "reachable C s" and "0 < workers C" and "0 < chanCap C" and "\<not> drained s"
  shows "\<exists>t. pstep C s t \<and> work_left C t < work_left C s \<and> fetched t = fetched s"
proof (cases "inflight s")
  case (Cons b bs)
  then have "inflight s = [] @ b # bs" by simp
  from pstep.worker_done [OF this, of C] show ?thesis
    by - (intro exI conjI, assumption, auto simp: work_left_def Cons)
next
  case no_batch: Nil
  show ?thesis
  proof (cases "jobs s")
    case (Cons n ys)
    then have j: "jobs s = [] @ n # ys" by simp
    show ?thesis
    proof (cases n)
      case 0
      from pstep.fetch_release [OF j [unfolded 0], of C] show ?thesis
        by - (intro exI conjI, assumption, auto simp: work_left_def Cons 0)
    next
      case (Suc m)
      from pstep.fetch_start [OF j [unfolded Suc], of C] show ?thesis
        by - (intro exI conjI, assumption, auto simp: work_left_def Cons Suc)
    qed
  next
    case Nil
    with no_batch reachable_inv(3) [OF assms(1)] assms(2) have free: "busy s < workers C"
      by (simp add: bounded_def)
    show ?thesis
    proof (cases "main_pc s")
      case TickAcquire
      from pstep.tick_go [OF this free] show ?thesis
        by - (intro exI conjI, assumption, auto simp: work_left_def TickAcquire)
    next
      case PutAcquire
      then have "docQueue s \<noteq> []" using reachable_inv(4) [OF assms(1)] by (simp add: queue_ok_def)
      then have "3 < 4 * length (docQueue s)" by (cases "docQueue s") simp_all
      then show ?thesis using pstep.put_go [OF PutAcquire free]
        by - (intro exI conjI, assumption, auto simp: work_left_def PutAcquire)
    next
      case Selecting
      then show ?thesis by (rule selecting_step [OF _ no_batch assms(3,4)])
    qed
  qed
qed

lemma drain_run:
  assumes "reachable C s" and "0 < workers C" and "0 < chanCap C"
  shows "\<exists>t. (pstep C)\<^sup>*\<^sup>* s t \<and> reachable C t \<and> drained t \<and> fetched t = fetched s"
  using assms(1)
proof (induction "work_left C s" arbitrary: s rule: less_induct)
  case less
  show ?case
  proof (cases "drained s")
    case True
    with less.prems show ?thesis by blast
  next
    case False
    then obtain u where u: "pstep C s u" "work_left C u < work_left C s" "fetched u = fetched s"
      using work_step [OF less.prems assms(2,3)] by blast
    with less.hyps [OF u(2)] reachable.step [OF less.prems u(1)] show ?thesis
      by (metis converse_rtranclp_into_rtranclp)
  qed
qed

text \<open>
  C14. The loop never deadlocks and no document gets stuck: from every reachable state, with at
  least one worker and one place in the channel, the goroutines can go on, without fetching
  anything more, until every fetched document has been written.
\<close>

theorem persist_drains:
  assumes "reachable C s" and "0 < workers C" and "0 < chanCap C"
  shows "\<exists>t. (pstep C)\<^sup>*\<^sup>* s t \<and> mset (concat (written t)) = fetched s"
proof -
  obtain t where "(pstep C)\<^sup>*\<^sup>* s t" "reachable C t" "drained t" "fetched t = fetched s"
    using drain_run [OF assms] by blast
  with conservation [of C t] show ?thesis by (auto simp: drained_def)
qed

theorem persist_drains_witness:
  "\<exists>t. (pstep run_config)\<^sup>*\<^sup>* run_state t \<and> mset (concat (written t)) = {#zero_doc#}"
  using persist_drains [OF run_reachable] by (simp add: run_config) (simp add: run_state_def)

text \<open>
  \<open>Close\<close> waits only for the channel and the queue: it can close the database session while
  a batch taken from them is still with a worker, or fetched documents are still on their way.
\<close>

theorem persist_close_too_early:
  "\<exists>s. reachable run_config s \<and> close_ready s \<and> concat (inflight s) = [zero_doc] \<and> written s = []"
proof (intro exI conjI)
  show "reachable run_config run_state" by (rule run_reachable)
qed (simp_all add: run_state_def p_init_def close_ready_def)

end
