(* ===== verification/Startup.thy ===== *)
theory Startup
  imports Blockchain Cassandra MemoryCache KafkaCache PersistLoop
begin

text \<open>
  How the program is put together: the choice of the cache and of the persister from the
  configuration (\<open>cache/cache.go\<close>, \<open>persist/persist.go\<close>), the order of \<open>main\<close>, and the start of
  the two consumers, which subscribe every topic before they take documents from it.
\<close>

section \<open>The cache behind the interface\<close>

text \<open>
  A value of type \<open>CacheInterface\<close> is one of the two caches; a call goes to the method of the one
  it holds.
\<close>

datatype 'b any_cache = Memory MemoryCache | Kafka "'b KafkaCache"

definition any_Put :: "'b kafka_lib \<Rightarrow> digests \<Rightarrow> gotime \<Rightarrow> string \<Rightarrow> bytes \<Rightarrow> string \<Rightarrow> i64 \<Rightarrow> 'b any_cache
    \<Rightarrow> 'b any_cache \<times> (err + document) outcome" where
  "any_Put K D now appName raw metadata waitDuration c =
     (case c of
        Memory m \<Rightarrow> apfst Memory (MemoryCache.Put D now appName raw metadata waitDuration m)
      | Kafka k \<Rightarrow> apfst Kafka (KafkaCache.Put K D now appName raw metadata waitDuration k))"

definition any_Get :: "PeriodLimit list \<Rightarrow> string list \<Rightarrow> string \<Rightarrow> string \<Rightarrow> i64 \<Rightarrow> 'b any_cache
    \<Rightarrow> 'b any_cache \<times> (err + document list) outcome" where
  "any_Get periods order consumer topic cnt c =
     (case c of
        Memory m \<Rightarrow> apfst Memory (MemoryCache.Get order consumer topic cnt m)
      | Kafka k \<Rightarrow> apfst Kafka (KafkaCache.Get periods () consumer topic cnt k))"

definition any_Subscribe :: "'b kafka_lib \<Rightarrow> string \<Rightarrow> string \<Rightarrow> 'b any_cache \<Rightarrow> 'b any_cache \<times> bool" where
  "any_Subscribe K consumer topic c =
     (case c of
        Memory m \<Rightarrow> apfst Memory (MemoryCache.Subscribe consumer topic m)
      | Kafka k \<Rightarrow> apfst Kafka (KafkaCache.Subscribe K consumer topic k))"

definition any_Topic :: "'b any_cache \<Rightarrow> i64 \<Rightarrow> string" where
  "any_Topic c d = (case c of Memory m \<Rightarrow> MemoryCache.Topic d | Kafka k \<Rightarrow> KafkaCache.Topic d)"

text \<open>What waits in it for a consumer, with the contract of the interface for whichever cache it is.\<close>

definition any_pending :: "'b any_cache \<Rightarrow> string \<Rightarrow> string \<Rightarrow> document multiset" where
  "any_pending c consumer topic =
     (case c of Memory m \<Rightarrow> MemoryCache.pending m consumer topic | Kafka k \<Rightarrow> kafka_pending k consumer topic)"

definition any_choice :: "string list \<Rightarrow> 'b any_cache \<Rightarrow> string \<Rightarrow> bool" where
  "any_choice order c topic = (case c of Memory m \<Rightarrow> order_ok order m topic | Kafka k \<Rightarrow> True)"

definition any_inv :: "'b any_cache \<Rightarrow> bool" where
  "any_inv c = (case c of Memory m \<Rightarrow> cache_inv m | Kafka k \<Rightarrow> True)"

lemmas any_defs = any_Put_def any_Get_def any_pending_def any_choice_def any_inv_def

lemma apfst_eq: "apfst f p = (x, y) \<longleftrightarrow> (\<exists>z. p = (z, y) \<and> x = f z)"
  by (cases p) auto

interpretation any: cache_contract D "any_Put K D" "any_Get periods" any_pending any_choice any_inv for D K periods
proof unfold_locales
  show "any_Put K D now app raw meta w c = (c', Ret (Inr d)) \<Longrightarrow> d = new_doc D now app raw meta w"
    for K :: "'b kafka_lib" and D now app raw meta w c c' d
    by (cases c) (auto simp: any_defs apfst_eq dest: mem.put_doc kafka.put_doc)
  show "any_inv c \<Longrightarrow> any_inv (fst (any_Put K D now app raw meta w c))" for K :: "'b kafka_lib" and D now app raw meta w c
    by (cases c) (simp_all add: any_defs mem.put_inv)
  show "any_inv c \<Longrightarrow> any_choice x c tp \<Longrightarrow> any_inv (fst (any_Get periods x cu tp n c))"
    for periods x cu tp n and c :: "'b any_cache"
    by (cases c) (simp_all add: any_defs mem.get_inv)
  show "any_inv c \<Longrightarrow> any_choice x c tp \<Longrightarrow> any_Get periods x cu tp n c = (c', Ret (Inr ds)) \<Longrightarrow>
      mset ds \<subseteq># any_pending c cu tp \<and> any_pending c' cu tp = any_pending c cu tp - mset ds"
    for periods x cu tp n ds and c c' :: "'b any_cache"
    by (cases c) (auto simp: any_defs apfst_eq dest: mem.get_takes kafka.get_takes [OF TrueI TrueI])
  show "any_inv c \<Longrightarrow> any_choice x c tp \<Longrightarrow> any_Get periods x cu tp n c = (c', Ret (Inr ds)) \<Longrightarrow>
      length ds = min (nat (sint n)) (size (any_pending c cu tp))"
    for periods x cu tp n ds and c c' :: "'b any_cache"
    by (cases c) (auto simp: any_defs apfst_eq dest: mem.get_count kafka.get_count [OF TrueI TrueI])
qed

section \<open>Choosing the components\<close>

definition default_cache_name :: string where
  "default_cache_name = ''memory''"

definition NewCache :: "viper \<Rightarrow> 'b kafka_lib \<Rightarrow> PeriodLimit list \<Rightarrow> 'b \<Rightarrow> 'b any_cache outcome" where
  "NewCache V K periods b =
     (let n = GetString V ''cache.type''; cacheName = (if n = [] then default_cache_name else n)
      in if cacheName = ''kafka'' then obind (NewKafkaCache V K periods b) (\<lambda>k. Ret (Kafka k))
         else if cacheName = ''memory'' then Ret (Memory NewMemoryCache)
         else Fatal (''unsupported cache type '' @ cacheName))"

definition default_persister_name :: string where
  "default_persister_name = ''leveldb''"

text \<open>The loop \<open>continuePersist\<close> is started in a goroutine of its own; its panics come later.\<close>

definition NewPersister :: "viper \<Rightarrow> (gocql_cluster \<Rightarrow> err + 'db session) \<Rightarrow> 'db persister outcome" where
  "NewPersister V createSession =
     (let n = GetString V ''persist.type''; persisterName = (if n = [] then default_persister_name else n)
      in if persisterName = ''cassandra'' then NewCassandraPersister V createSession
         else Fatal (''unsupported persist type '' @ persisterName))"

text \<open>
  The set-up of \<open>continuePersist\<close>: a negative size of a channel and an interval of a ticker that is
  not positive panic.
\<close>

definition start_persist :: "viper \<Rightarrow> PeriodLimit list \<Rightarrow> pconfig outcome" where
  "start_persist V limits =
     (if sint (GetInt V ''persist.workers'') < 0 then Panic ''makechan: size out of range''
      else if sint (GetDuration V ''persist.cacheCheckInterval'') \<le> 0 then Panic ''non-positive interval for NewTicker''
      else if sint (GetDuration V ''persist.queueTimeout'') \<le> 0 then Panic ''non-positive interval for NewTicker''
      else Ret (load_pconfig (sint (GetInt V ''persist.chancap'')) (sint (GetInt V ''persist.queueSize''))
                  (nat (sint (GetInt V ''persist.workers''))) (length limits)))"

text \<open>\<open>main\<close> up to the start of the API server: cache, persister, blockchain handler.\<close>

definition main_start :: "viper \<Rightarrow> 'b kafka_lib \<Rightarrow> (gocql_cluster \<Rightarrow> err + 'db session) \<Rightarrow> PeriodLimit list \<Rightarrow> 'b
    \<Rightarrow> ('b any_cache \<times> 'db persister \<times> Blockchain) outcome" where
  "main_start V K createSession periods b =
     obind (NewCache V K periods b) (\<lambda>cc. obind (NewPersister V createSession) (\<lambda>p.
       case NewBlockchain V of
         Inl e \<Rightarrow> Fatal (''create blockchain failure,error : '' @ e @ '',the program over.'')
       | Inr bc \<Rightarrow> Ret (cc, p, bc)))"

text \<open>\<open>version.GetCompleteVersion\<close>, which \<open>main\<close> logs first.\<close>

definition GetCompleteVersion :: "string \<Rightarrow> string \<Rightarrow> string" where
  "GetCompleteVersion version gitCommit = version @ ''-'' @ gitCommit"

section \<open>The consumers\<close>

text \<open>
  The first part of \<open>continueProof\<close>: subscribe the topic of every period, in order; each success
  starts the ticker of the period, a refusal ends the process.
\<close>

fun subscribe_periods ::
    "(string \<Rightarrow> string \<Rightarrow> 'c \<Rightarrow> 'c \<times> bool) \<Rightarrow> (i64 \<Rightarrow> string) \<Rightarrow> string \<Rightarrow> PeriodLimit list
       \<Rightarrow> PeriodLimit list \<Rightarrow> 'c \<Rightarrow> 'c \<times> PeriodLimit list outcome" where
  "subscribe_periods sub topicf nm [] tickers c = (c, Ret tickers)"
| "subscribe_periods sub topicf nm (p # ps) tickers c =
     (case sub nm (topicf (Period p)) c of
        (c', True) \<Rightarrow> subscribe_periods sub topicf nm ps (tickers @ [p]) c'
      | (c', False) \<Rightarrow> (c', Fatal (''can't subscribe cache topic '' @ topicf (Period p))))"

text \<open>
  \<open>continueProof\<close>: every subscribed period gets a goroutine with a ticker, and a ticker with an
  interval that is not positive panics, which ends the process.
\<close>

definition continueProof ::
    "(string \<Rightarrow> string \<Rightarrow> 'c \<Rightarrow> 'c \<times> bool) \<Rightarrow> (i64 \<Rightarrow> string) \<Rightarrow> string \<Rightarrow> PeriodLimit list
       \<Rightarrow> 'c \<Rightarrow> 'c \<times> PeriodLimit list outcome" where
  "continueProof sub topicf nm periods c =
     (case subscribe_periods sub topicf nm periods [] c of
        (c', Ret tickers) \<Rightarrow>
          (c', if list_all (\<lambda>p. 0 < sint (Period p)) tickers then Ret tickers
               else Panic ''non-positive interval for NewTicker'')
      | (c', Panic e) \<Rightarrow> (c', Panic e)
      | (c', Fatal e) \<Rightarrow> (c', Fatal e))"

text \<open>
  The goroutine of \<open>getDocumentsFromCache\<close> for one period: what it will send into \<open>docsChan\<close>.
\<close>

definition fetch_documents ::
    "(string \<Rightarrow> string \<Rightarrow> 'c \<Rightarrow> 'c \<times> bool)
       \<Rightarrow> ('o \<Rightarrow> string \<Rightarrow> string \<Rightarrow> i64 \<Rightarrow> 'c \<Rightarrow> 'c \<times> (err + document list) outcome)
       \<Rightarrow> (i64 \<Rightarrow> string) \<Rightarrow> 'o \<Rightarrow> PeriodLimit \<Rightarrow> 'c \<Rightarrow> 'c \<times> document list outcome" where
  "fetch_documents sub get topicf x period c =
     (let topic = topicf (Period period)
      in case sub ''persister'' topic c of
           (c1, False) \<Rightarrow> (c1, Fatal (''can't subscribe cache topic '' @ topic))
         | (c1, True) \<Rightarrow>
             (case get x ''persister'' topic (Limit period) c1 of
                (c2, Ret (Inr docs)) \<Rightarrow> (c2, Ret docs)
              | (c2, Ret (Inl e)) \<Rightarrow> (c2, Ret [])
              | (c2, Panic e) \<Rightarrow> (c2, Panic e)
              | (c2, Fatal e) \<Rightarrow> (c2, Fatal e)))"

section \<open>Facts\<close>

text \<open>
  The program only starts with an explicit persister type, since its default is not supported,
  a session, and a complete configuration of the blockchain handler.
\<close>

lemma main_start_ok:
  "main_start V K createSession periods b = Ret r \<longleftrightarrow>
     (\<exists>cc S bc. NewCache V K periods b = Ret cc \<and> GetString V ''persist.type'' = ''cassandra'' \<and>
        createSession \<lparr>cl_Hosts = GetStringSlice V ''persist.cassandra.clusters'',
                       cl_Keyspace = GetString V ''persist.cassandra.keyspace''\<rparr> = Inr S \<and>
        NewBlockchain V = Inr bc \<and> r = (cc, cassandra_persister S, bc))"
  by (cases "NewBlockchain V") (auto simp: main_start_def NewPersister_def NewCassandraPersister_def
      default_persister_name_def Let_def split: sum.splits if_splits)

lemma subscribe_periods_all:
  "(\<And>t c. snd (sub nm t c)) \<Longrightarrow> snd (subscribe_periods sub topicf nm ps ts c) = Ret (ts @ ps)"
proof (induction sub topicf nm ps ts c rule: subscribe_periods.induct)
  case (2 sub topicf nm p ps tickers c)
  then obtain c' where "sub nm (topicf (Period p)) c = (c', True)" by (metis prod.collapse)
  with 2 show ?case by simp
qed simp


text \<open>
  With the cache in memory every configured period gets its ticker, provided that all of them are
  positive; one that is not, which the configuration allows, ends the process.
\<close>

lemma continueProof_memory:
  "snd (continueProof MemoryCache.Subscribe topicf nm periods c) =
     (if list_all (\<lambda>p. 0 < sint (Period p)) periods then Ret periods
      else Panic ''non-positive interval for NewTicker'')"
proof -
  have "snd (subscribe_periods MemoryCache.Subscribe topicf nm periods [] c) = Ret ([] @ periods)"
    by (rule subscribe_periods_all) (simp add: MemoryCache.Subscribe_def Let_def)
  then show ?thesis by (auto simp: continueProof_def split: prod.splits outcome.splits)
qed

end
