(* ===== verification/Server.thy ===== *)
theory Server
  imports Api Startup
begin

text \<open>
  The API server as one component, \<open>api/api.go\<close>: its construction with the route table, the address
  it listens on, and a request served from the route to the response. The router of the web
  framework is third-party code; the table leaves it no choice, because no request matches two
  routes. A path is given by its segments between the slashes.
\<close>

section \<open>Routes\<close>

datatype verb = GET | POST

datatype handler = SubmitRaw | PostProofResult | GetProofStatus | GetProofResult | GetDocs | GetDocStat
  | GetNormalDocStat

datatype segment = Lit string | Param string

definition routes :: "(verb \<times> segment list \<times> handler) list" where
  "routes =
     [(POST, [Lit ''poe'', Lit ''v1'', Lit ''documents''], SubmitRaw),
      (POST, [Lit ''poe'', Lit ''v1'', Lit ''documents'', Lit ''result''], PostProofResult),
      (GET, [Lit ''poe'', Lit ''v1'', Lit ''documents'', Param ''id'', Lit ''status''], GetProofStatus),
      (GET, [Lit ''poe'', Lit ''v1'', Lit ''documents'', Param ''id'', Lit ''result''], GetProofResult),
      (GET, [Lit ''poe'', Lit ''v1'', Lit ''documents''], GetDocs),
      (GET, [Lit ''poe'', Lit ''v1'', Lit ''stat'', Lit ''customize''], GetDocStat),
      (GET, [Lit ''poe'', Lit ''v1'', Lit ''stat'', Lit ''normal''], GetNormalDocStat)]"

text \<open>The values of the parameters when a pattern matches a path.\<close>

fun match_path :: "segment list \<Rightarrow> string list \<Rightarrow> (string \<times> string) list option" where
  "match_path [] [] = Some []"
| "match_path (Lit l # ps) (s # ss) = (if l = s then match_path ps ss else None)"
| "match_path (Param x # ps) (s # ss) = (if s = [] then None else map_option (Cons (x, s)) (match_path ps ss))"
| "match_path _ _ = None"

definition matches :: "verb \<Rightarrow> string list \<Rightarrow> (handler \<times> (string \<times> string) list) list" where
  "matches v p = List.map_filter (\<lambda>(v', pat, h). if v' = v then map_option (Pair h) (match_path pat p) else None) routes"

record ('b, 'p) APIServer =
  srv_routes :: "(verb \<times> segment list \<times> handler) list"
  srv_cache :: "'b any_cache"
  srv_persister :: "'p persister"
  srv_blockchain :: Blockchain

definition NewAPIServer :: "'b any_cache \<Rightarrow> 'p persister \<Rightarrow> Blockchain \<Rightarrow> ('b, 'p) APIServer" where
  "NewAPIServer cc p bc = \<lparr>srv_routes = routes, srv_cache = cc, srv_persister = p, srv_blockchain = bc\<rparr>"

definition default_api_addr :: string where
  "default_api_addr = '':9694''"

text \<open>\<open>Start\<close> and \<open>Stop\<close> of the server, over the framework's \<open>Listen\<close> and \<open>Close\<close>.\<close>

definition api_Start :: "viper \<Rightarrow> (string \<Rightarrow> 'w \<Rightarrow> 'w) \<Rightarrow> 'w \<Rightarrow> 'w" where
  "api_Start V listen w =
     (let a = GetString V ''api.addr''; addr = (if a = [] then default_api_addr else a) in listen addr w)"

definition api_Stop :: "('w \<Rightarrow> 'w \<times> err option) \<Rightarrow> 'w \<Rightarrow> 'w \<times> err option" where
  "api_Stop close w = (case close w of (w', Some e) \<Rightarrow> (w', Some e) | (w', None) \<Rightarrow> (w', None))"

section \<open>Serving a request\<close>

text \<open>What the framework has decoded of a request: path, JSON bodies and URL parameters.\<close>

record request =
  rq_verb :: verb
  rq_path :: "string list"
  rq_submit :: "err + DocumentSubmitRequest"
  rq_raw :: "err + string"
  rq_appName :: string
  rq_type :: string
  rq_count :: "err + i64"
  rq_start :: "err + i64"
  rq_end :: "err + i64"

text \<open>The parts of the environment that the handlers read, and the bounds package \<open>now\<close> computes.\<close>

record 'c frame =
  fr_parse :: parse_duration
  fr_limits :: "PeriodLimit list"
  fr_put :: "string \<Rightarrow> bytes \<Rightarrow> string \<Rightarrow> i64 \<Rightarrow> 'c \<Rightarrow> 'c \<times> (err + document) outcome"
  fr_sort :: sorter
  fr_day :: "gotime \<times> gotime"
  fr_week :: "gotime \<times> gotime"
  fr_month :: "gotime \<times> gotime"

definition path_id :: "(string \<times> string) list \<Rightarrow> string" where
  "path_id ps = (case map_of ps ''id'' of None \<Rightarrow> [] | Some i \<Rightarrow> i)"

definition serve ::
    "('p, 'w, 'k, 'prk, 'puk, 'pt) server_env \<Rightarrow> 'c frame \<Rightarrow> request \<Rightarrow> 'c \<Rightarrow> 'p \<Rightarrow> ('w, 'prk, 'puk) server
       \<Rightarrow> 'c \<times> ('w, 'prk, 'puk) server \<times> spawned list \<times> response outcome" where
  "serve V Fr rq c p s =
     (case matches (rq_verb rq) (rq_path rq) of
        [] \<Rightarrow> (c, s, [], Ret (404, PlainError ''Not Found''))
      | (h, ps) # _ \<Rightarrow>
          (case h of
             SubmitRaw \<Rightarrow> (case submitRaw (fr_parse Fr) (fr_limits Fr) (fr_put Fr) (rq_submit rq) c of (c', r) \<Rightarrow> (c', s, [], r))
           | PostProofResult \<Rightarrow> (case postProofResult V (rq_raw rq) p s of (s', sp, r) \<Rightarrow> (c, s', sp, r))
           | GetProofStatus \<Rightarrow> (c, s, [], Ret (getProofStatus (env_persister V) (path_id ps) p))
           | GetProofResult \<Rightarrow> (case getProofResult V (path_id ps) p s of (s', sp, r) \<Rightarrow> (c, s', sp, r))
           | GetDocs \<Rightarrow> (c, s, [], Ret (getDocs (env_persister V) (fr_sort Fr) (rq_appName rq) (rq_type rq) (rq_count rq) p))
           | GetDocStat \<Rightarrow> (c, s, [], Ret (getDocStat (env_persister V) (rq_start rq) (rq_end rq) p))
           | GetNormalDocStat \<Rightarrow> (c, s, [], Ret (getNormalDocStat (env_persister V) (fr_day Fr) (fr_week Fr) (fr_month Fr) p))))"

section \<open>The path to a valid answer\<close>

lemma VerifyDocs_True_nonempty:
  "snd (snd (VerifyDocs sha F decode docs bc w)) = Ret True \<Longrightarrow> formatDocs sha docs \<noteq> []"
  by (auto simp: VerifyDocs_def Let_def)

lemma attach_signature_Ret:
  "attach_signature V r st = (st', sp, Ret (Inr r')) \<Longrightarrow>
     pr_Status r' = ''valid'' \<and> (\<exists>sg. pr_Doc r' = (pr_Doc r)\<lparr>Sign := sg\<rparr>)"
  by (auto simp: attach_signature_def split: if_splits outcome.splits sum.splits prod.splits
      intro: exI [of _ "Sign (pr_Doc r)"])

text \<open>The one path through \<open>getProofResult\<close> that answers 200.\<close>

lemma getProofResult_200:
  assumes "getProofResult V docID p s = (s', sp, Ret (200, body))"
  obtains doc blockDocs r sg where "GetDocFromDBByDocID (env_persister V) docID p = Inr doc"
    and "BlockDigest doc \<noteq> []" and "FindDocsByBlockDigest (env_persister V) (BlockDigest doc) p = Inr blockDocs"
    and "snd (snd (VerifyDocs (sha256 (env_digests V)) (env_fabric V) (env_decode V) blockDocs (srv_bc s) (srv_world s)))
           = Ret True"
    and "body = ProofBody r" and "pr_Status r = ''valid''" and "pr_Doc r = doc\<lparr>Sign := sg\<rparr>"
proof -
  from assms obtain doc where doc: "GetDocFromDBByDocID (env_persister V) docID p = Inr doc"
    by (auto simp: getProofResult_def split: sum.splits)
  with assms have dg: "BlockDigest doc \<noteq> []"
    by (auto simp: getProofResult_def Let_def split: if_splits)
  with assms doc obtain bd where bd: "FindDocsByBlockDigest (env_persister V) (BlockDigest doc) p = Inr bd"
    by (auto simp: getProofResult_def Let_def split: sum.splits)
  obtain bc' w' v where v: "VerifyDocs (sha256 (env_digests V)) (env_fabric V) (env_decode V) bd
      (srv_bc s) (srv_world s) = (bc', w', v)"
    by (metis prod_cases3)
  with assms doc dg bd have t: "v = Ret True"
    by (auto simp: getProofResult_def Let_def split: outcome.splits bool.splits)
  obtain st' sp' a where a: "attach_signature V (empty_proof\<lparr>pr_Doc := doc\<rparr>) (srv_sign s) = (st', sp', a)"
    by (metis prod_cases3)
  with assms doc dg bd v t obtain r where "a = Ret (Inr r)" "body = ProofBody r"
    by (auto simp: getProofResult_def Let_def split: outcome.splits sum.splits)
  with attach_signature_Ret [of V "empty_proof\<lparr>pr_Doc := doc\<rparr>" "srv_sign s" st' sp' r] a v t doc dg bd
  show ?thesis by (auto intro: that)
qed

text \<open>The one path through \<open>postProofResult\<close> that answers 200.\<close>

lemma postProofResult_200:
  assumes "postProofResult V (Inr raw) p s = (s', sp, Ret (200, body))"
  obtains doc others blockDocs r sg
  where "FindDocsByHash (env_persister V) (DocumentHash (env_digests V) raw) p = Inr (doc # others)"
    and "BlockDigest doc \<noteq> []" and "FindDocsByBlockDigest (env_persister V) (BlockDigest doc) p = Inr blockDocs"
    and "snd (snd (VerifyDocs (sha256 (env_digests V)) (env_fabric V) (env_decode V) blockDocs (srv_bc s) (srv_world s)))
           = Ret True"
    and "body = ProofBody r" and "pr_Status r = ''valid''" and "pr_Doc r = doc\<lparr>Sign := sg\<rparr>"
proof -
  from assms obtain doc others where docs:
      "FindDocsByHash (env_persister V) (DocumentHash (env_digests V) raw) p = Inr (doc # others)"
    by (auto simp: postProofResult_def split: sum.splits list.splits)
  with assms have dg: "BlockDigest doc \<noteq> []"
    by (auto simp: postProofResult_def Let_def split: if_splits)
  with assms docs obtain bd where bd: "FindDocsByBlockDigest (env_persister V) (BlockDigest doc) p = Inr bd"
    by (auto simp: postProofResult_def Let_def split: sum.splits)
  obtain bc' w' v where v: "VerifyDocs (sha256 (env_digests V)) (env_fabric V) (env_decode V) bd
      (srv_bc s) (srv_world s) = (bc', w', v)"
    by (metis prod_cases3)
  with assms docs dg bd have t: "v = Ret True"
    by (auto simp: postProofResult_def Let_def split: outcome.splits bool.splits)
  obtain st' sp' a where a: "attach_signature V (empty_proof\<lparr>pr_Doc := doc\<rparr>) (srv_sign s) = (st', sp', a)"
    by (metis prod_cases3)
  with assms docs dg bd v t obtain r where "a = Ret (Inr r)" "body = ProofBody r"
    by (auto simp: postProofResult_def Let_def split: outcome.splits sum.splits)
  with attach_signature_Ret [of V "empty_proof\<lparr>pr_Doc := doc\<rparr>" "srv_sign s" st' sp' r] a v t docs dg bd
  show ?thesis by (auto intro: that)
qed

lemma postProofResult_valid:
  assumes "cql_store S rows" and "env_persister V = cassandra_persister S"
    and "honest_chain (env_fabric V) (env_decode V) reg" and "peer_available (env_fabric V) (srv_bc s)"
    and "postProofResult V (Inr raw) db s = (s', sp, Ret (200, body))"
  shows "\<exists>doc blockDocs r sg. body = ProofBody r \<and> pr_Status r = ''valid'' \<and> pr_Doc r = doc\<lparr>Sign := sg\<rparr> \<and>
     doc \<in> ran (table_of (rows db)) \<and> Hash doc = DocumentHash (env_digests V) raw \<and> BlockDigest doc \<noteq> [] \<and>
     set blockDocs = {d \<in> ran (table_of (rows db)). BlockDigest d = BlockDigest doc} \<and>
     formatDocs (sha256 (env_digests V)) blockDocs \<in> reg (srv_world s)"
proof -
  note pc = cql_store.contract [OF assms(1)]
  obtain doc others bd r sg where g:
    "FindDocsByHash (env_persister V) (DocumentHash (env_digests V) raw) db = Inr (doc # others)" "BlockDigest doc \<noteq> []"
    "FindDocsByBlockDigest (env_persister V) (BlockDigest doc) db = Inr bd"
    "snd (snd (VerifyDocs (sha256 (env_digests V)) (env_fabric V) (env_decode V) bd (srv_bc s) (srv_world s)))
       = Ret True" "body = ProofBody r" "pr_Status r = ''valid''" "pr_Doc r = doc\<lparr>Sign := sg\<rparr>"
    by (rule postProofResult_200 [OF assms(5)])
  have "set (doc # others) = {d \<in> ran (table_of (rows db)). Hash d = DocumentHash (env_digests V) raw}"
    using persist_contract.by_hash [OF pc] g(1) assms(2) by metis
  then have doc: "doc \<in> ran (table_of (rows db)) \<and> Hash doc = DocumentHash (env_digests V) raw" by auto
  have bd: "set bd = {d \<in> ran (table_of (rows db)). BlockDigest d = BlockDigest doc}"
    using persist_contract.by_digest [OF pc] g(3) assms(2) by metis
  have "formatDocs (sha256 (env_digests V)) bd \<in> reg (srv_world s)"
    using VerifyDocs_answer [OF assms(3,4) VerifyDocs_True_nonempty [OF g(4)], of "srv_world s"] g(4) by auto
  then show ?thesis using g doc bd by blast
qed

section \<open>Properties\<close>

text \<open>Paths of up to five segments, and longer ones.\<close>

lemma path_cases:
  obtains "p = []" | a where "p = [a]" | a b where "p = [a, b]" | a b c where "p = [a, b, c]"
  | a b c d where "p = [a, b, c, d]" | a b c d e where "p = [a, b, c, d, e]"
  | a b c d e f q where "p = a # b # c # d # e # f # q"
  by (metis list.exhaust)

text \<open>
  The routes are unambiguous, so the priorities of the router do not matter: no request matches
  two of them, the two requests about one document reach their handlers with its identifier,
  and a request for the result of a document never reads \<open>result\<close> as an identifier.
\<close>

theorem routes_unambiguous:
  assumes "i \<noteq> []"
  shows "length (matches v p) \<le> 1 \<and>
     matches GET [''poe'', ''v1'', ''documents'', i, ''status''] = [(GetProofStatus, [(''id'', i)])] \<and>
     matches GET [''poe'', ''v1'', ''documents'', i, ''result''] = [(GetProofResult, [(''id'', i)])] \<and>
     matches POST [''poe'', ''v1'', ''documents'', ''result''] = [(PostProofResult, [])]"
proof -
  have "length (matches v p) \<le> 1"
    by (cases p rule: path_cases)
       (auto simp: matches_def routes_def List.map_filter_def split: verb.splits)
  then show ?thesis
    using assms by (simp add: matches_def routes_def List.map_filter_def)
qed

theorem routes_unambiguous_witness:
  "matches GET [''poe'', ''v1'', ''documents'', ''i'', ''status''] = [(GetProofStatus, [(''id'', ''i'')])]"
  using routes_unambiguous [of "''i''"] by simp

lemma attach_signature_spawned:
  assumes "attach_signature V r st = (st', sp, a)" and "x \<in> set sp"
  shows "\<exists>r'. a = Ret (Inr r') \<and> pr_Status r' = ''valid'' \<and> x = SpawnSetDocSignature (Id (pr_Doc r')) (Sign (pr_Doc r'))"
  using assms by (auto simp: attach_signature_def setDocSign_def split: if_splits outcome.splits sum.splits prod.splits)

lemma VerifyDocs_items: "VerifyDocs sha F decode docs bc w = (bc', w', v) \<Longrightarrow> bc_items bc' = bc_items bc"
  by (auto simp: VerifyDocs_def Let_def dest!: execute_items
      split: if_splits prod.splits outcome.splits sum.splits option.splits)

lemma getProofResult_effects:
  assumes "getProofResult V i p s = (s', sp, a)"
  shows "bc_items (srv_bc s') = bc_items (srv_bc s)"
    and "\<And>x. x \<in> set sp \<Longrightarrow> \<exists>r'. a = Ret (200, ProofBody r') \<and> pr_Status r' = ''valid'' \<and>
           x = SpawnSetDocSignature (Id (pr_Doc r')) (Sign (pr_Doc r'))"
  using assms by (auto simp: getProofResult_def Let_def dest!: attach_signature_spawned dest: VerifyDocs_items
      split: if_splits prod.splits outcome.splits sum.splits bool.splits)

lemma postProofResult_effects:
  assumes "postProofResult V raw p s = (s', sp, a)"
  shows "bc_items (srv_bc s') = bc_items (srv_bc s)"
    and "\<And>x. x \<in> set sp \<Longrightarrow> \<exists>r'. a = Ret (200, ProofBody r') \<and> pr_Status r' = ''valid'' \<and>
           x = SpawnSetDocSignature (Id (pr_Doc r')) (Sign (pr_Doc r'))"
  using assms by (auto simp: postProofResult_def Let_def dest!: attach_signature_spawned dest: VerifyDocs_items
      split: if_splits prod.splits outcome.splits sum.splits bool.splits list.splits)


lemma matches_SubmitRaw:
  "matches v p = (SubmitRaw, ps) # ms \<Longrightarrow> v = POST \<and> p = [''poe'', ''v1'', ''documents'']"
  by (cases p rule: path_cases)
     (auto simp: matches_def routes_def List.map_filter_def split: verb.splits if_splits)

text \<open>
  C21. What a request changes. Only a submission, a \<open>POST\<close> of a document, changes the cache; no request
  changes which transactions are pending; and a signature is stored only for the document of
  an answer \<open>valid\<close>, under its identifier and with the signature the answer carries.
\<close>

theorem requests_effects:
  assumes "serve V Fr rq c p s = (c', s', sp, r)"
  shows "(c' = c \<or> rq_verb rq = POST \<and> rq_path rq = [''poe'', ''v1'', ''documents'']) \<and>
     bc_items (srv_bc s') = bc_items (srv_bc s) \<and>
     (\<forall>x \<in> set sp. \<exists>r'. r = Ret (200, ProofBody r') \<and> pr_Status r' = ''valid'' \<and>
        x = SpawnSetDocSignature (Id (pr_Doc r')) (Sign (pr_Doc r')))"
proof (cases "matches (rq_verb rq) (rq_path rq)")
  case Nil
  then show ?thesis using assms by (simp add: serve_def)
next
  case (Cons m ms)
  obtain h ps where m: "m = (h, ps)" by (cases m)
  note sv = assms [unfolded serve_def Cons m, simplified]
  show ?thesis
  proof (cases h)
    case SubmitRaw
    have "rq_verb rq = POST \<and> rq_path rq = [''poe'', ''v1'', ''documents'']"
      using Cons m SubmitRaw by (intro matches_SubmitRaw) simp
    moreover have "s' = s" "sp = []" using sv SubmitRaw by (auto split: prod.splits)
    ultimately show ?thesis by simp
  next
    case PostProofResult
    then have e: "postProofResult V (rq_raw rq) p s = (s', sp, r)" "c' = c" using sv by (auto split: prod.splits)
    from postProofResult_effects [OF e(1)] e(2) show ?thesis by auto
  next
    case GetProofResult
    then have e: "getProofResult V (path_id ps) p s = (s', sp, r)" "c' = c" using sv by (auto split: prod.splits)
    from getProofResult_effects [OF e(1)] e(2) show ?thesis by auto
  qed (use sv in auto)
qed

definition result_request :: request where
  "result_request = \<lparr>rq_verb = GET, rq_path = [''poe'', ''v1'', ''documents'', ''i'', ''result''], rq_submit = Inl [],
     rq_raw = Inl [], rq_appName = [], rq_type = [], rq_count = Inl [], rq_start = Inl [], rq_end = Inl []\<rparr>"

definition toy_frame :: "unit frame" where
  "toy_frame = \<lparr>fr_parse = (\<lambda>s. Inl []), fr_limits = [], fr_put = (\<lambda>a b c d e. (e, Ret (Inl []))), fr_sort = (\<lambda>k ds. ds),
     fr_day = (time_Unix 0, time_Unix 0), fr_week = (time_Unix 0, time_Unix 0), fr_month = (time_Unix 0, time_Unix 0)\<rparr>"


definition unsigned_persister :: "unit persister" where
  "unsigned_persister = one_doc_persister\<lparr>GetDocFromDBByDocID := (\<lambda>i p. Inr (signed_doc\<lparr>Sign := []\<rparr>)),
     FindDocsByBlockDigest := (\<lambda>g p. Inr [signed_doc\<lparr>Sign := []\<rparr>])\<rparr>"

theorem requests_effects_witness:
  "\<exists>s' sg r'. serve (toy_env unsigned_persister) toy_frame result_request () () toy_server
       = ((), s', [SpawnSetDocSignature ''i'' sg], Ret (200, ProofBody r')) \<and>
     Id (pr_Doc r') = ''i'' \<and> Sign (pr_Doc r') = sg \<and> bc_items (srv_bc s') = bc_items (srv_bc toy_server)"
proof -
  let ?doc = "signed_doc\<lparr>Sign := []\<rparr>"
  obtain bc' w' where "VerifyDocs (sha256 toy_digests) toy_fabric (toy_decode UNIV) [?doc] toy_bc () = (bc', w', Ret True)"
    using toy_verifies [of "[?doc]"] by (metis list.distinct(1) prod.collapse)
  then have "\<exists>s' sg a. serve (toy_env unsigned_persister) toy_frame result_request () () toy_server
      = ((), s', [SpawnSetDocSignature ''i'' sg], a)"
    by (simp add: serve_def result_request_def matches_def routes_def List.map_filter_def path_id_def unsigned_persister_def
        getProofResult_def Let_def toy_env_def toy_server_def one_doc_persister_def attach_signature_def signed_doc_def
        setDocSign_def ECDSASign_def once_Do_def sign_init_def initKeys_def toy_ecdsa_def GetPublicKey_def empty_proof_def)
  then obtain s' sg a where g: "serve (toy_env unsigned_persister) toy_frame result_request () () toy_server
      = ((), s', [SpawnSetDocSignature ''i'' sg], a)"
    by blast
  from requests_effects [OF g] g show ?thesis by auto
qed


section \<open>A database with one proved document\<close>

definition hashed_db :: memdb where
  "hashed_db = fst (cas_SetDocsBlockDigest mem_session 9 [''i''] ''dg'' ''tx''
     (fst (cas_PutDocsIntoDB mem_session [zero_doc\<lparr>Id := ''i'', Hash := DocumentHash toy_digests ''abc''\<rparr>] [])))"

lemma hashed_answer:
  "\<exists>s' sp body. postProofResult (toy_env (cassandra_persister mem_session)) (Inr ''abc'') hashed_db toy_server
     = (s', sp, Ret (200, body))"
proof -
  let ?V = "toy_env (cassandra_persister mem_session)"
  let ?doc = "zero_doc\<lparr>Id := ''i'', Hash := DocumentHash toy_digests ''abc'', BlockDigest := ''dg'', ProofTime := 9,
      Txid := ''tx'', ProofStatus := ALREADY_PROOFED\<rparr>"
  have "cas_FindDocsByHash mem_session (DocumentHash toy_digests ''abc'') hashed_db = Inr [?doc]"
    "cas_FindDocsByBlockDigest mem_session ''dg'' hashed_db = Inr [?doc]"
    by code_simp+
  moreover have "BlockDigest ?doc = ''dg''" "Sign ?doc = []" "Id ?doc = ''i''" by (simp_all add: zero_doc_def)
  ultimately obtain doc where doc: "cas_FindDocsByHash mem_session (DocumentHash toy_digests ''abc'') hashed_db = Inr [doc]"
      "cas_FindDocsByBlockDigest mem_session ''dg'' hashed_db = Inr [doc]" "BlockDigest doc = ''dg''" "Sign doc = []" "Id doc = ''i''"
    by blast
  obtain bc' w' where "VerifyDocs (sha256 toy_digests) toy_fabric (toy_decode UNIV) [doc] toy_bc () = (bc', w', Ret True)"
    using toy_verifies [of "[doc]"] by (metis list.distinct(1) prod.collapse)
  with doc show ?thesis
    by (simp add: postProofResult_def Let_def toy_env_def toy_server_def cassandra_persister_def attach_signature_def
        setDocSign_def ECDSASign_def once_Do_def sign_init_def initKeys_def toy_ecdsa_def GetPublicKey_def empty_proof_def)
qed

end
