(* ===== verification/Events.thy ===== *)
theory Events
  imports Blockchain
begin

text \<open>
  The event hub client, \<open>blockchain/event.go\<close>, with \<open>GetInterestedEvents\<close>, \<open>eventStart\<close> and
  \<open>Close\<close> of \<open>blockchain/chaincode.go\<close>. The gRPC stream is a record of functions over the world
  (\<open>'s\<close> is the type of streams). Waiting for a reply with a timeout is one call: the reply, or
  \<open>Timeout\<close> when the timer wins the \<open>select\<close>.
\<close>

record Interest =
  int_EventType :: string
  int_ChaincodeID :: string
  int_EventName :: string

datatype hub_msg = MsgRegister "Interest list" | MsgUnregister "Interest list"

datatype stream_item = Item hub_event | EOF | StreamErr err

datatype reply = Reply stream_item | Timeout

record ('w, 'k, 's) hub =
  Chat :: "'k \<Rightarrow> 'w \<Rightarrow> 'w \<times> (err + 's)"
  Send :: "'s \<Rightarrow> hub_msg \<Rightarrow> 'w \<Rightarrow> 'w \<times> err option"
  RecvTimeout :: "'s \<Rightarrow> i64 \<Rightarrow> 'w \<Rightarrow> 'w \<times> reply"
  CloseSend :: "'s \<Rightarrow> 'w \<Rightarrow> 'w \<times> err option"
  ConnClose :: "'k \<Rightarrow> 'w \<Rightarrow> 'w \<times> err option"

record ('k, 's) eventsClient =
  ec_conn :: 'k
  ec_regTimeout :: i64
  ec_stream :: "'s option"

definition newEventsClient :: "'k \<Rightarrow> i64 \<Rightarrow> ('k, 's) eventsClient" where
  "newEventsClient conn rt = \<lparr>ec_conn = conn, ec_regTimeout = rt, ec_stream = None\<rparr>"

definition GetInterestedEvents :: "Blockchain \<Rightarrow> Interest list" where
  "GetInterestedEvents bc = [\<lparr>int_EventType = ''CHAINCODE'', int_ChaincodeID = chainCodeId bc,
     int_EventName = ''invoke_completed''\<rparr>]"

section \<open>Registration\<close>

definition register_reply :: "reply \<Rightarrow> err option" where
  "register_reply r =
     (case r of
        Timeout \<Rightarrow> Some ''timeout waiting for registration''
      | Reply EOF \<Rightarrow> Some ''EOF''
      | Reply (StreamErr e) \<Rightarrow> Some e
      | Reply (Item EvRegister) \<Rightarrow> None
      | Reply (Item EvNil) \<Rightarrow> Some ''invalid nil object for register''
      | Reply (Item ev) \<Rightarrow> Some ''invalid registration object'')"

definition unregister_reply :: "reply \<Rightarrow> err option" where
  "unregister_reply r =
     (case r of
        Timeout \<Rightarrow> Some ''timeout waiting for unregistration''
      | Reply EOF \<Rightarrow> Some ''EOF''
      | Reply (StreamErr e) \<Rightarrow> Some e
      | Reply (Item EvUnregister) \<Rightarrow> None
      | Reply (Item EvNil) \<Rightarrow> Some ''invalid nil object for unregister''
      | Reply (Item ev) \<Rightarrow> Some ''invalid unregistration object'')"

definition RegisterAsync :: "('w, 'k, 's) hub \<Rightarrow> 's \<Rightarrow> Interest list \<Rightarrow> 'w \<Rightarrow> 'w \<times> err option" where
  "RegisterAsync B st ies w = Send B st (MsgRegister ies) w"

definition UnregisterAsync :: "('w, 'k, 's) hub \<Rightarrow> 's \<Rightarrow> Interest list \<Rightarrow> 'w \<Rightarrow> 'w \<times> err option" where
  "UnregisterAsync B st ies w =
     (case Send B st (MsgUnregister ies) w of
        (w', Some e) \<Rightarrow> (w', Some (''error on unregister send '' @ e @ [CHR 0x0A]))
      | (w', None) \<Rightarrow> (w', None))"

definition register :: "('w, 'k, 's) hub \<Rightarrow> ('k, 's) eventsClient \<Rightarrow> 's \<Rightarrow> Interest list \<Rightarrow> 'w
    \<Rightarrow> 'w \<times> err option" where
  "register B ec st ies w =
     (case RegisterAsync B st ies w of
        (w', Some e) \<Rightarrow> (w', Some e)
      | (w', None) \<Rightarrow> (case RecvTimeout B st (ec_regTimeout ec) w' of (w'', r) \<Rightarrow> (w'', register_reply r)))"

definition unregister :: "('w, 'k, 's) hub \<Rightarrow> ('k, 's) eventsClient \<Rightarrow> 's \<Rightarrow> Interest list \<Rightarrow> 'w
    \<Rightarrow> 'w \<times> err option" where
  "unregister B ec st ies w =
     (case UnregisterAsync B st ies w of
        (w', Some e) \<Rightarrow> (w', Some e)
      | (w', None) \<Rightarrow> (case RecvTimeout B st (ec_regTimeout ec) w' of (w'', r) \<Rightarrow> (w'', unregister_reply r)))"

definition client_Start :: "('w, 'k, 's) hub \<Rightarrow> Blockchain \<Rightarrow> ('k, 's) eventsClient \<Rightarrow> 'w
    \<Rightarrow> ('k, 's) eventsClient \<times> 'w \<times> err option" where
  "client_Start B bc ec w =
     (let ies = GetInterestedEvents bc
      in if ies = [] then (ec, w, Some ''must supply interested events'')
         else case Chat B (ec_conn ec) w of
                (w', Inl e) \<Rightarrow> (ec, w', Some e)
              | (w', Inr st) \<Rightarrow>
                  (let ec' = ec\<lparr>ec_stream := Some st\<rparr>
                   in case register B ec' st ies w' of (w'', e) \<Rightarrow> (ec', w'', e)))"

definition client_Stop :: "('w, 'k, 's) hub \<Rightarrow> ('k, 's) eventsClient \<Rightarrow> 'w \<Rightarrow> 'w \<times> err option" where
  "client_Stop B ec w =
     (case ec_stream ec of
        None \<Rightarrow> (w, None)
      | Some st \<Rightarrow>
          (case CloseSend B st w of
             (w', Some e) \<Rightarrow> (fst (ConnClose B (ec_conn ec) w'), Some e)
           | (w', None) \<Rightarrow> ConnClose B (ec_conn ec) w'))"

section \<open>Starting and closing the listeners\<close>

fun start_clients :: "('w, 'k) fabric \<Rightarrow> ('w, 'k, 's) hub \<Rightarrow> Blockchain \<Rightarrow> string list
    \<Rightarrow> ('k, 's) eventsClient list \<Rightarrow> 'w \<Rightarrow> ('k, 's) eventsClient list \<times> 'w" where
  "start_clients F B bc [] eClis w = (eClis, w)"
| "start_clients F B bc (addr # addrs) eClis w =
     (case getGrpcConn F bc addr w of
        (w', Inl e) \<Rightarrow> start_clients F B bc addrs eClis w'
      | (w', Inr k) \<Rightarrow>
          (case client_Start B bc (newEventsClient k (regTimeout bc)) w' of
             (ecli, w'', Some e) \<Rightarrow> start_clients F B bc addrs eClis w''
           | (ecli, w'', None) \<Rightarrow> start_clients F B bc addrs (eClis @ [ecli]) w''))"

text \<open>\<open>eventStart\<close> up to its receive loop: the clients, and whether the loop is entered.\<close>

definition eventStart :: "('w, 'k) fabric \<Rightarrow> ('w, 'k, 's) hub \<Rightarrow> Blockchain \<Rightarrow> 'w
    \<Rightarrow> ('k, 's) eventsClient list \<times> 'w \<times> bool" where
  "eventStart F B bc w =
     (case start_clients F B bc (events bc) [] w of (eClis, w') \<Rightarrow> (eClis, w', eClis \<noteq> []))"

fun stop_clients :: "('w, 'k, 's) hub \<Rightarrow> ('k, 's) eventsClient list \<Rightarrow> 'w \<Rightarrow> 'w" where
  "stop_clients B [] w = w"
| "stop_clients B (ecli # ecs) w = stop_clients B ecs (fst (client_Stop B ecli w))"

definition bc_Close :: "('w, 'k, 's) hub \<Rightarrow> ('k, 's) eventsClient list \<Rightarrow> Blockchain \<Rightarrow> 'w
    \<Rightarrow> Blockchain \<times> 'w \<times> err option" where
  "bc_Close B eClis bc w =
     (if eClis = [] then (bc, w, None)
      else (bc\<lparr>bc_items := items_Clear (bc_items bc)\<rparr>, stop_clients B eClis w, None))"

section \<open>The event loop\<close>

text \<open>
  \<open>Recv\<close>, for a client that was not started: the event or the error, and what the adapter is told
  about a disconnection (the end of the stream is reported without an error).
\<close>

definition client_Recv :: "stream_item \<Rightarrow> (err + hub_event) \<times> err option option" where
  "client_Recv item =
     (case item of
        EOF \<Rightarrow> (Inl ''EOF'', Some None)
      | StreamErr e \<Rightarrow> (Inl e, Some (Some e))
      | Item ev \<Rightarrow> (Inr ev, None))"

text \<open>
  \<open>processEvents\<close> over what the stream delivers: the events handed to the channel \<open>ecc\<close>, and how
  the loop stands. \<open>Listening\<close> means it waits for the next item; \<open>Stopped\<close> that it has returned,
  with its error if any.
\<close>

datatype loop_status = Listening | Stopped "err option"

fun processEvents :: "Blockchain \<Rightarrow> stream_item list \<Rightarrow> ChaincodeEvent list \<times> loop_status" where
  "processEvents bc [] = ([], Listening)"
| "processEvents bc (EOF # rest) = ([], Stopped None)"
| "processEvents bc (StreamErr e # rest) = ([], Stopped (Some e))"
| "processEvents bc (Item ev # rest) =
     (case ecc_Recv bc ev of
        (True, Some ce) \<Rightarrow> (case processEvents bc rest of (ces, st) \<Rightarrow> (ce # ces, st))
      | (True, None) \<Rightarrow> processEvents bc rest
      | (False, _) \<Rightarrow> ([], Stopped None))"

text \<open>An item the handler is interested in.\<close>

fun wanted :: "Blockchain \<Rightarrow> stream_item \<Rightarrow> ChaincodeEvent option" where
  "wanted bc (Item (EvChaincode ev)) =
     (if ev_ChaincodeID ev = chainCodeId bc \<and> ev_EventName ev = ''invoke_completed'' then Some ev else None)"
| "wanted bc _ = None"

lemma ecc_Recv_wanted: "ecc_Recv bc ev = (wanted bc (Item ev) \<noteq> None, wanted bc (Item ev))"
  by (cases ev) (auto simp: ecc_Recv_def)

lemma processEvents_prefix:
  "fst (processEvents bc items) = map (\<lambda>i. the (wanted bc i)) (takeWhile (\<lambda>i. wanted bc i \<noteq> None) items)"
  by (induction bc items rule: processEvents.induct)
     (auto simp: ecc_Recv_wanted split: option.splits prod.splits)

lemma processEvents_status:
  "snd (processEvents bc items) = Listening \<longleftrightarrow> (\<forall>i \<in> set items. wanted bc i \<noteq> None)"
  by (induction bc items rule: processEvents.induct)
     (auto simp: ecc_Recv_wanted split: option.splits prod.splits)

section \<open>Properties\<close>

text \<open>
  C28. The listener hands on exactly the events up to the first one it has no interest in, in
  order and without loss, and it goes on listening only as long as every item was an event of
  the handler's own chaincode. Any other event of the hub ends the listener for good.
\<close>

theorem listener_delivers_prefix:
  "fst (processEvents bc items) = map (\<lambda>i. the (wanted bc i)) (takeWhile (\<lambda>i. wanted bc i \<noteq> None) items) \<and>
   (snd (processEvents bc items) = Listening) = list_all (\<lambda>i. wanted bc i \<noteq> None) items"
  using processEvents_prefix [of bc items] processEvents_status [of bc items] by (simp add: list_all_iff)

text \<open>
  A client starts successfully exactly when the stream opens, the registration is sent and
  the first reply within the timeout is the hub's acknowledgement; the interest it sends is the
  completion event of the configured chaincode.
\<close>

lemma client_Start_ok:
  "snd (snd (client_Start B bc ec w)) = None \<longleftrightarrow>
     (\<exists>st w1 w2 w3. Chat B (ec_conn ec) w = (w1, Inr st) \<and>
        Send B st (MsgRegister [\<lparr>int_EventType = ''CHAINCODE'', int_ChaincodeID = chainCodeId bc,
                                 int_EventName = ''invoke_completed''\<rparr>]) w1 = (w2, None) \<and>
        RecvTimeout B st (ec_regTimeout ec) w2 = (w3, Reply (Item EvRegister)))"
  by (auto simp: client_Start_def GetInterestedEvents_def register_def RegisterAsync_def register_reply_def
      Let_def split: prod.splits sum.splits option.splits reply.splits stream_item.splits hub_event.splits)

text \<open>
  A hub acknowledges, seen on its stream: in the world \<open>w\<close> the address is dialled, the stream opens,
  the interest in the completion event is sent, and the first reply within the timeout is the
  acknowledgement. \<open>ec\<close> is the client that holds this connection and stream.
\<close>

definition acknowledges :: "('w, 'k) fabric \<Rightarrow> ('w, 'k, 's) hub \<Rightarrow> Blockchain \<Rightarrow> string \<times> 'w
    \<Rightarrow> ('k, 's) eventsClient \<Rightarrow> bool" where
  "acknowledges F B bc av ec \<longleftrightarrow>
     (\<exists>k st w1 w2 w3 w4. getGrpcConn F bc (fst av) (snd av) = (w1, Inr k) \<and> Chat B k w1 = (w2, Inr st) \<and>
        Send B st (MsgRegister [\<lparr>int_EventType = ''CHAINCODE'', int_ChaincodeID = chainCodeId bc,
                                 int_EventName = ''invoke_completed''\<rparr>]) w2 = (w3, None) \<and>
        RecvTimeout B st (regTimeout bc) w3 = (w4, Reply (Item EvRegister)) \<and>
        ec = \<lparr>ec_conn = k, ec_regTimeout = regTimeout bc, ec_stream = Some st\<rparr>)"

lemma acknowledges_Start:
  "acknowledges F B bc (addr, w) ec \<longleftrightarrow>
     (\<exists>w1 k w2. getGrpcConn F bc addr w = (w1, Inr k) \<and>
        client_Start B bc (newEventsClient k (regTimeout bc)) w1 = (ec, w2, None))"
proof
  assume "acknowledges F B bc (addr, w) ec"
  then obtain k st w1 w2 w3 w4 where "getGrpcConn F bc addr w = (w1, Inr k)" "Chat B k w1 = (w2, Inr st)"
    "Send B st (MsgRegister (GetInterestedEvents bc)) w2 = (w3, None)"
    "RecvTimeout B st (regTimeout bc) w3 = (w4, Reply (Item EvRegister))"
    "ec = \<lparr>ec_conn = k, ec_regTimeout = regTimeout bc, ec_stream = Some st\<rparr>"
    unfolding acknowledges_def GetInterestedEvents_def by auto
  then show "\<exists>w1 k w2. getGrpcConn F bc addr w = (w1, Inr k) \<and>
      client_Start B bc (newEventsClient k (regTimeout bc)) w1 = (ec, w2, None)"
    by (intro exI [of _ w1] exI [of _ k] exI [of _ w4])
       (auto simp: client_Start_def newEventsClient_def register_def RegisterAsync_def register_reply_def Let_def GetInterestedEvents_def)
next
  assume "\<exists>w1 k w2. getGrpcConn F bc addr w = (w1, Inr k) \<and>
      client_Start B bc (newEventsClient k (regTimeout bc)) w1 = (ec, w2, None)"
  then obtain w1 k w2 where g: "getGrpcConn F bc addr w = (w1, Inr k)"
    and c: "client_Start B bc (newEventsClient k (regTimeout bc)) w1 = (ec, w2, None)" by blast
  then have "snd (snd (client_Start B bc (newEventsClient k (regTimeout bc)) w1)) = None" by simp
  then obtain st w3 w4 w5 where h: "Chat B k w1 = (w3, Inr st)"
      "Send B st (MsgRegister [\<lparr>int_EventType = ''CHAINCODE'', int_ChaincodeID = chainCodeId bc,
                                 int_EventName = ''invoke_completed''\<rparr>]) w3 = (w4, None)"
      "RecvTimeout B st (regTimeout bc) w4 = (w5, Reply (Item EvRegister))"
    unfolding client_Start_ok by (auto simp: newEventsClient_def)
  then have "ec = \<lparr>ec_conn = k, ec_regTimeout = regTimeout bc, ec_stream = Some st\<rparr>"
    using c by (auto simp: client_Start_def newEventsClient_def Let_def GetInterestedEvents_def split: prod.splits)
  with g h show "acknowledges F B bc (addr, w) ec" unfolding acknowledges_def by simp
qed

text \<open>The addresses in their order, each with the world in which it is tried.\<close>

fun tried :: "('w, 'k) fabric \<Rightarrow> ('w, 'k, 's) hub \<Rightarrow> Blockchain \<Rightarrow> string list \<Rightarrow> 'w \<Rightarrow> (string \<times> 'w) list" where
  "tried F B bc [] w = []"
| "tried F B bc (addr # addrs) w = (addr, w) # tried F B bc addrs (snd (start_clients F B bc [addr] [] w))"

lemma tried_addresses: "map fst (tried F B bc addrs w) = addrs"
  by (induction addrs arbitrary: w) simp_all

lemma start_clients_one:
  "start_clients F B bc (addr # addrs) eClis w =
     (case start_clients F B bc [addr] [] w of (new, w') \<Rightarrow> start_clients F B bc addrs (eClis @ new) w')"
  by (auto split: prod.splits sum.splits option.splits)

lemma start_clients_new:
  "fst (start_clients F B bc [addr] [] w) = [] \<and> (\<nexists>ec. acknowledges F B bc (addr, w) ec) \<or>
   (\<exists>ec. fst (start_clients F B bc [addr] [] w) = [ec] \<and> acknowledges F B bc (addr, w) ec)"
  unfolding acknowledges_Start by (auto split: prod.splits sum.splits option.splits)

lemma start_clients_exact:
  "\<exists>new. fst (start_clients F B bc addrs eClis w) = eClis @ new \<and>
     list_all2 (acknowledges F B bc) (filter (\<lambda>av. \<exists>ec. acknowledges F B bc av ec) (tried F B bc addrs w)) new"
proof (induction addrs arbitrary: eClis w)
  case (Cons addr addrs)
  obtain one w' where one: "start_clients F B bc [addr] [] w = (one, w')" by (metis prod.collapse)
  obtain new where new: "fst (start_clients F B bc addrs (eClis @ one) w') = (eClis @ one) @ new"
    "list_all2 (acknowledges F B bc) (filter (\<lambda>av. \<exists>ec. acknowledges F B bc av ec) (tried F B bc addrs w')) new"
    using Cons.IH by blast
  have all: "fst (start_clients F B bc (addr # addrs) eClis w) = eClis @ one @ new"
    using new(1) unfolding start_clients_one [of F B bc addr addrs eClis w] one by simp
  have tr: "tried F B bc (addr # addrs) w = (addr, w) # tried F B bc addrs w'"
    using one by simp
  from start_clients_new [of F B bc addr w] show ?case
    unfolding one fst_conv tr using all new(2) by (intro exI [of _ "one @ new"]) auto
qed simp

lemma getGrpcConn_refused:
  "(\<And>a w. snd (Dial F a w) = None) \<Longrightarrow> getGrpcConn F bc addr w \<noteq> (w', Inr k)"
  using dial_loop_refused [of F addr "nat (sint (failOver bc))" w]
  by (auto simp: getGrpcConn_def split: prod.splits option.splits)

text \<open>
  C29. Every configured address is tried once, in order, and the clients that are kept are exactly
  those of the addresses whose hub acknowledges the registration on its stream within the timeout,
  with this connection and stream. The event loop runs exactly when there is such an
  address: a hub that fails is skipped and not tried again, and when no address can be dialled
  the loop is never entered.
\<close>

theorem eventStart_clients:
  assumes "eventStart F B bc w = (eClis, w', listening)"
  shows "map fst (tried F B bc (events bc) w) = events bc \<and>
     list_all2 (acknowledges F B bc) (filter (\<lambda>av. \<exists>ec. acknowledges F B bc av ec) (tried F B bc (events bc) w)) eClis \<and>
     listening = (\<exists>av \<in> set (tried F B bc (events bc) w). \<exists>ec. acknowledges F B bc av ec) \<and>
     ((\<forall>a w. snd (Dial F a w) = None) \<longrightarrow> \<not> listening)"
proof -
  let ?tr = "tried F B bc (events bc) w"
  have st: "fst (start_clients F B bc (events bc) [] w) = eClis" and li: "listening = (eClis \<noteq> [])"
    using assms by (auto simp: eventStart_def split: prod.splits)
  have ex: "list_all2 (acknowledges F B bc) (filter (\<lambda>av. \<exists>ec. acknowledges F B bc av ec) ?tr) eClis"
    using start_clients_exact [of F B bc "events bc" "[]" w] by (simp add: st)
  then have l: "listening = (\<exists>av \<in> set ?tr. \<exists>ec. acknowledges F B bc av ec)"
  proof -
    have "eClis = [] \<longleftrightarrow> filter (\<lambda>av. \<exists>ec. acknowledges F B bc av ec) ?tr = []"
      using list_all2_lengthD [OF ex] by (metis length_0_conv)
    also have "\<dots> \<longleftrightarrow> (\<forall>av \<in> set ?tr. \<not> (\<exists>ec. acknowledges F B bc av ec))" by (rule filter_empty_conv)
    finally show ?thesis unfolding li by blast
  qed
  moreover have "\<not> acknowledges F B bc av ec" if "\<forall>a w. snd (Dial F a w) = None" for av ec
  proof
    assume "acknowledges F B bc av ec"
    then obtain w1 k where "getGrpcConn F bc (fst av) (snd av) = (w1, Inr k)" unfolding acknowledges_def by blast
    then show False using getGrpcConn_refused [of F] that by blast
  qed
  ultimately show ?thesis using ex by (simp add: tried_addresses)
qed

definition toy_hub :: "(unit, unit, nat) hub" where
  "toy_hub = \<lparr>Chat = (\<lambda>k w. (w, Inr 7)), Send = (\<lambda>st m w. (w, None)),
     RecvTimeout = (\<lambda>st t w. (w, Reply (Item EvRegister))), CloseSend = (\<lambda>st w. (w, None)),
     ConnClose = (\<lambda>k w. (w, None))\<rparr>"

theorem eventStart_clients_witness:
  "\<exists>ec. eventStart toy_fabric toy_hub toy_bc () = ([ec], (), True) \<and>
     acknowledges toy_fabric toy_hub toy_bc (''h'', ()) ec \<and> ec_stream ec = Some 7"
proof -
  let ?ec = "\<lparr>ec_conn = (), ec_regTimeout = 3, ec_stream = Some 7\<rparr>"
  have e: "eventStart toy_fabric toy_hub toy_bc () = ([?ec], (), True)" by code_simp
  have "tried toy_fabric toy_hub toy_bc (events toy_bc) () = [(''h'', ())]" by (simp add: toy_bc_def)
  with eventStart_clients [OF e] e show ?thesis
    by (intro exI [of _ ?ec]) (auto split: if_splits)
qed

end
