(* ===== verification/Shutdown.thy ===== *)
theory Shutdown
  imports Server Events
begin

text \<open>
  The end of the program: \<open>main\<close> hands four closing functions to the signal handler
  (\<open>apisrv.Stop\<close>, \<open>persist.Close\<close>, \<open>cc.Close\<close>, \<open>bc.Close\<close>), which calls them one after the other,
  logs their errors and ends the process after the last one. Two of them wait in a loop; None is
  "does not return".
\<close>

section \<open>The closing functions\<close>

record ('a, 'b, 'w, 'd) process =
  pr_api :: 'a              \<comment> \<open>the listener\<close>
  pr_session :: 'd          \<comment> \<open>the Cassandra session\<close>
  pr_cache :: "'b any_cache"
  pr_bc :: Blockchain
  pr_world :: 'w

text \<open>\<open>persist.Close\<close> polls the persistence loop, whose state at the poll \<open>t\<close> is \<open>ps t\<close>.\<close>

partial_function (option) persist_wait :: "(nat \<Rightarrow> pstate) \<Rightarrow> nat \<Rightarrow> nat option" where
  "persist_wait ps t = (if close_ready (ps t) then Some t else persist_wait ps (Suc t))"

definition cas_Close :: "('d \<Rightarrow> 'd) \<Rightarrow> 'd \<Rightarrow> 'd \<times> err option" where
  "cas_Close closeSession d = (closeSession d, None)"

definition persist_Close :: "(nat \<Rightarrow> pstate) \<Rightarrow> ('d \<Rightarrow> 'd \<times> err option) \<Rightarrow> 'd \<Rightarrow> ('d \<times> err option) option" where
  "persist_Close ps persister_Close d = map_option (\<lambda>_. persister_Close d) (persist_wait ps 0)"

definition any_Close :: "'b kafka_lib \<Rightarrow> string list \<Rightarrow> (nat \<Rightarrow> nat \<Rightarrow> nat) \<Rightarrow> (nat \<Rightarrow> nat list) \<Rightarrow> 'b any_cache
    \<Rightarrow> ('b any_cache \<times> err option) option" where
  "any_Close K names len chans c =
     (case c of
        Memory m \<Rightarrow> Some (Memory (MemoryCache.Close m), None)
      | Kafka k \<Rightarrow> map_option (\<lambda>k'. (Kafka k', None)) (KafkaCache.Close K names len chans k))"

section \<open>The signal handler\<close>

text \<open>The functions run in order; an error is logged and the next one is called.\<close>

fun run_closers :: "('s \<Rightarrow> ('s \<times> err option) option) list \<Rightarrow> 's \<Rightarrow> 's option" where
  "run_closers [] p = Some p"
| "run_closers (f # fs) p = (case f p of None \<Rightarrow> None | Some (p', e) \<Rightarrow> run_closers fs p')"

text \<open>The environment of the closing functions: what the libraries do and what the loops see.\<close>

record ('a, 'b, 'w, 'd, 'k, 's) closing =
  cl_listener :: "'a \<Rightarrow> 'a \<times> err option"
  cl_session :: "'d \<Rightarrow> 'd"
  cl_persist :: "nat \<Rightarrow> pstate"
  cl_kafka :: "'b kafka_lib"
  cl_names :: "string list"
  cl_len :: "nat \<Rightarrow> nat \<Rightarrow> nat"
  cl_chans :: "nat \<Rightarrow> nat list"
  cl_hub :: "('w, 'k, 's) hub"
  cl_clients :: "('k, 's) eventsClient list"

definition shutdown :: "('a, 'b, 'w, 'd, 'k, 's) closing \<Rightarrow> ('a, 'b, 'w, 'd) process \<Rightarrow> ('a, 'b, 'w, 'd) process option" where
  "shutdown E = run_closers
     [\<lambda>p. (case api_Stop (cl_listener E) (pr_api p) of (a, e) \<Rightarrow> Some (p\<lparr>pr_api := a\<rparr>, e)),
      \<lambda>p. map_option (\<lambda>(d, e). (p\<lparr>pr_session := d\<rparr>, e))
            (persist_Close (cl_persist E) (cas_Close (cl_session E)) (pr_session p)),
      \<lambda>p. map_option (\<lambda>(c, e). (p\<lparr>pr_cache := c\<rparr>, e))
            (any_Close (cl_kafka E) (cl_names E) (cl_len E) (cl_chans E) (pr_cache p)),
      \<lambda>p. (case bc_Close (cl_hub E) (cl_clients E) (pr_bc p) (pr_world p) of
             (bc, w, e) \<Rightarrow> Some (p\<lparr>pr_bc := bc, pr_world := w\<rparr>, e))]"

section \<open>When the program ends\<close>

lemma persist_wait_Some: "t \<le> u \<Longrightarrow> close_ready (ps u) \<Longrightarrow> persist_wait ps t \<noteq> None"
  by (induction t rule: inc_induct) (subst persist_wait.simps; simp)+

lemma persist_wait_ready: "persist_wait ps t = Some u \<Longrightarrow> close_ready (ps u)"
  by (rule persist_wait.raw_induct [where P = "\<lambda>ps t u. close_ready (ps u)"]) (auto split: if_splits)

lemma persist_Close_returns: "persist_Close ps cl d = None \<longleftrightarrow> (\<forall>t. \<not> close_ready (ps t))"
proof (cases "persist_wait ps 0")
  case None
  then show ?thesis using persist_wait_Some [of 0 _ ps] by (auto simp: persist_Close_def)
next
  case (Some u)
  then show ?thesis using persist_wait_ready [OF Some] by (auto simp: persist_Close_def)
qed

lemma KafkaCache_Close_None: "KafkaCache.Close K names len chans k = None"
  by (simp add: KafkaCache.Close_def Let_def close_loop_None)

text \<open>
  C32. The process reaches its end after a signal exactly when the persistence loop is seen idle once
  and the cache is the one in memory. With Kafka the closing function of the cache never
  returns, so the event clients are not stopped and the process does not end. With the cache in
  memory everything is closed, and the documents that still waited in it are dropped.
\<close>

theorem shutdown_ends_iff:
  "(shutdown E p = None) = ((\<exists>k. pr_cache p = Kafka k) \<or> (\<forall>t. \<not> close_ready (cl_persist E t))) \<and>
   (\<forall>p'. shutdown E p = Some p' \<longrightarrow>
      pr_api p' = fst (cl_listener E (pr_api p)) \<and> pr_session p' = cl_session E (pr_session p) \<and>
      (\<exists>m. pr_cache p' = Memory m \<and> (\<forall>cu topic. MemoryCache.pending m cu topic = {#})) \<and>
      (cl_clients E \<noteq> [] \<longrightarrow> bc_items (pr_bc p') = Map.empty \<and>
         pr_world p' = stop_clients (cl_hub E) (cl_clients E) (pr_world p)))"
proof (cases "persist_Close (cl_persist E) (cas_Close (cl_session E)) (pr_session p)")
  case None
  have "shutdown E p = None"
    by (cases "api_Stop (cl_listener E) (pr_api p)") (simp add: shutdown_def None)
  moreover have "\<forall>t. \<not> close_ready (cl_persist E t)" using None persist_Close_returns by metis
  ultimately show ?thesis by simp
next
  case (Some r)
  have r: "r = (cl_session E (pr_session p), None)"
    using Some by (auto simp: persist_Close_def cas_Close_def)
  have ready: "\<exists>t. close_ready (cl_persist E t)" using Some persist_Close_returns by (metis option.discI)
  obtain a ae where api: "api_Stop (cl_listener E) (pr_api p) = (a, ae)" by (cases "api_Stop (cl_listener E) (pr_api p)")
  then have a: "a = fst (cl_listener E (pr_api p))"
    by (auto simp: api_Stop_def split: prod.splits option.splits)
  show ?thesis
  proof (cases "pr_cache p")
    case (Kafka k)
    then have "shutdown E p = None"
      by (simp add: shutdown_def api Some r any_Close_def KafkaCache_Close_None)
    then show ?thesis using Kafka by simp
  next
    case (Memory m)
    obtain bc w e where b: "bc_Close (cl_hub E) (cl_clients E) (pr_bc p) (pr_world p) = (bc, w, e)"
      by (metis prod_cases3)
    have s: "shutdown E p = Some (p\<lparr>pr_api := a, pr_session := cl_session E (pr_session p),
        pr_cache := Memory (MemoryCache.Close m), pr_bc := bc, pr_world := w\<rparr>)"
      by (simp add: shutdown_def api Some r any_Close_def Memory b)
    have "MemoryCache.pending (MemoryCache.Close m) cu topic = {#}" for cu topic
      by (simp add: MemoryCache.Close_def MemoryCache.pending_def unread_def topic_docs_def)
    moreover have "cl_clients E \<noteq> [] \<longrightarrow> bc_items bc = Map.empty \<and> w = stop_clients (cl_hub E) (cl_clients E) (pr_world p)"
      using b by (auto simp: bc_Close_def items_Clear_def)
    ultimately show ?thesis using ready by (auto simp: s a Memory)
  qed
qed


definition idle_closing :: "(nat, unit, unit, bool, unit, nat) closing" where
  "idle_closing = \<lparr>cl_listener = (\<lambda>n. (n - 1, Some ''busy'')), cl_session = (\<lambda>_. False), cl_persist = (\<lambda>_. p_init),
     cl_kafka = toy_lib, cl_names = [], cl_len = (\<lambda>c t. 0), cl_chans = (\<lambda>_. []), cl_hub = toy_hub,
     cl_clients = [\<lparr>ec_conn = (), ec_regTimeout = 3, ec_stream = Some 7\<rparr>]\<rparr>"

definition running :: "unit any_cache \<Rightarrow> (nat, unit, unit, bool) process" where
  "running c = \<lparr>pr_api = 1, pr_session = True, pr_cache = c, pr_bc = toy_bc\<lparr>bc_items := [''tx'' \<mapsto> DocSlice []]\<rparr>, pr_world = ()\<rparr>"

theorem shutdown_ends_iff_witness:
  "\<exists>p'. shutdown idle_closing (running (Memory one_doc_cache)) = Some p' \<and> \<not> pr_session p' \<and> pr_api p' = 0 \<and>
     bc_items (pr_bc p') = Map.empty \<and> shutdown idle_closing (running (Kafka toy_kafka)) = None"
proof -
  let ?m = "running (Memory one_doc_cache)" and ?k = "running (Kafka toy_kafka)"
  have c: "pr_cache (running c) = c" "pr_api (running c) = 1" for c by (simp_all add: running_def)
  have l: "fst (cl_listener idle_closing 1) = 0" "\<And>b. \<not> cl_session idle_closing b" "cl_clients idle_closing \<noteq> []"
    by (simp_all add: idle_closing_def)
  have "close_ready (cl_persist idle_closing 0)"
    by (simp add: idle_closing_def p_init_def close_ready_def)
  then have "shutdown idle_closing ?m \<noteq> None"
    unfolding conjunct1 [OF shutdown_ends_iff] c by blast
  then obtain p' where p': "shutdown idle_closing ?m = Some p'" by blast
  have "shutdown idle_closing ?k = None"
    unfolding conjunct1 [OF shutdown_ends_iff] c by blast
  moreover note conjunct2 [OF shutdown_ends_iff, rule_format, OF p', unfolded c l(1)]
  ultimately show ?thesis using p' l by blast
qed

end
