(* ===== verification/Pipeline.thy ===== *)
theory Pipeline
  imports Chaincode
begin

text \<open>
  What the service promises, without its goroutines, channels and libraries: an accepted document
  is delivered to the two consumers, taken by them, registered in a batch that is closed under a
  key, and inserted into the table. The events may come in any order and any of them may be
  missing, a database operation may fail after its effect (\<open>ok\<close> is false), a closed batch may be
  written again, the documents of a batch may be lost on the way, and a crash of the process loses
  whatever a consumer had and did not finish. The state space is over-approximated: \<open>a_reg\<close> holds
  whatever was taken for registration and neither closed nor lost. \<open>System\<close> shows that the program refines these events.

  A message that is delivered again brings a second copy of its document, so a batch may hold
  copies. \<open>Q\<close> is what the database is relied on for: it says for which batches a write has its
  effect on the table; what any other batch does to the table is left open. Two instances are
  used: batches without copies, and batches whose copies are equal (\<open>agree\<close>).
\<close>

section \<open>States and events\<close>

record pipeline =
  a_log :: "document list"                          \<comment> \<open>accepted documents, in order\<close>
  a_seen :: "(string \<times> nat) list"                  \<comment> \<open>deliveries: consumer, position in the log\<close>
  a_wait :: "string \<Rightarrow> document multiset"           \<comment> \<open>delivered to a consumer, not yet taken\<close>
  a_reg :: "document multiset"                      \<comment> \<open>taken for registration, batch not closed\<close>
  a_closed :: "(string \<times> document list \<times> bool) list" \<comment> \<open>key, batch, whether the update was confirmed\<close>
  a_store :: "document multiset"                    \<comment> \<open>taken for storage, not inserted\<close>
  a_put :: "document multiset"                      \<comment> \<open>insert executed\<close>
  a_gone :: "string \<Rightarrow> document multiset"           \<comment> \<open>taken by a consumer and lost\<close>
  a_stored :: "document set"                        \<comment> \<open>insert confirmed\<close>
  a_table :: table

definition pipe_init :: "table \<Rightarrow> document list \<Rightarrow> pipeline" where
  "pipe_init t l = \<lparr>a_log = l, a_seen = [], a_wait = (\<lambda>_. {#}), a_reg = {#}, a_closed = [],
     a_store = {#}, a_put = {#}, a_gone = (\<lambda>_. {#}), a_stored = {}, a_table = t\<rparr>"

inductive astep :: "(document list \<Rightarrow> bool) \<Rightarrow> pipeline \<Rightarrow> pipeline \<Rightarrow> bool" for Q where
  submit: "astep Q a (a\<lparr>a_log := a_log a @ [d]\<rparr>)"
| deliver: "i < length (a_log a) \<Longrightarrow>
     astep Q a (a\<lparr>a_seen := (c, i) # a_seen a, a_wait := (a_wait a)(c := add_mset (a_log a ! i) (a_wait a c))\<rparr>)"
| take_reg: "mset ds \<subseteq># a_wait a ''blockchain'' \<Longrightarrow>
     astep Q a (a\<lparr>a_wait := (a_wait a)(''blockchain'' := a_wait a ''blockchain'' - mset ds),
                a_reg := a_reg a + mset ds\<rparr>)"
| take_store: "mset ds \<subseteq># a_wait a ''persister'' \<Longrightarrow>
     astep Q a (a\<lparr>a_wait := (a_wait a)(''persister'' := a_wait a ''persister'' - mset ds),
                a_store := a_store a + mset ds\<rparr>)"
| put: "mset ds \<subseteq># a_store a \<Longrightarrow> (Q ds \<longrightarrow> t \<in> effect ok (fold put_row ds) (a_table a)) \<Longrightarrow>
     astep Q a (a\<lparr>a_store := a_store a - mset ds, a_put := a_put a + mset ds,
                a_stored := (if ok then a_stored a \<union> set ds else a_stored a), a_table := t\<rparr>)"
| close: "mset ds \<subseteq># a_reg a \<Longrightarrow> (Q ds \<longrightarrow> t \<in> effect ok (fold (prove_row now key tx) (map Id ds)) (a_table a)) \<Longrightarrow>
     astep Q a (a\<lparr>a_reg := a_reg a - mset ds, a_closed := (key, ds, ok) # a_closed a, a_table := t\<rparr>)"
| rewrite: "(key, ds, ok') \<in> set (a_closed a) \<Longrightarrow> (Q ds \<longrightarrow> t \<in> effect ok (fold (prove_row now key tx) (map Id ds)) (a_table a)) \<Longrightarrow>
     astep Q a (a\<lparr>a_table := t\<rparr>)"
| lose: "mset ds \<subseteq># a_reg a \<Longrightarrow>
     astep Q a (a\<lparr>a_reg := a_reg a - mset ds, a_gone := (a_gone a)(''blockchain'' := a_gone a ''blockchain'' + mset ds)\<rparr>)"
| crash: "astep Q a (a\<lparr>a_wait := (\<lambda>_. {#}), a_reg := {#}, a_store := {#}, a_gone := (\<lambda>c. a_gone a c + a_wait a c +
                (if c = ''blockchain'' then a_reg a else if c = ''persister'' then a_store a else {#}))\<rparr>)"
| sign: "t \<in> effect ok (sign_row i sg) (a_table a) \<Longrightarrow> astep Q a (a\<lparr>a_table := t\<rparr>)"

inductive areach :: "(document list \<Rightarrow> bool) \<Rightarrow> table \<Rightarrow> document list \<Rightarrow> pipeline \<Rightarrow> bool" for Q t0 l0 where
  start: "areach Q t0 l0 (pipe_init t0 l0)"
| step: "areach Q t0 l0 a \<Longrightarrow> astep Q a b \<Longrightarrow> areach Q t0 l0 b"

text \<open>
  Two conditions on the environment, each used only where it is needed: document identifiers are
  unique, and (in \<open>clean\<close>, which has both) the broker delivers no message twice to the same consumer.
\<close>

abbreviation unique_ids :: "pipeline \<Rightarrow> bool" where
  "unique_ids a \<equiv> distinct (map Id (a_log a))"

definition clean :: "pipeline \<Rightarrow> bool" where
  "clean a \<longleftrightarrow> unique_ids a \<and> distinct (a_seen a)"

text \<open>
  \<open>Q\<close> covers every batch there can be: a batch of accepted documents, without copies if no message
  was delivered twice.
\<close>

definition covered :: "(document list \<Rightarrow> bool) \<Rightarrow> pipeline \<Rightarrow> bool" where
  "covered Q a \<longleftrightarrow> unique_ids a \<and>
     (\<forall>ds. set ds \<subseteq> set (a_log a) \<longrightarrow> (distinct (a_seen a) \<longrightarrow> distinct (map Id ds)) \<longrightarrow> Q ds)"

lemma covered_agree: "unique_ids a \<Longrightarrow> covered agree a"
  by (auto simp: covered_def distinct_map intro: agree_subset)

lemma covered_clean: "clean a \<Longrightarrow> covered (\<lambda>ds. distinct (map Id ds)) a"
  by (simp add: covered_def clean_def)

lemma covered_step: "astep Q a b \<Longrightarrow> covered Q b \<Longrightarrow> covered Q a"
  by (induction rule: astep.induct) (auto simp: covered_def)

section \<open>Every document is in one place for each consumer\<close>

definition seen_docs :: "pipeline \<Rightarrow> string \<Rightarrow> document list" where
  "seen_docs a c = map (\<lambda>x. a_log a ! snd x) (filter (\<lambda>x. fst x = c) (a_seen a))"

abbreviation closed_docs :: "pipeline \<Rightarrow> document list" where
  "closed_docs a \<equiv> concat (map (\<lambda>x. fst (snd x)) (a_closed a))"

definition placed :: "pipeline \<Rightarrow> bool" where
  "placed a \<longleftrightarrow> (\<forall>x \<in> set (a_seen a). snd x < length (a_log a)) \<and>
     mset (seen_docs a ''blockchain'') = a_wait a ''blockchain'' + a_reg a + a_gone a ''blockchain'' + mset (closed_docs a) \<and>
     mset (seen_docs a ''persister'') = a_wait a ''persister'' + a_store a + a_gone a ''persister'' + a_put a"

lemma seen_docs_log:
  "(\<And>x. x \<in> set (a_seen a) \<Longrightarrow> snd x < length (a_log a)) \<Longrightarrow> seen_docs (a\<lparr>a_log := a_log a @ [d]\<rparr>) c = seen_docs a c"
  by (simp add: seen_docs_def nth_append)

lemma mset_move:
  "M \<subseteq># W \<Longrightarrow> W - M + (R + M) = W + R"
  "M \<subseteq># W \<Longrightarrow> V + (W - M) + (M + R) = V + W + R"
  "M \<subseteq># W \<Longrightarrow> V + (W - M) + (R + M) = V + W + R"
  for M :: "'a multiset"
  by (auto simp: mset_subset_eq_exists_conv)

lemma mset_give: "M \<subseteq># W \<Longrightarrow> V + W - M + M = V + W" for M :: "'a multiset"
  by (auto simp: mset_subset_eq_exists_conv)

lemma placed_init: "placed (pipe_init t l)"
  by (simp add: placed_def pipe_init_def seen_docs_def)

lemma placed_step: "astep Q a b \<Longrightarrow> placed a \<Longrightarrow> placed b"
proof (induction rule: astep.induct)
  case (submit a d)
  then show ?case by (auto simp: placed_def seen_docs_log)
next
  case (deliver i a c)
  then show ?case by (auto simp: placed_def seen_docs_def)
qed (simp_all add: placed_def seen_docs_def mset_move mset_give)

lemma areach_placed: "areach Q t0 l0 a \<Longrightarrow> placed a"
  by (induction rule: areach.induct) (auto intro: placed_init placed_step)

lemma seen_docs_distinct:
  assumes "placed a" and "clean a"
  shows "distinct (map Id (seen_docs a c))"
proof -
  let ?xs = "filter (\<lambda>x. fst x = c) (a_seen a)"
  have "map Id (seen_docs a c) = map (\<lambda>x. map Id (a_log a) ! snd x) ?xs"
    using assms(1) by (auto simp: seen_docs_def placed_def)
  moreover have "inj_on (\<lambda>x. map Id (a_log a) ! snd x) (set ?xs)"
  proof (intro inj_onI)
    fix x y assume x: "x \<in> set ?xs" and y: "y \<in> set ?xs"
      and e: "map Id (a_log a) ! snd x = map Id (a_log a) ! snd y"
    have "snd x < length (map Id (a_log a))" "snd y < length (map Id (a_log a))"
      using x y assms(1) by (auto simp: placed_def)
    then have "snd x = snd y"
      using e assms(2) unfolding clean_def by (metis nth_eq_iff_index_eq)
    with x y show "x = y" by (auto simp: prod_eq_iff)
  qed
  ultimately show ?thesis using assms(2) by (simp add: distinct_map clean_def)
qed

lemma seen_docs_in_log: "placed a \<Longrightarrow> set (seen_docs a c) \<subseteq> set (a_log a)"
  by (auto simp: seen_docs_def placed_def)

lemma distinct_mset_mono:
  assumes "mset xs \<subseteq># mset ys" and "distinct ys"
  shows "distinct xs"
proof -
  have "count (mset xs) a = (if a \<in> set xs then 1 else 0)" for a
  proof -
    have "count (mset xs) a \<le> count (mset ys) a" by (rule mset_subset_eq_count [OF assms(1)])
    also have "count (mset ys) a \<le> 1" using assms(2) by (simp add: distinct_count_atmost_1)
    finally have "count (mset xs) a \<le> 1" .
    moreover have "a \<in> set xs \<Longrightarrow> 1 \<le> count (mset xs) a" by simp
    ultimately have "a \<in> set xs \<Longrightarrow> count (mset xs) a = 1" by (rule le_antisym)
    then show ?thesis by (simp add: not_in_iff)
  qed
  then show ?thesis by (simp add: distinct_count_atmost_1)
qed

lemma distinct_ids_mono: "mset ds \<subseteq># mset es \<Longrightarrow> distinct (map Id es) \<Longrightarrow> distinct (map Id ds)"
  by (rule distinct_mset_mono [of "map Id ds" "map Id es"]) (simp_all add: image_mset_subseteq_mono)

lemma covered_seen:
  assumes "placed a" and "covered Q a" and "mset ds \<subseteq># mset (seen_docs a c)"
  shows "Q ds" and "set ds \<subseteq> set (a_log a)"
proof -
  show ds: "set ds \<subseteq> set (a_log a)"
    using set_mset_mono [OF assms(3)] seen_docs_in_log [OF assms(1), of c] by simp
  have "distinct (map Id ds)" if "distinct (a_seen a)"
    by (rule distinct_ids_mono [OF assms(3) seen_docs_distinct [OF assms(1)]])
       (use that assms(2) in \<open>simp add: clean_def covered_def\<close>)
  with ds assms(2) show "Q ds" by (simp add: covered_def)
qed

lemma seen_parts:
  assumes "placed a"
  shows "mset ds \<subseteq># a_reg a \<Longrightarrow> mset ds \<subseteq># mset (seen_docs a ''blockchain'')"
    and "mset ds \<subseteq># a_store a \<Longrightarrow> mset ds \<subseteq># mset (seen_docs a ''persister'')"
    and "x \<in> set (a_closed a) \<Longrightarrow> mset (fst (snd x)) \<subseteq># mset (seen_docs a ''blockchain'')"
proof -
  have reg: "mset (seen_docs a ''blockchain'') = a_wait a ''blockchain'' + a_reg a + a_gone a ''blockchain'' + mset (closed_docs a)"
    and sto: "mset (seen_docs a ''persister'') = a_wait a ''persister'' + a_store a + a_gone a ''persister'' + a_put a"
    using assms by (simp_all add: placed_def)
  show "mset ds \<subseteq># a_reg a \<Longrightarrow> mset ds \<subseteq># mset (seen_docs a ''blockchain'')"
    unfolding reg by (simp add: subset_mset.add_increasing subset_mset.add_increasing2)
  show "mset ds \<subseteq># a_store a \<Longrightarrow> mset ds \<subseteq># mset (seen_docs a ''persister'')"
    unfolding sto by (simp add: subset_mset.add_increasing subset_mset.add_increasing2)
  assume "x \<in> set (a_closed a)"
  then obtain xs ys where "a_closed a = xs @ x # ys" by (meson split_list)
  then have "mset (fst (snd x)) \<subseteq># mset (closed_docs a)" by simp
  then show "mset (fst (snd x)) \<subseteq># mset (seen_docs a ''blockchain'')"
    unfolding reg by (rule subset_mset.add_increasing [rotated]) simp
qed

text \<open>The batches of \<open>put\<close>, \<open>close\<close> and \<open>rewrite\<close>.\<close>

lemma covered_batch:
  assumes "placed a" and "covered Q a"
  shows "mset ds \<subseteq># a_reg a \<Longrightarrow> Q ds" and "mset ds \<subseteq># a_store a \<Longrightarrow> Q ds"
    and "mset ds \<subseteq># a_store a \<Longrightarrow> set ds \<subseteq> set (a_log a)" and "x \<in> set (a_closed a) \<Longrightarrow> Q (fst (snd x))"
  using covered_seen [OF assms] seen_parts [OF assms(1)] by blast+

lemma gone_not_closed:
  assumes "placed a" and "clean a" and "d \<in># a_gone a ''blockchain''" and "x \<in> set (a_closed a)"
  shows "Id d \<notin> Id ` set (fst (snd x))"
proof -
  have "mset (d # closed_docs a) \<subseteq># mset (seen_docs a ''blockchain'')"
    using assms(1,3) by (simp add: placed_def subset_mset.add_increasing)
  from distinct_ids_mono [OF this seen_docs_distinct [OF assms(1,2)]] show ?thesis
    using assms(4) by auto
qed

section \<open>What the table says\<close>

text \<open>
  Confirmed documents are in the table with their strings; a digest comes from a closed batch or
  was in the table before; the documents of a confirmed batch carry its key, or that of another
  closed batch that holds a copy of them.
\<close>

abbreviation keyed :: "pipeline \<Rightarrow> string \<Rightarrow> bool" where
  "keyed a i \<equiv> \<exists>x \<in> set (a_closed a). fst x = digest_of (a_table a) i \<and> i \<in> Id ` set (fst (snd x))"

lemma keyed_mono:
  "keyed a i \<Longrightarrow> set (a_closed a) \<subseteq> set (a_closed b) \<Longrightarrow> digest_of (a_table b) i = digest_of (a_table a) i \<Longrightarrow> keyed b i"
  by simp blast

definition faithful :: "table \<Rightarrow> pipeline \<Rightarrow> bool" where
  "faithful t0 a \<longleftrightarrow> ids_ok (a_table a) \<and> a_stored a \<subseteq> set (a_log a) \<and>
     (\<forall>d \<in> a_stored a. string_of (a_table a) (Id d) = Some (docString d)) \<and>
     (\<forall>i. digest_of (a_table a) i \<noteq> [] \<longrightarrow> digest_of (a_table a) i = digest_of t0 i \<or> keyed a i) \<and>
     (\<forall>x \<in> set (a_closed a). snd (snd x) \<longrightarrow> (\<forall>d \<in> set (fst (snd x)). keyed a (Id d)))"

lemma faithful_init: "ids_ok t0 \<Longrightarrow> faithful t0 (pipe_init t0 l)"
  by (simp add: faithful_def pipe_init_def)

lemma ids_ok_puts [simp]: "ids_ok t \<Longrightarrow> ids_ok (fold put_row ds t)"
  by (induction ds arbitrary: t) (simp_all add: put_row_def Let_def)

lemma ids_ok_proves [simp]: "ids_ok t \<Longrightarrow> ids_ok (fold (prove_row now dg tx) ids t)"
  by (induction ids arbitrary: t) simp_all

lemma ids_ok_sign [simp]: "ids_ok t \<Longrightarrow> ids_ok (sign_row i sg t)"
  by (simp add: sign_row_def Let_def)

lemma faithful_put:
  assumes "faithful t0 a" and "unique_ids a" and "set ds \<subseteq> set (a_log a)"
    and "t \<in> effect ok (fold put_row ds) (a_table a)"
  shows "faithful t0 (a\<lparr>a_store := a_store a - mset ds, a_put := a_put a + mset ds,
                a_stored := (if ok then a_stored a \<union> set ds else a_stored a), a_table := t\<rparr>)"
proof -
  have inj: "inj_on Id (set (a_log a))" using assms(2) by (simp add: distinct_map)
  have "string_of (fold put_row ds (a_table a)) (Id d) = Some (docString d)"
    if "d \<in> a_stored a \<union> set ds" for d
  proof (cases "Id d \<in> Id ` set ds")
    case True
    then obtain e where e: "e \<in> set ds" "Id d = Id e" by auto
    then have "d = e" using inj_onD [OF inj] that assms(1,3) by (auto simp: faithful_def)
    with e(1) string_fold_put_row [OF agree_subset [OF inj assms(3)]] show ?thesis by simp
  next
    case False
    with that assms(1) string_fold_put_row_other [OF False] show ?thesis by (auto simp: faithful_def)
  qed
  moreover have "digest_of t = digest_of (a_table a)" "ids_ok t"
    using assms(1,4) by (auto simp: effect_def faithful_def split: if_splits)
  moreover have "t = fold put_row ds (a_table a) \<or> \<not> ok \<and> t = a_table a"
    using assms(4) by (auto simp: effect_def split: if_splits)
  ultimately show ?thesis
    using assms(1,3) by (auto simp: faithful_def)
qed

text \<open>Closing a batch and writing a closed one again.\<close>

lemma faithful_prove:
  assumes "faithful t0 a" and "t \<in> effect ok (fold (prove_row now key tx) (map Id ds)) (a_table a)"
    and "set cl \<subseteq> insert (key, ds, ok) (set (a_closed a))" and "set (a_closed a) \<subseteq> set cl" and "(key, ds, ok') \<in> set cl"
  shows "faithful t0 (a\<lparr>a_reg := r, a_closed := cl, a_table := t\<rparr>)" (is "faithful t0 ?b")
proof -
  let ?T = "fold (prove_row now key tx) (map Id ds) (a_table a)"
  have ids: "ids_ok (a_table a)" using assms(1) by (simp add: faithful_def)
  have strs: "string_of t (Id d) = Some (docString d)" if "d \<in> a_stored a" for d
    using assms(1,2) that string_fold_prove_row [OF ids, of "Id d" "docString d"]
    by (auto simp: effect_def faithful_def split: if_splits)
  consider "t = ?T" | "\<not> ok" "t = a_table a"
    using assms(2) by (auto simp: effect_def split: if_splits)
  then show ?thesis
  proof cases
    case 1
    have "keyed ?b i" if "i \<in> Id ` set ds" for i
      using that assms(5) by (intro bexI [of _ "(key, ds, ok')"]) (simp_all add: 1 digest_fold_prove_row)
    moreover have other: "digest_of t i = digest_of (a_table a) i" if "i \<notin> Id ` set ds" for i
      using that by (simp add: 1 digest_fold_prove_row)
    moreover have "keyed ?b i" if "keyed a i" "i \<notin> Id ` set ds" for i
      by (rule keyed_mono [OF that(1)]) (use assms(4) other [OF that(2)] in simp_all)
    ultimately have k: "keyed ?b i" if "keyed a i \<or> i \<in> Id ` set ds" for i
      using that by blast
    have "keyed ?b (Id d)" if "x \<in> set cl" "snd (snd x)" "d \<in> set (fst (snd x))" for x d
      using that assms(1,3) by (intro k) (auto simp: faithful_def)
    moreover have "digest_of t i = digest_of t0 i \<or> keyed ?b i" if "digest_of t i \<noteq> []" for i
    proof (cases "keyed a i \<or> i \<in> Id ` set ds")
      case False
      with that show ?thesis using assms(1) other [of i] unfolding faithful_def by metis
    qed (use k in blast)
    moreover have "ids_ok t" using ids by (simp add: 1)
    ultimately show ?thesis using assms(1) strs by (simp add: faithful_def)
  next
    case 2
    then have "x \<in> set (a_closed a)" if "x \<in> set cl" "snd (snd x)" for x
      using that assms(3) by auto
    moreover have "keyed ?b i" if "keyed a i" for i
      by (rule keyed_mono [OF that]) (simp_all add: 2 assms(4))
    ultimately show ?thesis
      using assms(1) strs unfolding faithful_def by (simp add: 2) blast
  qed
qed

lemma faithful_step: "astep Q a b \<Longrightarrow> placed a \<Longrightarrow> covered Q a \<Longrightarrow> faithful t0 a \<Longrightarrow> faithful t0 b"
proof (induction rule: astep.induct)
  case (put ds a t ok)
  have "Q ds" "set ds \<subseteq> set (a_log a)" by (rule covered_batch(2,3) [OF put(3,4,1)])+
  moreover have "unique_ids a" using put(4) by (simp add: covered_def)
  ultimately show ?case using put(2,5) by (intro faithful_put) auto
next
  case (close ds a t ok now key tx)
  have "Q ds" by (rule covered_batch(1) [OF close(3,4,1)])
  with close(2,5) show ?case by (intro faithful_prove [where ok' = ok]) auto
next
  case (rewrite key ds ok' a t ok now tx)
  have "Q (fst (snd (key, ds, ok')))" by (rule covered_batch(4) [OF rewrite(3,4,1)])
  with rewrite(1,2,5) have "faithful t0 (a\<lparr>a_reg := a_reg a, a_closed := a_closed a, a_table := t\<rparr>)"
    by (intro faithful_prove [where ok = ok and ok' = ok']) auto
  then show ?case by simp
next
  case (sign t ok i sg a)
  then have "digest_of t = digest_of (a_table a)" "ids_ok t"
    "\<And>j s. string_of (a_table a) j = Some s \<Longrightarrow> string_of t j = Some s"
    by (auto simp: effect_def faithful_def string_sign_row split: if_splits)
  with sign(4) show ?case by (auto simp: faithful_def)
qed (auto simp: faithful_def)

lemma areach_faithful:
  assumes "areach Q t0 l0 a" and "covered Q a" and "ids_ok t0"
  shows "faithful t0 a"
  using assms(1,2)
proof (induction rule: areach.induct)
  case start
  show ?case by (rule faithful_init [OF assms(3)])
next
  case (step a b)
  then show ?case using covered_step areach_placed faithful_step by blast
qed

section \<open>What the service promises\<close>

text \<open>
  A batch that was closed with a confirmed update, and whose documents were all stored, is what
  any enumeration of the rows with its key gives back, string by string. No other closed batch
  may have its key or one of its documents, and it may hold no copies: those are rejected.
\<close>

lemma closed_batch_found:
  assumes "areach Q t0 l0 a" and "covered Q a" and "ids_ok t0"
    and "(key, docs, True) \<in> set (a_closed a)" and "set docs \<subseteq> a_stored a" and "distinct (map Id docs)"
    and "key \<noteq> []" and "key \<notin> range (digest_of t0)"
    and alone: "\<And>key' docs' ok. (key', docs', ok) \<in> set (a_closed a) \<Longrightarrow>
        key' = key \<or> Id ` set docs' \<inter> Id ` set docs \<noteq> {} \<Longrightarrow> key' = key \<and> docs' = docs"
    and "distinct found" and "set found = {x \<in> ran (a_table a). BlockDigest x = key}"
  shows "mset (map docString found) = mset (map docString docs)"
proof -
  have f: "faithful t0 a" by (rule areach_faithful [OF assms(1-3)])
  have "digest_of (a_table a) i = key \<longleftrightarrow> i \<in> Id ` set docs" for i
  proof
    assume i: "digest_of (a_table a) i = key"
    moreover have "digest_of t0 i \<noteq> key" using assms(8) by auto
    ultimately obtain x where x: "x \<in> set (a_closed a)" "fst x = key" "i \<in> Id ` set (fst (snd x))"
      using f assms(7) unfolding faithful_def by metis
    then have "fst (snd x) = docs" using alone [of "fst x" "fst (snd x)" "snd (snd x)"] by (metis prod.collapse)
    with x(3) show "i \<in> Id ` set docs" by simp
  next
    assume "i \<in> Id ` set docs"
    then obtain d where d: "d \<in> set docs" "i = Id d" by auto
    then obtain x where x: "x \<in> set (a_closed a)" "fst x = digest_of (a_table a) i" "i \<in> Id ` set (fst (snd x))"
      using f assms(4) unfolding faithful_def by fastforce
    have "Id ` set (fst (snd x)) \<inter> Id ` set docs \<noteq> {}" using d x(3) by blast
    then have "fst x = key" using alone [of "fst x" "fst (snd x)" "snd (snd x)"] x(1) by (metis prod.collapse)
    with x(2) show "digest_of (a_table a) i = key" by simp
  qed
  moreover have "string_of (a_table a) (Id d) = Some (docString d)" if "d \<in> set docs" for d
    using f assms(5) that unfolding faithful_def by blast
  moreover have "ids_ok (a_table a)" using f by (simp add: faithful_def)
  ultimately show ?thesis
    using batch_strings [OF _ assms(10,11,7,6)] by blast
qed

end
