(* ===== verification/System.thy ===== *)
theory System
  imports Pipeline KafkaCache PersistLoop Startup Api
begin

text \<open>
  The whole service over the Kafka cache and a Cassandra session, as a transition system whose
  steps are the operations of the components: requests put documents into the cache, the message
  goroutines deliver them to the two consumers, the tick of a period takes a batch, invokes the
  chain and records the batch under its transaction, the persistence loop fetches and inserts,
  the handlers of completion events read the batch, write its proof and drop the transaction. Every interleaving is a
  run, any step may be missing, and what the libraries answer is not restricted here. A call
  that panics or ends the process has no successor. The fields \<open>h_\<close> are history.
\<close>

section \<open>The program and its state\<close>

record ('b, 'w, 'k, 'db) program =
  p_digests :: digests
  p_kafka :: "'b kafka_lib"
  p_periods :: "PeriodLimit list"
  p_fabric :: "('w, 'k) fabric"
  p_decode :: query_decoder
  p_results :: "bytes \<Rightarrow> err + (string \<Rightarrow> string option)"
  p_proof :: "string \<Rightarrow> string"               \<comment> \<open>the proof the chain keeps of a root\<close>
  p_session :: "'db session"
  p_pconfig :: pconfig

record ('b, 'w, 'db) sys =
  s_cache :: "'b KafkaCache"
  s_bc :: Blockchain
  s_world :: 'w
  s_db :: 'db
  s_persist :: pstate
  s_taken :: "document list list"               \<comment> \<open>ticks that have taken their documents\<close>
  s_invoked :: "(string \<times> document list) list"  \<comment> \<open>ticks that have a transaction\<close>
  s_completing :: "(string \<times> document list \<times> string) list" \<comment> \<open>handlers that have read \<open>items\<close>: transaction, batch, key\<close>
  s_deleting :: "string list"                   \<comment> \<open>handlers that have written the database\<close>
  h_seen :: "(string \<times> nat) list"               \<comment> \<open>messages delivered: consumer, offset\<close>
  h_crashed :: "string \<Rightarrow> document multiset"       \<comment> \<open>in memory when the process ended\<close>
  h_put :: "document list"                      \<comment> \<open>given to the database\<close>
  h_lost :: "document list"                     \<comment> \<open>batches whose invocation failed\<close>
  h_closed :: "(string \<times> document list \<times> bool) list" \<comment> \<open>completed batches with their key\<close>
  h_written :: "string set"                     \<comment> \<open>transactions whose proof was written\<close>
  h_stored :: "document list"                   \<comment> \<open>inserted without an error\<close>

text \<open>The documents recorded under a transaction.\<close>

definition items_docs :: "items \<Rightarrow> document multiset" where
  "items_docs its = (\<Sum>tx \<in> dom its. case its tx of Some (DocSlice ds) \<Rightarrow> mset ds | _ \<Rightarrow> {#})"

text \<open>The documents in the memory of the process, for each of the two consumers.\<close>

definition in_registration :: "('b, 'w, 'db) sys \<Rightarrow> document multiset" where
  "in_registration s = mset (concat (s_taken s)) + mset (concat (map snd (s_invoked s)))
     + items_docs (bc_items (s_bc s) |` (- h_written s))"

definition in_storage :: "('b, 'w, 'db) sys \<Rightarrow> document multiset" where
  "in_storage s = fetched (s_persist s) - mset (concat (written (s_persist s)))"

definition in_memory :: "('b, 'w, 'db) sys \<Rightarrow> string \<Rightarrow> document multiset" where
  "in_memory s c = pend_all (s_cache s) c
     + (if c = ''blockchain'' then in_registration s else if c = ''persister'' then in_storage s else {#})"

text \<open>The program has come up: nothing in memory, one peer that answers.\<close>

definition booted :: "('b, 'w, 'k, 'db) program \<Rightarrow> 'b KafkaCache \<Rightarrow> Blockchain \<Rightarrow> bool" where
  "booted P k bc \<longleftrightarrow> (\<exists>brokers cfg b. k = kafka_state brokers cfg (p_periods P) b) \<and>
     bc_name bc = ''blockchain'' \<and> bc_items bc = Map.empty \<and> peer_available (p_fabric P) bc"

section \<open>Steps\<close>

text \<open>
  \<open>reg w\<close> are the roots registered on the chain in the world \<open>w\<close>, \<open>blog b\<close> is the log of the broker.
  A completion event reports only roots that are on the chain, each with the one proof the chain
  keeps of it, and the chain gives no transaction identifier twice. Every event client of the
  handler delivers its own copy of an event, so the handlers of one transaction may run side by
  side: the moments of \<open>invokeCompleted\<close> are steps of their own. An invocation or the query of a
  verification runs beside other calls, whose choices turn the ring of peers between its own
  (\<open>turns\<close>); of \<open>VerifyDocs\<close> only this query matters here.
\<close>

inductive sstep :: "('b, 'w, 'k, 'db) program \<Rightarrow> ('w \<Rightarrow> string set) \<Rightarrow> ('b \<Rightarrow> (string \<times> bytes) list)
    \<Rightarrow> ('b, 'w, 'db) sys \<Rightarrow> ('b, 'w, 'db) sys \<Rightarrow> bool" for P reg blog where
  submit: "submitRaw pd (p_periods P) (KafkaCache.Put (p_kafka P) (p_digests P) now) req (s_cache s) = (c, Ret resp) \<Longrightarrow>
     sstep P reg blog s (s\<lparr>s_cache := c\<rparr>)"
| subscribe: "KafkaCache.Subscribe (p_kafka P) cu topic (s_cache s) = (c, b) \<Longrightarrow>
     sstep P reg blog s (s\<lparr>s_cache := c\<rparr>)"
| deliver: "i < length (blog (k_world (s_cache s))) \<Longrightarrow> blog (k_world (s_cache s)) ! i = (topic, msg) \<Longrightarrow>
     deliver (p_kafka P) (p_periods P) cu topic msg (s_cache s) = Ret (c, acked) \<Longrightarrow>
     sstep P reg blog s (s\<lparr>s_cache := c, h_seen := (if acked then (cu, i) # h_seen s else h_seen s)\<rparr>)"
| tick_take: "getDocsFromCache (KafkaCache.Get (p_periods P)) KafkaCache.Topic () (s_bc s) period (s_cache s) = (c, Ret docs) \<Longrightarrow>
     sstep P reg blog s (s\<lparr>s_cache := c, s_taken := docs # s_taken s\<rparr>)"
| tick_invoke: "s_taken s = xs @ docs # ys \<Longrightarrow>
     register_invoke_shared (sha256 (p_digests P)) (p_fabric P) turns docs (s_bc s) (s_world s) = (bc, w, Ret (Some txid)) \<Longrightarrow>
     txid \<notin> fst ` set (s_invoked s) \<union> dom (bc_items (s_bc s)) \<union> h_written s \<Longrightarrow>
     sstep P reg blog s (s\<lparr>s_bc := bc, s_world := w, s_taken := xs @ ys, s_invoked := (txid, docs) # s_invoked s\<rparr>)"
| tick_fail: "s_taken s = xs @ docs # ys \<Longrightarrow>
     register_invoke_shared (sha256 (p_digests P)) (p_fabric P) turns docs (s_bc s) (s_world s) = (bc, w, Ret None) \<Longrightarrow>
     sstep P reg blog s (s\<lparr>s_bc := bc, s_world := w, s_taken := xs @ ys, h_lost := docs @ h_lost s\<rparr>)"
| tick_record: "s_invoked s = xs @ (txid, docs) # ys \<Longrightarrow> register_record txid docs (s_bc s) = (bc, Ret b) \<Longrightarrow>
     sstep P reg blog s (s\<lparr>s_bc := bc, s_invoked := xs @ ys\<rparr>)"
| persist_move: "pstep (p_pconfig P) (s_persist s) p \<Longrightarrow> fetched p = fetched (s_persist s) \<Longrightarrow>
     written p = written (s_persist s) \<Longrightarrow> sstep P reg blog s (s\<lparr>s_persist := p\<rparr>)"
| persist_fetch: "getters (s_persist s) = Suc n \<Longrightarrow>
     fetch_documents (KafkaCache.Subscribe (p_kafka P)) (KafkaCache.Get (p_periods P)) KafkaCache.Topic () period (s_cache s) = (c, Ret ds) \<Longrightarrow>
     sstep P reg blog s (s\<lparr>s_cache := c, s_persist := (s_persist s)\<lparr>getters := n,
        outboxes := outboxes (s_persist s) @ [ds], fetched := fetched (s_persist s) + mset ds\<rparr>\<rparr>)"
| persist_write: "inflight (s_persist s) = xs @ b # ys \<Longrightarrow> cas_PutDocsIntoDB (p_session P) b (s_db s) = (db, er) \<Longrightarrow>
     sstep P reg blog s (s\<lparr>s_db := db, s_persist := (s_persist s)\<lparr>inflight := xs @ ys,
        busy := busy (s_persist s) - 1, written := written (s_persist s) @ [b]\<rparr>,
        h_put := b @ h_put s,
        h_stored := (if snd (ExecuteBatch (p_session P) (map put_statement b) (s_db s)) = None
                     then b @ h_stored s else h_stored s)\<rparr>)"
| complete_begin: "completed_begin (p_digests P) (p_results P) e (s_bc s) = Inr (docs, key) \<Longrightarrow>
     (\<And>results. p_results P (ev_Payload e) = Inr results \<Longrightarrow>
        dom results \<subseteq> reg (s_world s) \<and> (\<forall>root h. results root = Some h \<longrightarrow> h = p_proof P root)) \<Longrightarrow>
     sstep P reg blog s (s\<lparr>s_completing := (ev_TxID e, docs, key) # s_completing s\<rparr>)"
| complete_write: "s_completing s = xs @ (txid, docs, key) # ys \<Longrightarrow>
     db = completed_write (cassandra_persister (p_session P)) now docs key txid (s_db s) \<Longrightarrow>
     ok = (snd (cas_SetDocsBlockDigest (p_session P) now (map Id docs) key txid (s_db s)) = None) \<Longrightarrow>
     sstep P reg blog s (s\<lparr>s_db := db, s_completing := xs @ ys, s_deleting := txid # s_deleting s,
        h_closed := (if txid \<in> h_written s then h_closed s else (key, docs, ok) # h_closed s),
        h_written := insert txid (h_written s)\<rparr>)"
| complete_delete: "s_deleting s = xs @ txid # ys \<Longrightarrow>
     sstep P reg blog s (s\<lparr>s_bc := completed_delete txid (s_bc s), s_deleting := xs @ ys\<rparr>)"
| verify: "execute_shared (p_fabric P) turns ''query'' ''existence'' [''base'', root] (s_bc s) (s_world s) = (bc, w, Ret v) \<Longrightarrow>
     sstep P reg blog s (s\<lparr>s_bc := bc, s_world := w\<rparr>)"
| sign: "cas_SetDocSignature (p_session P) i sg (s_db s) = (db, er) \<Longrightarrow> sstep P reg blog s (s\<lparr>s_db := db\<rparr>)"
| chain_moves: "reg (s_world s) \<subseteq> reg w \<Longrightarrow> sstep P reg blog s (s\<lparr>s_world := w\<rparr>)"
| restart: "booted P k bc \<Longrightarrow> blog (k_world k) = blog (k_world (s_cache s)) \<Longrightarrow>
     sstep P reg blog s (s\<lparr>s_cache := k, s_bc := bc, s_persist := p_init, s_taken := [], s_invoked := [],
        s_completing := [], s_deleting := [], h_crashed := (\<lambda>c. h_crashed s c + in_memory s c)\<rparr>)"

definition sys_start :: "'b KafkaCache \<Rightarrow> Blockchain \<Rightarrow> 'w \<Rightarrow> 'db \<Rightarrow> ('b, 'w, 'db) sys" where
  "sys_start c bc w db = \<lparr>s_cache = c, s_bc = bc, s_world = w, s_db = db, s_persist = p_init,
     s_taken = [], s_invoked = [], s_completing = [], s_deleting = [], h_seen = [], h_crashed = (\<lambda>_. {#}), h_put = [], h_lost = [], h_closed = [],
     h_written = {}, h_stored = []\<rparr>"

inductive sreach :: "('b, 'w, 'k, 'db) program \<Rightarrow> ('w \<Rightarrow> string set) \<Rightarrow> ('b \<Rightarrow> (string \<times> bytes) list)
    \<Rightarrow> ('b, 'w, 'db) sys \<Rightarrow> ('b, 'w, 'db) sys \<Rightarrow> bool" for P reg blog s0 where
  start: "sreach P reg blog s0 s0"
| step: "sreach P reg blog s0 s \<Longrightarrow> sstep P reg blog s t \<Longrightarrow> sreach P reg blog s0 t"

text \<open>What is relied on: the broker appends a message it accepts, and may have appended one it reports as failed.\<close>

definition broker_log :: "'b kafka_lib \<Rightarrow> ('b \<Rightarrow> (string \<times> bytes) list) \<Rightarrow> bool" where
  "broker_log K blog \<longleftrightarrow>
     (\<forall>t m b b'. SendMessage K t m b = (b', None) \<longrightarrow> blog b' = blog b @ [(t, m)]) \<and>
     (\<forall>t m b b' e. SendMessage K t m b = (b', Some e) \<longrightarrow> blog b' = blog b \<or> blog b' = blog b @ [(t, m)]) \<and>
     (\<forall>bs n ts cfg b. blog (fst (NewConsumer K bs n ts cfg b)) = blog b)"

text \<open>The documents in the broker's log.\<close>

definition log_docs :: "('b, 'w, 'k, 'db) program \<Rightarrow> ('b \<Rightarrow> (string \<times> bytes) list) \<Rightarrow> 'b \<Rightarrow> document list" where
  "log_docs P blog b = map (\<lambda>x. projr (unmarshal (p_kafka P) (snd x))) (blog b)"

text \<open>A first start of the program.\<close>

definition starts :: "('b, 'w, 'k, 'db) program \<Rightarrow> ('b, 'w, 'db) sys \<Rightarrow> bool" where
  "starts P s \<longleftrightarrow> (\<exists>k bc w db. s = sys_start k bc w db \<and> booted P k bc)"

section \<open>The state of the service, seen from outside\<close>

definition gone :: "(string \<Rightarrow> document multiset) \<Rightarrow> document list \<Rightarrow> string \<Rightarrow> document multiset" where
  "gone crashed failed c = crashed c + (if c = ''blockchain'' then mset failed else {#})"

lemma gone_fail: "gone cr (docs @ ls) = (gone cr ls)(''blockchain'' := gone cr ls ''blockchain'' + mset docs)"
  by (auto simp: gone_def fun_eq_iff)

lemma gone_crash: "gone (\<lambda>c. cr c + m c) ls = (\<lambda>c. gone cr ls c + m c)"
  by (auto simp: gone_def fun_eq_iff)

definition view :: "('b, 'w, 'k, 'db) program \<Rightarrow> ('b \<Rightarrow> (string \<times> bytes) list) \<Rightarrow> ('db \<Rightarrow> string \<Rightarrow> row option)
    \<Rightarrow> ('b, 'w, 'db) sys \<Rightarrow> pipeline" where
  "view P blog rows s =
     \<lparr>a_log = log_docs P blog (k_world (s_cache s)), a_seen = h_seen s,
      a_wait = pend_all (s_cache s),
      a_reg = in_registration s, a_closed = h_closed s, a_store = in_storage s, a_put = mset (h_put s),
      a_gone = gone (h_crashed s) (h_lost s),
      a_stored = set (h_stored s),
      a_table = table_of (rows (s_db s))\<rparr>"

lemmas view_unfold = view_def in_registration_def in_storage_def

lemma booted_empty: "booted P k bc \<Longrightarrow> pend_all k c = {#}" "items_docs Map.empty = {#}"
  by (auto simp: booted_def pend_all_init items_docs_def)

section \<open>What every operation keeps\<close>

lemma execute_shared_keeps:
  assumes "honest_chain F decode reg" and "peer_available F bc" and "execute_shared F turns m f args bc w = (bc', w', r)"
  shows "(\<exists>rr. bc' = bc\<lparr>peerBackend := rr\<rparr>) \<and> peer_available F bc' \<and> reg w \<subseteq> reg w'"
proof -
  have "rr_inv (peerBackend bc)" using assms(2) by (simp add: peer_available_def)
  from execute_shared_ring [OF this assms(3)] obtain rr where "bc' = bc\<lparr>peerBackend := rr\<rparr>" "rr_inv rr"
    "set (rr_elems rr) = set (rr_elems (peerBackend bc))" by blast
  moreover have "reg w \<subseteq> reg w'"
    by (rule execute_shared_frame [where Q = "(\<subseteq>)" and obs = reg, OF _ _ _ _ _ assms(3)])
       (simp_all add: honest_frames [OF assms(1)])
  ultimately show ?thesis using assms(2) by (auto simp: peer_available_def)
qed

lemma same_ring: "\<exists>rr. bc = bc\<lparr>peerBackend := rr\<rparr>"
  by (rule exI [of _ "peerBackend bc"]) simp

lemma register_invoke_keeps:
  assumes "honest_chain F decode reg" and "peer_available F bc" and "register_invoke_shared sha F turns docs bc w = (bc', w', r)"
  shows "(\<exists>rr. bc' = bc\<lparr>peerBackend := rr\<rparr>) \<and> peer_available F bc' \<and> reg w \<subseteq> reg w' \<and>
     (\<forall>txid. r = Ret (Some txid) \<longrightarrow> docs \<noteq> [])"
proof (cases "formatDocs sha docs = []")
  case True
  then have "bc' = bc" "w' = w" "r = Ret None"
    using assms(3) by (simp_all add: register_invoke_shared_def)
  then show ?thesis using assms(2) same_ring by auto
next
  case False
  then have "docs \<noteq> []" by (auto simp: formatDocs_def)
  moreover obtain bc1 w1 x where x: "execute_shared F turns ''invoke'' ''register'' [''base'', formatDocs sha docs] bc w = (bc1, w1, x)"
    by (metis prod_cases3)
  moreover have "bc' = bc1" "w' = w1"
    using assms(3) False x by (auto simp: register_invoke_shared_def Let_def split: outcome.splits sum.splits)
  ultimately show ?thesis using execute_shared_keeps [OF assms(1,2) x] by simp
qed

text \<open>
  What the handlers of completion events rely on: a batch they have read was reported by the chain,
  and it is either still recorded and not written, or written under the same key by another one.
\<close>

definition reported :: "('b, 'w, 'k, 'db) program \<Rightarrow> string set \<Rightarrow> document list \<Rightarrow> string \<Rightarrow> bool" where
  "reported P roots docs key \<longleftrightarrow> docs \<noteq> [] \<and> formatDocs (sha256 (p_digests P)) docs \<in> roots \<and>
     key = proofKey (p_digests P) (p_proof P (formatDocs (sha256 (p_digests P)) docs))"

lemma reported_mono: "reported P R docs key \<Longrightarrow> R \<subseteq> R' \<Longrightarrow> reported P R' docs key"
  by (auto simp: reported_def)

lemma reported_key: "reported P R docs key \<Longrightarrow> reported P R docs key' \<Longrightarrow> key' = key"
  by (simp add: reported_def)

definition handlers_ok :: "('b, 'w, 'k, 'db) program \<Rightarrow> string set \<Rightarrow> (string \<times> document list) list \<Rightarrow> items
    \<Rightarrow> (string \<times> document list \<times> string) list \<Rightarrow> string list \<Rightarrow> (string \<times> document list \<times> bool) list
    \<Rightarrow> string set \<Rightarrow> bool" where
  "handlers_ok P R iv its cm dl cl W \<longleftrightarrow>
     distinct (map fst iv) \<and> fst ` set iv \<inter> (dom its \<union> W) = {} \<and> set dl \<subseteq> W \<and>
     (\<forall>(key, docs, ok) \<in> set cl. reported P R docs key) \<and>
     (\<forall>(tx, docs, key) \<in> set cm. reported P R docs key \<and>
        (if tx \<in> W then \<exists>ok. (key, docs, ok) \<in> set cl else its tx = Some (DocSlice docs))) \<and>
     (\<forall>tx \<in> W. \<forall>docs. its tx = Some (DocSlice docs) \<longrightarrow> (\<exists>key ok. (key, docs, ok) \<in> set cl))"

lemma handlers_okI:
  assumes "distinct (map fst iv)" and "fst ` set iv \<inter> (dom its \<union> W) = {}" and "set dl \<subseteq> W"
    and "\<And>key docs ok. (key, docs, ok) \<in> set cl \<Longrightarrow> reported P R docs key"
    and "\<And>tx docs key. (tx, docs, key) \<in> set cm \<Longrightarrow> reported P R docs key"
    and "\<And>tx docs key. (tx, docs, key) \<in> set cm \<Longrightarrow> tx \<in> W \<Longrightarrow> \<exists>ok. (key, docs, ok) \<in> set cl"
    and "\<And>tx docs key. (tx, docs, key) \<in> set cm \<Longrightarrow> tx \<notin> W \<Longrightarrow> its tx = Some (DocSlice docs)"
    and "\<And>tx docs. tx \<in> W \<Longrightarrow> its tx = Some (DocSlice docs) \<Longrightarrow> \<exists>key ok. (key, docs, ok) \<in> set cl"
  shows "handlers_ok P R iv its cm dl cl W"
  using assms(1-3) unfolding handlers_ok_def by (auto intro: assms(4-8))

lemma handlersD:
  assumes "handlers_ok P R iv its cm dl cl W"
  shows "distinct (map fst iv)" and "fst ` set iv \<inter> (dom its \<union> W) = {}" and "set dl \<subseteq> W"
    and "\<And>key docs ok. (key, docs, ok) \<in> set cl \<Longrightarrow> reported P R docs key"
    and "\<And>tx docs key. (tx, docs, key) \<in> set cm \<Longrightarrow> reported P R docs key"
    and "\<And>tx docs key. (tx, docs, key) \<in> set cm \<Longrightarrow> tx \<in> W \<Longrightarrow> \<exists>ok. (key, docs, ok) \<in> set cl"
    and "\<And>tx docs key. (tx, docs, key) \<in> set cm \<Longrightarrow> tx \<notin> W \<Longrightarrow> its tx = Some (DocSlice docs)"
    and "\<And>tx docs. tx \<in> W \<Longrightarrow> its tx = Some (DocSlice docs) \<Longrightarrow> \<exists>key ok. (key, docs, ok) \<in> set cl"
  using assms unfolding handlers_ok_def by (blast, blast, blast, blast, blast, fastforce, fastforce, blast)

lemma handlers_init: "handlers_ok P R [] Map.empty [] [] [] {}"
  by (simp add: handlers_ok_def)

lemma handlers_mono: "handlers_ok P R iv its cm dl cl W \<Longrightarrow> R \<subseteq> R' \<Longrightarrow> handlers_ok P R' iv its cm dl cl W"
  unfolding handlers_ok_def by (fast intro: reported_mono)

lemma handlers_invoke:
  "handlers_ok P R iv its cm dl cl W \<Longrightarrow> tx \<notin> fst ` set iv \<union> dom its \<union> W \<Longrightarrow> handlers_ok P R ((tx, docs) # iv) its cm dl cl W"
  unfolding handlers_ok_def by simp

lemma handlers_record:
  assumes "handlers_ok P R (xs @ (tx, docs) # ys) its cm dl cl W" and "its tx = None"
  shows "handlers_ok P R (xs @ ys) (its(tx \<mapsto> DocSlice docs)) cm dl cl W"
proof -
  note d = handlersD [OF assms(1)]
  have "tx \<notin> W" "tx \<notin> fst ` set (xs @ ys)" using d(1,2) by auto
  show ?thesis
  proof (rule handlers_okI)
    show "distinct (map fst (xs @ ys))" using d(1) by simp
    show "fst ` set (xs @ ys) \<inter> (dom (its(tx \<mapsto> DocSlice docs)) \<union> W) = {}"
      using d(2) \<open>tx \<notin> fst ` set (xs @ ys)\<close> by auto
    show "(its(tx \<mapsto> DocSlice docs)) tx' = Some (DocSlice docs')" if "(tx', docs', key) \<in> set cm" "tx' \<notin> W" for tx' docs' key
      using d(7) [OF that] assms(2) by auto
    show "\<exists>key ok. (key, docs', ok) \<in> set cl" if "tx' \<in> W" "(its(tx \<mapsto> DocSlice docs)) tx' = Some (DocSlice docs')" for tx' docs'
      using d(8) [of tx' docs'] that \<open>tx \<notin> W\<close> by (auto split: if_splits)
  qed (use d(3-6) in blast)+
qed

lemma handlers_begin:
  assumes "handlers_ok P R iv its cm dl cl W" and "its tx = Some (DocSlice docs)" and "reported P R docs key"
  shows "handlers_ok P R iv its ((tx, docs, key) # cm) dl cl W"
proof -
  have "\<exists>ok. (key, docs, ok) \<in> set cl" if w: "tx \<in> W"
  proof -
    obtain key' ok where e: "(key', docs, ok) \<in> set cl" using handlersD(8) [OF assms(1) w assms(2)] by blast
    with reported_key [OF assms(3) handlersD(4) [OF assms(1) e]] show ?thesis by blast
  qed
  with assms show ?thesis unfolding handlers_ok_def by simp
qed

lemma handlers_write:
  assumes "handlers_ok P R iv its (xs @ (tx, docs, key) # ys) dl cl W"
  shows "handlers_ok P R iv its (xs @ ys) (tx # dl) (if tx \<in> W then cl else (key, docs, ok) # cl) (insert tx W)"
proof (cases "tx \<in> W")
  case True
  then show ?thesis using assms unfolding handlers_ok_def by (simp add: insert_absorb)
next
  case False
  note d = handlersD [OF assms]
  have h: "reported P R docs key" "its tx = Some (DocSlice docs)"
    using d(5,7) [of tx docs key] False by simp_all
  have "handlers_ok P R iv its (xs @ ys) (tx # dl) ((key, docs, ok) # cl) (insert tx W)"
  proof (rule handlers_okI)
    show "fst ` set iv \<inter> (dom its \<union> insert tx W) = {}" using d(2) h(2) by auto
    show "\<exists>ok'. (key', docs', ok') \<in> set ((key, docs, ok) # cl)"
      if c: "(tx', docs', key') \<in> set (xs @ ys)" and w: "tx' \<in> insert tx W" for tx' docs' key'
    proof (cases "tx' \<in> W")
      case True
      then show ?thesis using d(6) [of tx' docs' key'] c by auto
    next
      case F: False
      then have "its tx = Some (DocSlice docs')" using d(7) [of tx' docs' key'] c w by auto
      then have "docs' = docs" using h(2) by simp
      moreover have "key' = key" using reported_key [OF h(1)] d(5) [of tx' docs' key'] c \<open>docs' = docs\<close> by auto
      ultimately show ?thesis by auto
    qed
    show "\<exists>key' ok'. (key', docs', ok') \<in> set ((key, docs, ok) # cl)"
      if "tx' \<in> insert tx W" "its tx' = Some (DocSlice docs')" for tx' docs'
      using d(8) [of tx' docs'] that h(2) by (cases "tx' = tx") auto
    show "its tx' = Some (DocSlice docs')" if "(tx', docs', key') \<in> set (xs @ ys)" "tx' \<notin> insert tx W" for tx' docs' key'
      using d(7) [of tx' docs' key'] that by auto
    show "reported P R docs' key'" if "(key', docs', ok') \<in> set ((key, docs, ok) # cl)" for key' docs' ok'
      using d(4) [of key' docs' ok'] that h(1) by auto
    show "reported P R docs' key'" if "(tx', docs', key') \<in> set (xs @ ys)" for tx' docs' key'
      using d(5) [of tx' docs' key'] that by auto
  qed (use d(1,3) in auto)
  with False show ?thesis by simp
qed

lemma handlers_delete:
  assumes "handlers_ok P R iv its cm (xs @ tx # ys) cl W"
  shows "handlers_ok P R iv (its(tx := None)) cm (xs @ ys) cl W"
proof -
  note d = handlersD [OF assms]
  show ?thesis
  proof (rule handlers_okI)
    show "(its(tx := None)) tx' = Some (DocSlice docs)" if "(tx', docs, key) \<in> set cm" "tx' \<notin> W" for tx' docs key
      using d(3) d(7) [OF that] that(2) by auto
    show "\<exists>key ok. (key, docs, ok) \<in> set cl" if "tx' \<in> W" "(its(tx := None)) tx' = Some (DocSlice docs)" for tx' docs
      using d(8) [of tx' docs] that by (auto split: if_splits)
  qed (use d(1-6) in auto)
qed

lemma handlers_restart: "handlers_ok P R iv its cm dl cl W \<Longrightarrow> handlers_ok P R [] Map.empty [] [] cl W"
  unfolding handlers_ok_def by simp

definition sinv :: "('b, 'w, 'k, 'db) program \<Rightarrow> ('w \<Rightarrow> string set) \<Rightarrow> ('b, 'w, 'db) sys \<Rightarrow> bool" where
  "sinv P reg s \<longleftrightarrow> reachable (p_pconfig P) (s_persist s) \<and> bc_name (s_bc s) = ''blockchain'' \<and>
     peer_available (p_fabric P) (s_bc s) \<and> kafka_wf (p_periods P) (s_cache s) \<and>
     finite (dom (bc_items (s_bc s))) \<and>
     (\<forall>v \<in> ran (bc_items (s_bc s)). \<exists>ds. v = DocSlice ds \<and> ds \<noteq> []) \<and>
     (\<forall>x \<in> set (s_invoked s). snd x \<noteq> []) \<and>
     handlers_ok P (reg (s_world s)) (s_invoked s) (bc_items (s_bc s)) (s_completing s) (s_deleting s)
       (h_closed s) (h_written s)"

lemma sinvD:
  assumes "sinv P reg s"
  shows "reachable (p_pconfig P) (s_persist s)" and "bc_name (s_bc s) = ''blockchain''"
    and "peer_available (p_fabric P) (s_bc s)" and "kafka_wf (p_periods P) (s_cache s)"
    and "finite (dom (bc_items (s_bc s)))" and "\<And>v. v \<in> ran (bc_items (s_bc s)) \<Longrightarrow> \<exists>ds. v = DocSlice ds \<and> ds \<noteq> []"
    and "\<And>x. x \<in> set (s_invoked s) \<Longrightarrow> snd x \<noteq> []"
    and "handlers_ok P (reg (s_world s)) (s_invoked s) (bc_items (s_bc s)) (s_completing s) (s_deleting s)
       (h_closed s) (h_written s)"
  using assms unfolding sinv_def by blast+

lemma closed_reported:
  assumes "sinv P reg s" and "(key, docs, ok) \<in> set (h_closed s)"
  shows "reported P (reg (s_world s)) docs key"
  using sinvD(8) [OF assms(1)] assms(2) unfolding handlers_ok_def by blast

text \<open>The handler's items after a record and after a completion.\<close>

lemma register_record_Ret:
  assumes "register_record txid docs bc = (bc', Ret b)" and "\<And>v. v \<in> ran (bc_items bc) \<Longrightarrow> \<exists>ds. v = DocSlice ds"
  shows "bc_items bc txid = None \<and> bc' = bc\<lparr>bc_items := (bc_items bc)(txid \<mapsto> DocSlice docs)\<rparr>"
  using assms by (cases "bc_items bc txid") (force simp: register_record_def items_Set_def intro: ranI)+

lemma submitRaw_cache:
  "submitRaw pd limits put req c = (c', r) \<Longrightarrow> c' = c \<or> (\<exists>app raw meta w. c' = fst (put app raw meta w c))"
  by (auto simp: submitRaw_def Let_def split: sum.splits if_splits prod.splits outcome.splits) (metis fst_conv)+

lemma Get_no_error: "KafkaCache.Get periods u cu topic n k \<noteq> (k', Ret (Inl e))"
proof (cases "construct_chan periods topic cu k")
  case (Ret k1)
  obtain m ch where "k_chans k1 topic = Some m" "m cu = Some ch"
    using construct_chan_of(2) [OF Ret] by auto
  then show ?thesis by (simp add: KafkaCache.Get_def Ret Let_def split: prod.splits)
qed (simp_all add: KafkaCache.Get_def)

lemma getDocsFromCache_Get:
  "getDocsFromCache (KafkaCache.Get periods) KafkaCache.Topic u bc p k = (k', Ret docs) \<Longrightarrow>
     KafkaCache.Get periods u (bc_name bc) (KafkaCache.Topic (Period p)) (Limit p) k = (k', Ret (Inr docs))"
  by (auto simp: getDocsFromCache_def Get_no_error split: prod.splits outcome.splits sum.splits)

lemma fetch_documents_Get:
  assumes "fetch_documents (KafkaCache.Subscribe K) (KafkaCache.Get periods) KafkaCache.Topic u p k = (k', Ret ds)"
  obtains k1 where "fst (KafkaCache.Subscribe K ''persister'' (KafkaCache.Topic (Period p)) k) = k1"
    and "KafkaCache.Get periods u ''persister'' (KafkaCache.Topic (Period p)) (Limit p) k1 = (k', Ret (Inr ds))"
  using assms
  by (auto simp: fetch_documents_def Let_def Get_no_error split: prod.splits bool.splits outcome.splits sum.splits)

section \<open>The invariant\<close>

lemma submit_frame:
  assumes "submitRaw pd limits (KafkaCache.Put K D now) req k = (k', r)"
  shows "k_chans k' = k_chans k \<and> k_topics k' = k_topics k"
proof -
  consider "k' = k" | app raw meta w where "k' = fst (KafkaCache.Put K D now app raw meta w k)"
    using submitRaw_cache [OF assms] by blast
  then show ?thesis
  proof cases
    case 2
    then show ?thesis using Put_frame by (metis prod.collapse)
  qed simp
qed

lemma sinv_start: "starts P s \<Longrightarrow> sinv P reg s"
  by (auto simp: starts_def booted_def sinv_def sys_start_def kafka_wf_init reachable.start handlers_init)

lemma sinv_tick_invoke:
  assumes "honest_chain (p_fabric P) (p_decode P) reg" and "sinv P reg s"
    and tick_invoke: "s_taken s = xs @ docs # ys"
    "register_invoke_shared (sha256 (p_digests P)) (p_fabric P) turns docs (s_bc s) (s_world s) = (bc, w, Ret (Some txid))"
    "txid \<notin> fst ` set (s_invoked s) \<union> dom (bc_items (s_bc s)) \<union> h_written s"
  shows "sinv P reg (s\<lparr>s_bc := bc, s_world := w, s_taken := xs @ ys, s_invoked := (txid, docs) # s_invoked s\<rparr>)"
proof -
  note k = register_invoke_keeps [OF assms(1) sinvD(3) [OF assms(2)] tick_invoke(2)]
  then have "handlers_ok P (reg w) ((txid, docs) # s_invoked s) (bc_items (s_bc s)) (s_completing s) (s_deleting s)
      (h_closed s) (h_written s)"
    using handlers_invoke [OF handlers_mono [OF sinvD(8) [OF assms(2)]] tick_invoke(3)] by blast
  with k show ?thesis using assms(2) by (auto simp: sinv_def)
qed

lemma sinv_tick_record:
  assumes "sinv P reg s"
    and tick_record: "s_invoked s = xs @ (txid, docs) # ys"
    "register_record txid docs (s_bc s) = (bc, Ret b)"
  shows "sinv P reg (s\<lparr>s_bc := bc, s_invoked := xs @ ys\<rparr>)"
proof -
  have "docs \<noteq> []" using sinvD(7) [OF assms(1), of "(txid, docs)"] tick_record(1) by simp
  moreover have "bc = (s_bc s)\<lparr>bc_items := (bc_items (s_bc s))(txid \<mapsto> DocSlice docs)\<rparr>" "bc_items (s_bc s) txid = None"
    using register_record_Ret [OF tick_record(2)] sinvD(6) [OF assms(1)] by blast+
  moreover have "handlers_ok P (reg (s_world s)) (xs @ ys) ((bc_items (s_bc s))(txid \<mapsto> DocSlice docs)) (s_completing s)
      (s_deleting s) (h_closed s) (h_written s)"
    by (rule handlers_record [OF sinvD(8) [OF assms(1), unfolded tick_record(1)]]) fact
  ultimately show ?thesis
    using assms(1) by (auto simp: sinv_def tick_record peer_available_def)
qed

lemma sinv_persist_fetch:
  assumes "sinv P reg s"
    and persist_fetch: "getters (s_persist s) = Suc n"
    "fetch_documents (KafkaCache.Subscribe (p_kafka P)) (KafkaCache.Get (p_periods P)) KafkaCache.Topic () period (s_cache s) = (c, Ret ds)"
  shows "sinv P reg (s\<lparr>s_cache := c, s_persist := (s_persist s)\<lparr>getters := n, outboxes := outboxes (s_persist s) @ [ds], fetched := fetched (s_persist s) + mset ds\<rparr>\<rparr>)"
proof -
  obtain k1 where k1: "fst (KafkaCache.Subscribe (p_kafka P) ''persister'' (KafkaCache.Topic (Period period)) (s_cache s)) = k1"
    "KafkaCache.Get (p_periods P) () ''persister'' (KafkaCache.Topic (Period period)) (Limit period) k1 = (c, Ret (Inr ds))"
    by (rule fetch_documents_Get [OF persist_fetch(2)])
  then have "kafka_wf (p_periods P) k1"
    using frame_pend_all(2) [OF Subscribe_frame] sinvD(4) [OF assms(1)] by (metis prod.collapse)
  then have "kafka_wf (p_periods P) c" by (rule Get_pend_all(2) [OF _ k1(2)])
  moreover note reachable.step [OF sinvD(1) [OF assms(1)] pstep.fetch_get [OF persist_fetch(1)]]
  ultimately show ?thesis using assms(1) by (simp add: sinv_def persist_fetch)
qed

lemma sinv_complete_begin:
  assumes "sinv P reg s"
    and complete_begin: "completed_begin (p_digests P) (p_results P) e (s_bc s) = Inr (docs, key)"
    "\<And>results. p_results P (ev_Payload e) = Inr results \<Longrightarrow> dom results \<subseteq> reg (s_world s) \<and> (\<forall>root h. results root = Some h \<longrightarrow> h = p_proof P root)"
  shows "sinv P reg (s\<lparr>s_completing := (ev_TxID e, docs, key) # s_completing s\<rparr>)"
proof -
  from completed_begin_Inr [OF complete_begin(1)] obtain results h where r: "bc_items (s_bc s) (ev_TxID e) = Some (DocSlice docs)"
    "p_results P (ev_Payload e) = Inr results" "results (formatDocs (sha256 (p_digests P)) docs) = Some h"
    "key = proofKey (p_digests P) h" .
  have "docs \<noteq> []" using sinvD(6) [OF assms(1), of "DocSlice docs"] r(1) by (auto intro: ranI)
  then have "reported P (reg (s_world s)) docs key"
    using complete_begin(2) [OF r(2)] r(3,4) by (auto simp: reported_def)
  from handlers_begin [OF sinvD(8) [OF assms(1)] r(1) this] show ?thesis
    using assms(1) by (simp add: sinv_def)
qed

lemma sinv_complete_delete:
  assumes "sinv P reg s"
    and complete_delete: "s_deleting s = xs @ txid # ys"
  shows "sinv P reg (s\<lparr>s_bc := completed_delete txid (s_bc s), s_deleting := xs @ ys\<rparr>)"
proof -
  have "handlers_ok P (reg (s_world s)) (s_invoked s) ((bc_items (s_bc s))(txid := None)) (s_completing s) (xs @ ys)
      (h_closed s) (h_written s)"
    by (rule handlers_delete [OF sinvD(8) [OF assms(1), unfolded complete_delete]])
  moreover have "finite (dom ((bc_items (s_bc s))(txid := None)))" "ran ((bc_items (s_bc s))(txid := None)) \<subseteq> ran (bc_items (s_bc s))"
    using sinvD(5) [OF assms(1)] by (auto simp: ran_def)
  ultimately show ?thesis
    using assms(1) unfolding sinv_def
    by (auto simp: completed_delete_def items_Delete_def peer_available_def)
qed

lemma sinv_restart:
  assumes "sinv P reg s"
    and restart: "booted P k bc"
    "blog (k_world k) = blog (k_world (s_cache s))"
  shows "sinv P reg (s\<lparr>s_cache := k, s_bc := bc, s_persist := p_init, s_taken := [], s_invoked := [], s_completing := [], s_deleting := [], h_crashed := (\<lambda>c. h_crashed s c + in_memory s c)\<rparr>)"
proof -
  have "kafka_wf (p_periods P) k" using restart(1) kafka_wf_init by (auto simp: booted_def)
  then show ?thesis
    using restart(1) handlers_restart [OF sinvD(8) [OF assms(1)]] by (simp add: booted_def sinv_def reachable.start)
qed

lemma sinv_step:
  assumes "honest_chain (p_fabric P) (p_decode P) reg" and "sinv P reg s" and "sstep P reg blog s t"
  shows "sinv P reg t"
  using assms(3)
proof (cases rule: sstep.cases)
  case (submit pd now req c resp)
  then show ?thesis
    using assms(2) frame_pend_all(2) [OF submit_frame [OF submit(2)], of "p_periods P"] by (simp add: sinv_def)
next
  case (subscribe cu topic c b)
  then show ?thesis
    using assms(2) frame_pend_all(2) [OF Subscribe_frame [OF subscribe(2)], of "p_periods P"] by (simp add: sinv_def)
next
  case (deliver i topic msg cu c acked)
  then show ?thesis
    using assms(2) deliver_pend_all(2) [OF sinvD(4) [OF assms(2)] deliver(4)] by (simp add: sinv_def)
next
  case (tick_take period c docs)
  then show ?thesis
    using assms(2) Get_pend_all(2) [OF sinvD(4) [OF assms(2)] getDocsFromCache_Get [OF tick_take(2)]]
    by (simp add: sinv_def)
next
  case (tick_invoke xs docs ys turns bc w txid)
  from sinv_tick_invoke [OF assms(1,2) tick_invoke(2-4)] show ?thesis unfolding tick_invoke(1) .
next
  case (tick_fail xs docs ys turns bc w)
  with register_invoke_keeps [OF assms(1) sinvD(3) [OF assms(2)] tick_fail(3)]
  show ?thesis using assms(2) by (auto simp: sinv_def intro: handlers_mono)
next
  case (tick_record xs txid docs ys bc b)
  from sinv_tick_record [OF assms(2) tick_record(2-3)] show ?thesis unfolding tick_record(1) .
next
  case (persist_move p)
  then show ?thesis using assms(2) reachable.step by (auto simp: sinv_def)
next
  case (persist_fetch n period c ds)
  from sinv_persist_fetch [OF assms(2) persist_fetch(2-3)] show ?thesis unfolding persist_fetch(1) .
next
  case (persist_write xs b ys db er)
  with reachable.step [OF sinvD(1) [OF assms(2)] pstep.worker_done [OF persist_write(2)]]
  show ?thesis using assms(2) by (simp add: sinv_def)
next
  case (complete_begin e docs key)
  from sinv_complete_begin [OF assms(2) complete_begin(2-3)] show ?thesis unfolding complete_begin(1) .
next
  case (complete_write xs txid docs key ys db now ok)
  from handlers_write [OF sinvD(8) [OF assms(2), unfolded complete_write(2)]] show ?thesis
    using assms(2) by (simp add: sinv_def complete_write(1))
next
  case (complete_delete xs txid ys)
  from sinv_complete_delete [OF assms(2) complete_delete(2)] show ?thesis unfolding complete_delete(1) .
next
  case (verify turns root bc w v)
  with execute_shared_keeps [OF assms(1) sinvD(3) [OF assms(2)] verify(2)]
  show ?thesis using assms(2) by (auto simp: sinv_def intro: handlers_mono)
next
  case (sign i sg db er)
  then show ?thesis using assms(2) by (simp add: sinv_def)
next
  case (chain_moves w)
  then show ?thesis using assms(2) by (auto simp: sinv_def intro: handlers_mono)
next
  case (restart k bc)
  from sinv_restart [OF assms(2) restart(2-3)] show ?thesis unfolding restart(1) .
qed

section \<open>The program refines the pipeline\<close>

lemma items_docs_record:
  assumes "finite (dom its)" and "its txid = None"
  shows "items_docs (its(txid \<mapsto> DocSlice ds)) = mset ds + items_docs its"
proof -
  have "(\<Sum>tx \<in> dom its. case (its(txid \<mapsto> DocSlice ds)) tx of Some (DocSlice ds) \<Rightarrow> mset ds | _ \<Rightarrow> {#}) = items_docs its"
    unfolding items_docs_def by (rule sum.cong) (use assms(2) in auto)
  moreover have "txid \<notin> dom its" using assms(2) by auto
  ultimately show ?thesis using assms(1) by (simp add: items_docs_def)
qed

lemma items_docs_delete:
  assumes "finite (dom its)" and "its txid = Some (DocSlice ds)"
  shows "items_docs its = mset ds + items_docs (its(txid := None))"
proof -
  have "items_docs ((its(txid := None))(txid \<mapsto> DocSlice ds)) = mset ds + items_docs (its(txid := None))"
    by (rule items_docs_record) (use assms(1) in auto)
  moreover have "(its(txid := None))(txid \<mapsto> DocSlice ds) = its" using assms(2) by auto
  ultimately show ?thesis by simp
qed

lemma items_docs_unwritten:
  assumes "finite (dom its)" and "its txid = None" and "txid \<notin> W"
  shows "items_docs (its(txid \<mapsto> DocSlice ds) |` (- W)) = mset ds + items_docs (its |` (- W))"
proof -
  have "its(txid \<mapsto> DocSlice ds) |` (- W) = (its |` (- W))(txid \<mapsto> DocSlice ds)"
    using assms(3) by (auto simp: restrict_map_def fun_eq_iff)
  then show ?thesis using items_docs_record [of "its |` (- W)" txid] assms by simp
qed

lemma items_docs_write:
  assumes "finite (dom its)" and "its txid = Some (DocSlice ds)" and "txid \<notin> W"
  shows "items_docs (its |` (- W)) = mset ds + items_docs (its |` (- insert txid W))"
proof -
  have "its |` (- insert txid W) = (its |` (- W))(txid := None)"
    by (auto simp: restrict_map_def fun_eq_iff)
  then show ?thesis using items_docs_delete [of "its |` (- W)" txid] assms by simp
qed

lemma tick_record_fresh: "sinv P reg s \<Longrightarrow> s_invoked s = xs @ (txid, docs) # ys \<Longrightarrow> txid \<notin> h_written s"
  by (drule sinvD(8)) (simp add: handlers_ok_def)

lemma Put_log:
  assumes "broker_log K blog" and "KafkaCache.Put K D now app raw meta w k = (k', r)"
  shows "blog (k_world k') = blog (k_world k) \<or> (\<exists>x. blog (k_world k') = blog (k_world k) @ [x])"
proof (cases "marshal K (new_doc D now app raw meta w)")
  case (Inl e)
  then show ?thesis using assms(2) by (simp add: KafkaCache.Put_def Let_def)
next
  case (Inr m)
  obtain b' e where b: "SendMessage K (KafkaCache.Topic w) m (k_world k) = (b', e)" by (metis prod.collapse)
  then have "k_world k' = b'"
    using assms(2) Inr by (auto simp: KafkaCache.Put_def Let_def split: option.splits if_splits)
  moreover have "blog b' = blog (k_world k) \<or> blog b' = blog (k_world k) @ [(KafkaCache.Topic w, m)]"
    using assms(1) b unfolding broker_log_def by (cases e) blast+
  ultimately show ?thesis by blast
qed

lemma submit_log:
  assumes "broker_log K blog" and "submitRaw pd limits (KafkaCache.Put K D now) req k = (k', r)"
  shows "blog (k_world k') = blog (k_world k) \<or> (\<exists>x. blog (k_world k') = blog (k_world k) @ [x])"
proof -
  consider "k' = k" | app raw meta w where "k' = fst (KafkaCache.Put K D now app raw meta w k)"
    using submitRaw_cache [OF assms(2)] by blast
  then show ?thesis
  proof cases
    case 2
    then show ?thesis using Put_log [OF assms(1)] by (metis prod.collapse)
  qed simp
qed

lemma Subscribe_log:
  assumes "broker_log K blog" and "KafkaCache.Subscribe K cu topic k = (k', b)"
  shows "blog (k_world k') = blog (k_world k)"
proof -
  have law: "\<And>bs n ts cfg b. blog (fst (NewConsumer K bs n ts cfg b)) = blog b"
    using assms(1) unfolding broker_log_def by blast
  show ?thesis
    using assms(2) law [of "k_brokers k" cu "k_topics k" "k_config k" "k_world k"]
    by (auto simp: KafkaCache.Subscribe_def split: if_splits prod.splits option.splits)
qed

lemma log_docs_append: "blog b' = blog b @ [x] \<Longrightarrow> log_docs P blog b' = log_docs P blog b @ [projr (unmarshal (p_kafka P) (snd x))]"
  by (simp add: log_docs_def)

text \<open>The environment's good behaviour at the end of a step was there before it.\<close>

lemma view_log: "a_log (view P blog rows s) = log_docs P blog (k_world (s_cache s))"
  and view_seen: "a_seen (view P blog rows s) = h_seen s"
  and view_closed: "a_closed (view P blog rows s) = h_closed s"
  and view_stored: "a_stored (view P blog rows s) = set (h_stored s)"
  and view_table: "a_table (view P blog rows s) = table_of (rows (s_db s))"
  by (simp_all add: view_unfold)

lemma written_fetched:
  assumes "sinv P reg s"
  shows "mset (concat (written (s_persist s))) + mset (concat (inflight (s_persist s))) \<subseteq># fetched (s_persist s)"
  unfolding conservation [OF sinvD(1) [OF assms]] by (simp add: ac_simps)

lemma take_reg_view:
  assumes "kafka_wf (p_periods P) (s_cache s)"
    and "KafkaCache.Get (p_periods P) () ''blockchain'' topic n (s_cache s) = (c, Ret (Inr ds))"
  shows "astep Q (view P blog rows s) (view P blog rows (s\<lparr>s_cache := c, s_taken := ds # s_taken s\<rparr>))"
proof -
  let ?a = "view P blog rows s"
  note g = Get_pend_all(1) [OF assms]
  have "a_wait ?a ''blockchain'' = pend_all c ''blockchain'' + mset ds" using g by (simp add: view_unfold)
  then have "mset ds \<subseteq># a_wait ?a ''blockchain''" by simp
  from astep.take_reg [OF this] show ?thesis
    by (rule back_subst) (use g Get_frame [OF assms(2)] in \<open>auto simp: view_unfold fun_eq_iff\<close>)
qed

lemma take_store_view:
  assumes "kafka_wf (p_periods P) k" and "\<And>cu. pend_all k cu = pend_all (s_cache s) cu"
    and "blog (k_world k) = blog (k_world (s_cache s))"
    and "KafkaCache.Get (p_periods P) () ''persister'' topic n k = (c, Ret (Inr ds))"
    and "mset (concat (written (s_persist s))) \<subseteq># fetched (s_persist s)"
  shows "astep Q (view P blog rows s) (view P blog rows (s\<lparr>s_cache := c, s_persist := (s_persist s)\<lparr>getters := n',
        outboxes := outboxes (s_persist s) @ [ds], fetched := fetched (s_persist s) + mset ds\<rparr>\<rparr>))"
proof -
  let ?a = "view P blog rows s"
  note g = Get_pend_all(1) [OF assms(1,4)]
  have "a_wait ?a ''persister'' = pend_all c ''persister'' + mset ds" using g assms(2) by (simp add: view_unfold)
  then have "mset ds \<subseteq># a_wait ?a ''persister''" by simp
  from astep.take_store [OF this] show ?thesis
    by (rule back_subst)
       (use g assms(2,3,5) Get_frame [OF assms(4)] in \<open>auto simp: view_unfold fun_eq_iff log_docs_def subset_mset.add_diff_assoc2\<close>)
qed

lemma complete_write_view:
  assumes "effective_store (p_session P) rows Q" and "sinv P reg s"
    and cm: "s_completing s = xs @ (txid, docs, key) # ys"
    and db: "db = completed_write (cassandra_persister (p_session P)) now docs key txid (s_db s)"
    and ok: "ok = (snd (cas_SetDocsBlockDigest (p_session P) now (map Id docs) key txid (s_db s)) = None)"
  shows "astep Q (view P blog rows s) (view P blog rows (s\<lparr>s_db := db, s_completing := xs @ ys, s_deleting := txid # s_deleting s,
        h_closed := (if txid \<in> h_written s then h_closed s else (key, docs, ok) # h_closed s),
        h_written := insert txid (h_written s)\<rparr>))"
proof -
  let ?a = "view P blog rows s"
  have h: "handlers_ok P (reg (s_world s)) (s_invoked s) (bc_items (s_bc s)) (xs @ (txid, docs, key) # ys) (s_deleting s)
      (h_closed s) (h_written s)"
    using sinvD(8) [OF assms(2)] by (simp add: cm)
  have tab: "Q docs \<longrightarrow> table_of (rows db) \<in> effect ok (fold (prove_row now key txid) (map Id docs)) (a_table ?a)"
    using effective_store.prove_done [OF assms(1), of docs] by (simp add: db ok completed_write_def cassandra_persister_def view_unfold)
  show ?thesis
  proof (cases "txid \<in> h_written s")
    case True
    then obtain ok' where c: "(key, docs, ok') \<in> set (a_closed ?a)"
      using h unfolding handlers_ok_def view_closed by auto
    from astep.rewrite [where Q = Q, OF c tab] show ?thesis
      by (rule back_subst) (use True in \<open>simp add: view_unfold insert_absorb\<close>)
  next
    case False
    then have i: "bc_items (s_bc s) txid = Some (DocSlice docs)" using h unfolding handlers_ok_def by auto
    note items = items_docs_write [OF sinvD(5) [OF assms(2)] i False]
    then have docs: "mset docs \<subseteq># a_reg ?a" by (simp add: view_unfold subset_mset.add_increasing2)
    from astep.close [where Q = Q, OF docs tab] show ?thesis
      by (rule back_subst) (use items False in \<open>simp add: view_unfold ac_simps\<close>)
  qed
qed

lemma persist_write_view:
  assumes "effective_store (p_session P) rows Q" and "sinv P reg s"
    and fl: "inflight (s_persist s) = xs @ b # ys" and db: "cas_PutDocsIntoDB (p_session P) b (s_db s) = (db, er)"
  shows "astep Q (view P blog rows s) (view P blog rows (s\<lparr>s_db := db, s_persist := (s_persist s)\<lparr>inflight := xs @ ys,
        busy := busy (s_persist s) - 1, written := written (s_persist s) @ [b]\<rparr>, h_put := b @ h_put s,
        h_stored := (if snd (ExecuteBatch (p_session P) (map put_statement b) (s_db s)) = None
                     then b @ h_stored s else h_stored s)\<rparr>))"
proof -
  let ?a = "view P blog rows s" and ?w = "mset (concat (written (s_persist s)))"
  have "?w + mset b \<subseteq># fetched (s_persist s)"
    using written_fetched [OF assms(2)] by (rule subset_mset.order_trans [rotated]) (simp add: fl)
  then have b: "mset b \<subseteq># a_store ?a" and rest: "fetched (s_persist s) - (?w + mset b) = a_store ?a - mset b"
    by (auto simp: view_unfold subset_mset.le_diff_conv2 subset_mset.add_diff_inverse subset_mset.le_add_diff ac_simps
        mset_subset_eq_exists_conv)
  have "Q b \<longrightarrow> table_of (rows db) \<in> effect (snd (ExecuteBatch (p_session P) (map put_statement b) (s_db s)) = None)
      (fold put_row b) (a_table ?a)"
    using effective_store.put_done [OF assms(1), of b "s_db s"] db by (simp add: view_unfold)
  from astep.put [where Q = Q, OF b this] show ?thesis
    by (rule back_subst) (use rest in \<open>auto simp: view_unfold\<close>)
qed

lemma restart_view:
  assumes "booted P k bc" and "blog (k_world k) = blog (k_world (s_cache s))"
  shows "astep Q (view P blog rows s) (view P blog rows (s\<lparr>s_cache := k, s_bc := bc, s_persist := p_init, s_taken := [],
        s_invoked := [], s_completing := [], s_deleting := [], h_crashed := (\<lambda>c. h_crashed s c + in_memory s c)\<rparr>))"
proof -
  let ?a = "view P blog rows s"
  have bc: "bc_items bc = Map.empty" using assms(1) by (simp add: booted_def)
  have "astep Q ?a (?a\<lparr>a_wait := (\<lambda>_. {#}), a_reg := {#}, a_store := {#}, a_gone := (\<lambda>c. a_gone ?a c + a_wait ?a c +
      (if c = ''blockchain'' then a_reg ?a else if c = ''persister'' then a_store ?a else {#}))\<rparr>)"
    by (rule astep.crash)
  then show ?thesis
    by (rule back_subst)
       (simp add: assms(2) view_def in_memory_def gone_crash in_registration_def in_storage_def log_docs_def
          bc booted_empty(1) [OF assms(1)] booted_empty(2) p_init_def fun_eq_iff ac_simps)
qed

text \<open>One step of the program is one event of the pipeline, or none.\<close>

abbreviation simulates :: "(document list \<Rightarrow> bool) \<Rightarrow> ('b, 'w, 'k, 'db) program \<Rightarrow> ('b \<Rightarrow> (string \<times> bytes) list) \<Rightarrow> ('db \<Rightarrow> string \<Rightarrow> row option)
    \<Rightarrow> ('b, 'w, 'db) sys \<Rightarrow> ('b, 'w, 'db) sys \<Rightarrow> bool" where
  "simulates Q P blog rows s t \<equiv>
     view P blog rows t = view P blog rows s \<or> astep Q (view P blog rows s) (view P blog rows t)"

lemma view_submit:
  assumes "broker_log (p_kafka P) blog"
    and submit: "submitRaw pd (p_periods P) (KafkaCache.Put (p_kafka P) (p_digests P) now) req (s_cache s) = (c, Ret resp)"
  shows "simulates Q P blog rows s (s\<lparr>s_cache := c\<rparr>)" (is "simulates _ _ _ _ _ ?t")
proof -
  note fr = frame_pend_all(1) [OF submit_frame [OF submit]]
  from submit_log [OF assms(1) submit] show ?thesis
  proof
    assume "blog (k_world c) = blog (k_world (s_cache s))"
    then have "view P blog rows ?t = view P blog rows s"
      using fr by (simp add: view_unfold log_docs_def fun_eq_iff)
    then show ?thesis ..
  next
    assume "\<exists>x. blog (k_world c) = blog (k_world (s_cache s)) @ [x]"
    then obtain x where x: "blog (k_world c) = blog (k_world (s_cache s)) @ [x]" ..
    from astep.submit [of Q "view P blog rows s" "projr (unmarshal (p_kafka P) (snd x))"]
    have "astep Q (view P blog rows s) (view P blog rows ?t)"
      by (rule back_subst) (use fr x in \<open>simp add: view_unfold log_docs_def fun_eq_iff\<close>)
    then show ?thesis ..
  qed
qed

lemma view_deliver:
  assumes "sinv P reg s"
    and deliver: "i < length (blog (k_world (s_cache s)))"
    "blog (k_world (s_cache s)) ! i = (topic, msg)"
    "deliver (p_kafka P) (p_periods P) cu topic msg (s_cache s) = Ret (c, acked)"
  shows "simulates Q P blog rows s (s\<lparr>s_cache := c, h_seen := (if acked then (cu, i) # h_seen s else h_seen s)\<rparr>)" (is "simulates _ _ _ _ _ ?t")
proof -
  note d = deliver_pend_all [OF sinvD(4) [OF assms(1)] deliver(3)]
  show ?thesis
  proof (cases acked)
    case True
    have "i < length (a_log (view P blog rows s))" using deliver(1) by (simp add: view_unfold log_docs_def)
    from astep.deliver [OF this, where c = cu] have "astep Q (view P blog rows s) (view P blog rows ?t)"
      by (rule back_subst)
         (use d deliver(1,2) True in \<open>simp add: view_unfold log_docs_def fun_eq_iff\<close>)
    then show ?thesis ..
  next
    case False
    then have "view P blog rows ?t = view P blog rows s"
      using d by (simp add: view_unfold log_docs_def fun_eq_iff)
    then show ?thesis ..
  qed
qed

lemma view_tick_fail:
  assumes tick_fail: "s_taken s = xs @ docs # ys"
    "register_invoke_shared (sha256 (p_digests P)) (p_fabric P) turns docs (s_bc s) (s_world s) = (bc, w, Ret None)"
  shows "simulates Q P blog rows s (s\<lparr>s_bc := bc, s_world := w, s_taken := xs @ ys, h_lost := docs @ h_lost s\<rparr>)" (is "simulates _ _ _ _ _ ?t")
proof -
  have "bc_items bc = bc_items (s_bc s)" by (rule register_invoke_shared_items [OF tick_fail(2)])
  moreover have "mset docs \<subseteq># a_reg (view P blog rows s)"
    by (simp add: view_unfold tick_fail(1) subset_mset.add_increasing2)
  from astep.lose [OF this] have "astep Q (view P blog rows s) (view P blog rows ?t)"
    by (rule back_subst) (use calculation in \<open>simp add: tick_fail(1) view_unfold gone_fail ac_simps\<close>)
  then show ?thesis ..
qed

lemma view_tick_record:
  assumes "sinv P reg s"
    and tick_record: "s_invoked s = xs @ (txid, docs) # ys"
    "register_record txid docs (s_bc s) = (bc, Ret b)"
  shows "simulates Q P blog rows s (s\<lparr>s_bc := bc, s_invoked := xs @ ys\<rparr>)" (is "simulates _ _ _ _ _ ?t")
proof -
  have "bc = (s_bc s)\<lparr>bc_items := (bc_items (s_bc s))(txid \<mapsto> DocSlice docs)\<rparr>" "bc_items (s_bc s) txid = None"
    using register_record_Ret [OF tick_record(2)] sinvD(6) [OF assms(1)] by blast+
  then have "view P blog rows ?t = view P blog rows s"
    using items_docs_unwritten [OF sinvD(5) [OF assms(1)] _ tick_record_fresh [OF assms(1) tick_record(1)]]
    by (simp add: tick_record(1) view_unfold ac_simps)
  then show ?thesis ..
qed

lemma view_persist_fetch:
  assumes "broker_log (p_kafka P) blog" and "sinv P reg s"
    and persist_fetch: "getters (s_persist s) = Suc n"
    "fetch_documents (KafkaCache.Subscribe (p_kafka P)) (KafkaCache.Get (p_periods P)) KafkaCache.Topic () period (s_cache s) = (c, Ret ds)"
  shows "simulates Q P blog rows s (s\<lparr>s_cache := c, s_persist := (s_persist s)\<lparr>getters := n, outboxes := outboxes (s_persist s) @ [ds], fetched := fetched (s_persist s) + mset ds\<rparr>\<rparr>)" (is "simulates _ _ _ _ _ ?t")
proof -
  obtain k1 where k1: "fst (KafkaCache.Subscribe (p_kafka P) ''persister'' (KafkaCache.Topic (Period period)) (s_cache s)) = k1"
    "KafkaCache.Get (p_periods P) () ''persister'' (KafkaCache.Topic (Period period)) (Limit period) k1 = (c, Ret (Inr ds))"
    by (rule fetch_documents_Get [OF persist_fetch(2)])
  then obtain b where sub: "KafkaCache.Subscribe (p_kafka P) ''persister'' (KafkaCache.Topic (Period period)) (s_cache s) = (k1, b)"
    by (metis prod.collapse)
  have "astep Q (view P blog rows s) (view P blog rows ?t)"
  proof (rule take_store_view [OF _ _ Subscribe_log [OF assms(1) sub] k1(2)])
    show "kafka_wf (p_periods P) k1" "pend_all k1 cu = pend_all (s_cache s) cu" for cu
      using frame_pend_all [OF Subscribe_frame [OF sub]] sinvD(4) [OF assms(2)] by auto
    show "mset (concat (written (s_persist s))) \<subseteq># fetched (s_persist s)"
      using written_fetched [OF assms(2)] by (rule subset_mset.order_trans [rotated]) simp
  qed
  then show ?thesis ..
qed

lemma view_complete_delete:
  assumes "sinv P reg s"
    and complete_delete: "s_deleting s = xs @ txid # ys"
  shows "simulates Q P blog rows s (s\<lparr>s_bc := completed_delete txid (s_bc s), s_deleting := xs @ ys\<rparr>)" (is "simulates _ _ _ _ _ ?t")
proof -
  have "txid \<in> h_written s"
    using sinvD(8) [OF assms(1)] unfolding handlers_ok_def complete_delete by simp
  then have "(bc_items (s_bc s))(txid := None) |` (- h_written s) = bc_items (s_bc s) |` (- h_written s)"
    by (auto simp: restrict_map_def fun_eq_iff)
  then have "view P blog rows ?t = view P blog rows s"
    by (simp add: view_unfold completed_delete_def items_Delete_def)
  then show ?thesis ..
qed

lemma simulation:
  assumes "broker_log (p_kafka P) blog" and "effective_store (p_session P) rows Q" and "sinv P reg s"
    and "sstep P reg blog s t"
  shows "simulates Q P blog rows s t"
  using assms(4)
proof (cases rule: sstep.cases)
  case (submit pd now req c resp)
  from view_submit [OF assms(1) submit(2)] show ?thesis unfolding submit(1) .
next
  case (subscribe cu topic c b)
  have "view P blog rows t = view P blog rows s"
    using frame_pend_all(1) [OF Subscribe_frame [OF subscribe(2)]] Subscribe_log [OF assms(1) subscribe(2)]
    by (simp add: subscribe(1) view_unfold log_docs_def fun_eq_iff)
  then show ?thesis ..
next
  case (deliver i topic msg cu c acked)
  from view_deliver [where blog = blog and i = i, OF assms(3) deliver(2-4)] show ?thesis unfolding deliver(1) .
next
  case (tick_take period c docs)
  from getDocsFromCache_Get [OF tick_take(2)] take_reg_view [OF sinvD(4) [OF assms(3)]] sinvD(2) [OF assms(3)]
  show ?thesis unfolding tick_take(1) by auto
next
  case (tick_invoke xs docs ys turns bc w txid)
  have "bc_items bc = bc_items (s_bc s)" by (rule register_invoke_shared_items [OF tick_invoke(3)])
  then have "view P blog rows t = view P blog rows s"
    by (simp add: tick_invoke(1,2) view_unfold ac_simps)
  then show ?thesis ..
next
  case (tick_fail xs docs ys turns bc w)
  from view_tick_fail [OF tick_fail(2-3)] show ?thesis unfolding tick_fail(1) .
next
  case (tick_record xs txid docs ys bc b)
  from view_tick_record [OF assms(3) tick_record(2-3)] show ?thesis unfolding tick_record(1) .
next
  case (persist_move p)
  then have "view P blog rows t = view P blog rows s" by (simp add: view_unfold)
  then show ?thesis ..
next
  case (persist_fetch n period c ds)
  from view_persist_fetch [OF assms(1,3) persist_fetch(2-3)] show ?thesis unfolding persist_fetch(1) .
next
  case (persist_write xs b ys db er)
  from persist_write_view [OF assms(2,3) persist_write(2,3)] show ?thesis unfolding persist_write(1) by (rule disjI2)
next
  case (complete_begin e docs key)
  then have "view P blog rows t = view P blog rows s" by (simp add: view_unfold)
  then show ?thesis ..
next
  case (complete_write xs txid docs key ys db now ok)
  from complete_write_view [OF assms(2,3) complete_write(2-4)] show ?thesis unfolding complete_write(1) by (rule disjI2)
next
  case (complete_delete xs txid ys)
  from view_complete_delete [OF assms(3) complete_delete(2)] show ?thesis unfolding complete_delete(1) .
next
  case (verify turns root bc w v)
  have "bc_items bc = bc_items (s_bc s)" by (rule execute_shared_items [OF verify(2)])
  then have "view P blog rows t = view P blog rows s" by (simp add: verify(1) view_unfold)
  then show ?thesis ..
next
  case (sign i sg db er)
  obtain ok where "table_of (rows db) \<in> effect ok (sign_row i sg) (a_table (view P blog rows s))"
    using effective_store.sign_done [OF assms(2), of i sg "s_db s"] sign(2) by (auto simp: view_unfold)
  from astep.sign [OF this] have "astep Q (view P blog rows s) (view P blog rows t)"
    by (rule back_subst) (simp add: sign(1) view_unfold)
  then show ?thesis ..
next
  case (chain_moves w)
  then have "view P blog rows t = view P blog rows s" by (simp add: view_unfold)
  then show ?thesis ..
next
  case (restart k bc)
  from restart_view [OF restart(2,3)] show ?thesis unfolding restart(1) by (rule disjI2)
qed

lemma sreach_sinv:
  assumes "honest_chain (p_fabric P) (p_decode P) reg" and "starts P s0" and "sreach P reg blog s0 s"
  shows "sinv P reg s"
  using assms(3)
proof (induction rule: sreach.induct)
  case start
  show ?case by (rule sinv_start [OF assms(2)])
next
  case (step s t)
  then show ?case using sinv_step [OF assms(1)] by blast
qed

lemma view_start:
  assumes "starts P s0"
  shows "view P blog rows s0 = pipe_init (table_of (rows (s_db s0))) (log_docs P blog (k_world (s_cache s0)))"
  using assms by (auto simp: starts_def sys_start_def view_unfold pipe_init_def p_init_def booted_empty gone_def fun_eq_iff)
     (simp add: booted_def booted_empty)

lemma refines:
  assumes "honest_chain (p_fabric P) (p_decode P) reg" and "broker_log (p_kafka P) blog"
    and "effective_store (p_session P) rows Q" and "starts P s0" and "sreach P reg blog s0 s"
  shows "areach Q (table_of (rows (s_db s0))) (log_docs P blog (k_world (s_cache s0))) (view P blog rows s)"
  using assms(5)
proof (induction rule: sreach.induct)
  case start
  show ?case unfolding view_start [OF assms(4)] by (rule areach.start)
next
  case (step s t)
  from simulation [OF assms(2,3) sreach_sinv [OF assms(1,4) step.hyps(1)] step.hyps(2)]
  show ?case using step.IH areach.step by auto
qed

text \<open>What is lost stays lost.\<close>

lemma gone_grows: "sreach P reg blog s t \<Longrightarrow> gone (h_crashed s) (h_lost s) c \<subseteq># gone (h_crashed t) (h_lost t) c"
proof (induction rule: sreach.induct)
  case (step t u)
  from step.hyps(2) have "gone (h_crashed t) (h_lost t) c \<subseteq># gone (h_crashed u) (h_lost u) c"
    by (cases rule: sstep.cases) (simp_all add: gone_def subset_mset.add_increasing)
  with step.IH show ?case by (rule subset_mset.order_trans)
qed simp

lemma sreach_trans:
  assumes "sreach P reg blog s0 s" and "sreach P reg blog s t"
  shows "sreach P reg blog s0 t"
  using assms(2,1) by (induction rule: sreach.induct) (auto intro: sreach.step)

section \<open>A batch can be completed\<close>

text \<open>
  From any state, with whatever else is under way: the invocation of one waiting tick, its record,
  and the three moments of the handler of its event. Nothing else is changed on the way.
\<close>

lemma invoke_and_record:
  assumes "sinv P reg s" and "s_taken s = xs @ docs # ys"
    and "register_invoke (sha256 (p_digests P)) (p_fabric P) docs (s_bc s) (s_world s) = (bc, w, Ret (Some txid))"
    and "txid \<notin> fst ` set (s_invoked s) \<union> dom (bc_items (s_bc s)) \<union> h_written s"
  shows "sreach P reg blog s (s\<lparr>s_bc := bc\<lparr>bc_items := (bc_items (s_bc s))(txid \<mapsto> DocSlice docs)\<rparr>,
     s_world := w, s_taken := xs @ ys\<rparr>)"
proof -
  let ?s1 = "s\<lparr>s_bc := bc, s_world := w, s_taken := xs @ ys, s_invoked := (txid, docs) # s_invoked s\<rparr>"
  have "sstep P reg blog s ?s1" by (rule sstep.tick_invoke [OF assms(2) assms(3) [unfolded register_invoke_def] assms(4)])
  then have 1: "sreach P reg blog s ?s1" by (rule sreach.step [OF sreach.start])
  have "register_record txid docs bc = (bc\<lparr>bc_items := (bc_items (s_bc s))(txid \<mapsto> DocSlice docs)\<rparr>, Ret True)"
    using assms(4) register_invoke_items [OF assms(3)] by (auto simp: register_record_def items_Set_def)
  then have "sstep P reg blog ?s1 (?s1\<lparr>s_bc := bc\<lparr>bc_items := (bc_items (s_bc s))(txid \<mapsto> DocSlice docs)\<rparr>, s_invoked := [] @ s_invoked s\<rparr>)"
    by (intro sstep.tick_record [where txid = txid and docs = docs]) simp_all
  from sreach.step [OF 1 this] show ?thesis by (rule back_subst) simp
qed

lemma complete_recorded:
  fixes e :: ChaincodeEvent
  assumes "bc_items (s_bc s) (ev_TxID e) = Some (DocSlice docs)" and "ev_TxID e \<notin> h_written s"
    and "p_results P (ev_Payload e) = Inr results" and "dom results \<subseteq> reg (s_world s)"
    and "\<And>root h. results root = Some h \<Longrightarrow> h = p_proof P root"
    and "formatDocs (sha256 (p_digests P)) docs \<in> dom results"
    and "key = proofKey (p_digests P) (p_proof P (formatDocs (sha256 (p_digests P)) docs))"
    and "cas_SetDocsBlockDigest (p_session P) now (map Id docs) key (ev_TxID e) (s_db s) = (db, er)"
  shows "sreach P reg blog s (s\<lparr>s_bc := completed_delete (ev_TxID e) (s_bc s), s_db := db,
     h_closed := (key, docs, er = None) # h_closed s, h_written := insert (ev_TxID e) (h_written s)\<rparr>)"
proof -
  let ?root = "formatDocs (sha256 (p_digests P)) docs"
  obtain h where "results ?root = Some h" using assms(6) by blast
  then have b: "completed_begin (p_digests P) (p_results P) e (s_bc s) = Inr (docs, key)"
    using assms(1,3,5,7) by (auto simp: completed_begin_def items_Get_def Let_def)
  let ?s1 = "s\<lparr>s_completing := (ev_TxID e, docs, key) # s_completing s\<rparr>"
  have "sstep P reg blog s ?s1"
    by (rule sstep.complete_begin [OF b]) (use assms(3-5) in auto)
  then have 1: "sreach P reg blog s ?s1" by (rule sreach.step [OF sreach.start])
  let ?s2 = "s\<lparr>s_db := db, s_deleting := ev_TxID e # s_deleting s, h_closed := (key, docs, er = None) # h_closed s,
     h_written := insert (ev_TxID e) (h_written s)\<rparr>"
  have "s_completing ?s1 = [] @ (ev_TxID e, docs, key) # s_completing s" by simp
  moreover have "db = completed_write (cassandra_persister (p_session P)) now docs key (ev_TxID e) (s_db ?s1)"
    "(er = None) = (snd (cas_SetDocsBlockDigest (p_session P) now (map Id docs) key (ev_TxID e) (s_db ?s1)) = None)"
    by (simp_all add: assms(8) completed_write_def cassandra_persister_def)
  ultimately have "sstep P reg blog ?s1 (?s1\<lparr>s_db := db, s_completing := [] @ s_completing s,
      s_deleting := ev_TxID e # s_deleting ?s1,
      h_closed := (if ev_TxID e \<in> h_written ?s1 then h_closed ?s1 else (key, docs, er = None) # h_closed ?s1),
      h_written := insert (ev_TxID e) (h_written ?s1)\<rparr>)"
    by (rule sstep.complete_write)
  then have "sstep P reg blog ?s1 ?s2" by (rule back_subst) (simp add: assms(2))
  note 2 = sreach.step [OF 1 this]
  have "sstep P reg blog ?s2 (?s2\<lparr>s_bc := completed_delete (ev_TxID e) (s_bc s), s_deleting := [] @ s_deleting s\<rparr>)"
    using sstep.complete_delete [of ?s2 "[]" "ev_TxID e" "s_deleting s" P reg blog] by simp
  from sreach.step [OF 2 this] have "sreach P reg blog s (s\<lparr>s_bc := completed_delete (ev_TxID e) (s_bc s), s_db := db,
      h_closed := (key, docs, er = None) # h_closed s, h_written := insert (ev_TxID e) (h_written s)\<rparr>)"
    by (rule back_subst) simp
  then show ?thesis .
qed

end
