(* ===== verification/Service.thy ===== *)
theory Service
  imports System
begin

text \<open>
  What holds of the service as a whole, and a complete run of it: one document is submitted,
  delivered to both consumers, registered, stored and completed.
\<close>

section \<open>A run\<close>

text \<open>
  A broker that keeps its log, a chain that keeps the registered roots and answers with a flag in
  front of the root, and one document.
\<close>

definition run_periods :: "PeriodLimit list" where
  "run_periods = [\<lparr>Period = 1, Limit = 4\<rparr>]"

definition run_doc :: document where
  "run_doc = new_doc toy_digests (time_Unix 0) [] ''abc'' [] 1"

definition run_lib :: "(string \<times> bytes) list kafka_lib" where
  "run_lib = toy_lib\<lparr>SendMessage := (\<lambda>t m b. (b @ [(t, m)], None))\<rparr>"

definition run_fabric :: "(string list, unit) fabric" where
  "run_fabric = \<lparr>Dial = (\<lambda>a w. (w, Some ())), CloseConn = (\<lambda>k w. w),
     Invoke = (\<lambda>k sp w. (spec_Args sp ! 2 # w, Some \<lparr>resp_Status = 200, resp_Msg = ''tx''\<rparr>, None)),
     Query = (\<lambda>k sp w. (w, Some \<lparr>resp_Status = 200,
        resp_Msg = (if spec_Args sp ! 2 \<in> set w then CHR ''1'' else CHR ''0'') # spec_Args sp ! 2\<rparr>, None))\<rparr>"

definition run_decode :: query_decoder where
  "run_decode msg = (case msg of [] \<Rightarrow> Inl ''empty''
     | c # root \<Rightarrow> Inr [root \<mapsto> Some \<lparr>qr_Key = [], qr_HashKey = [], qr_Exist = (c = CHR ''1'')\<rparr>])"

definition run_root :: string where
  "run_root = formatDocs (sha256 toy_digests) [run_doc]"

definition run_program :: "((string \<times> bytes) list, string list, unit, memdb) program" where
  "run_program = \<lparr>p_digests = toy_digests, p_kafka = run_lib, p_periods = run_periods,
     p_fabric = run_fabric, p_decode = run_decode, p_results = (\<lambda>b. Inr [run_root \<mapsto> ''proof'']),
     p_proof = (\<lambda>r. ''proof''), p_session = mem_session, p_pconfig = run_config\<rparr>"

definition run_start :: "((string \<times> bytes) list, string list, memdb) sys" where
  "run_start = sys_start (kafka_state [] toy_config run_periods []) toy_bc [] []"

definition run_key :: string where
  "run_key = proofKey toy_digests ''proof''"

abbreviation run_reach :: "((string \<times> bytes) list, string list, memdb) sys \<Rightarrow> bool" where
  "run_reach \<equiv> sreach run_program set (\<lambda>b. b) run_start"

lemma run_fields [simp]:
  "p_digests run_program = toy_digests" "p_kafka run_program = run_lib" "p_periods run_program = run_periods"
  "p_fabric run_program = run_fabric" "p_decode run_program = run_decode"
  "p_results run_program = (\<lambda>b. Inr [run_root \<mapsto> ''proof''])" "p_session run_program = mem_session"
  "p_proof run_program = (\<lambda>r. ''proof'')"
  "p_pconfig run_program = run_config"
  by (simp_all add: run_program_def)

lemma run_laws:
  "honest_chain (p_fabric run_program) (p_decode run_program) set"
  "broker_log (p_kafka run_program) (\<lambda>b. b)" "merging_store (p_session run_program) mem_rows"
  "starts run_program run_start" "digest_sizes (p_digests run_program)"
proof -
  show "honest_chain (p_fabric run_program) (p_decode run_program) set"
    by (auto simp: honest_chain_def run_program_def run_fabric_def run_decode_def)
  show "broker_log (p_kafka run_program) (\<lambda>b. b)"
    by (simp add: broker_log_def run_program_def run_lib_def toy_lib_def)
  show "merging_store (p_session run_program) mem_rows"
    by (simp add: run_program_def memdb.merging_store_axioms)
  show "digest_sizes (p_digests run_program)"
    by (simp add: run_program_def digest_sizes_toy)
  have "bc_name toy_bc = ''blockchain'' \<and> bc_items toy_bc = Map.empty \<and> peer_available run_fabric toy_bc"
    by (auto simp: toy_bc_def peer_available_def run_fabric_def rr_inv_def rr_elems_def dialable_def)
  then show "starts run_program run_start"
    unfolding starts_def run_start_def booted_def by (metis run_fields(3,4))
qed

text \<open>The cache of the run, the persister subscribed: the log of the broker and the channels of the one topic.\<close>

definition run_cache :: "(string \<times> bytes) list \<Rightarrow> (string \<Rightarrow> document list option) \<Rightarrow> (string \<times> bytes) list KafkaCache" where
  "run_cache l m = (kafka_state [] toy_config run_periods l)\<lparr>k_consumers := (\<lambda>_. False)(''persister'' := True),
     k_chans := [KafkaCache.Topic 1 \<mapsto> m]\<rparr>"

lemma run_cache_fields [simp]:
  "k_chans (run_cache l m) = [KafkaCache.Topic 1 \<mapsto> m]" "k_world (run_cache l m) = l" "k_topics (run_cache l m) = [KafkaCache.Topic 1]"
  "(run_cache l m)\<lparr>k_chans := [KafkaCache.Topic 1 \<mapsto> m']\<rparr> = run_cache l m'"
  "(run_cache l m)\<lparr>k_world := l'\<rparr> = run_cache l' m"
  by (simp_all add: run_cache_def kafka_state_def run_periods_def)

lemma run_subscribe:
  "KafkaCache.Subscribe run_lib ''persister'' (KafkaCache.Topic 1) (kafka_state [] toy_config run_periods l) = (run_cache l Map.empty, True)"
  "KafkaCache.Subscribe run_lib ''persister'' (KafkaCache.Topic 1) (run_cache l m) = (run_cache l m, True)"
  by (simp_all add: KafkaCache.Subscribe_def run_cache_def kafka_state_def run_periods_def run_lib_def toy_lib_def)

lemma run_submit:
  "\<exists>resp. submitRaw (\<lambda>s. Inr 1) run_periods (KafkaCache.Put run_lib toy_digests (time_Unix 0))
     (Inr \<lparr>ProofWaitPeriod = ''1ns'', RawDocument = ''abc'', req_Metadata = [], req_AppName = []\<rparr>) (run_cache [] m)
     = (run_cache [(KafkaCache.Topic 1, ''1'')] m, Ret resp)"
proof -
  have "\<not> length (Id run_doc) < 8"
    by (simp add: run_doc_def new_doc_def length_DocumentID [OF digest_sizes_toy])
  then show ?thesis
    by (simp add: submitRaw_def KafkaCache.Put_def run_doc_def run_lib_def toy_lib_def Let_def)
qed

lemma run_construct:
  "construct_chan run_periods (KafkaCache.Topic 1) cu (run_cache l m)
     = Ret (run_cache l (if m cu = None then m(cu \<mapsto> []) else m))"
  by (auto simp: construct_chan_def run_periods_def)

lemma run_deliver:
  "m cu = None \<Longrightarrow> deliver run_lib run_periods cu (KafkaCache.Topic 1) ''1'' (run_cache l m) = Ret (run_cache l (m(cu \<mapsto> [run_doc])), True)"
  by (simp add: deliver_def run_construct run_lib_def toy_lib_def run_doc_def)

lemma run_Get:
  "m cu = Some [run_doc] \<Longrightarrow> KafkaCache.Get run_periods () cu (KafkaCache.Topic 1) 4 (run_cache l m) = (run_cache l (m(cu \<mapsto> [])), Ret (Inr [run_doc]))"
  by (simp add: KafkaCache.Get_def run_construct)

lemma run_bc: "bc_name toy_bc = ''blockchain''" "bc_items toy_bc = Map.empty"
  by (simp_all add: toy_bc_def)

lemma run_invoke:
  "register_invoke (sha256 toy_digests) run_fabric [run_doc] toy_bc [] = (toy_bc, [run_root], Ret (Some ''tx''))"
proof -
  have "run_root \<noteq> []"
    unfolding run_root_def by (rule formatDocs_nonempty) (simp_all add: sha256_nonempty [OF digest_sizes_toy])
  moreover have "connect_loop run_fabric toy_bc 0 (peerBackend toy_bc) w = (peerBackend toy_bc, w, Ret (Some ()))" for w
    by (subst connect_loop_simps)
       (simp add: toy_bc_def Len_def ring_Len_def Choose_Some getGrpcConn_def run_fabric_def numeral_eq_Suc)
  ultimately show ?thesis
    by (simp add: register_invoke_eq execute_def execute_shared_def run_root_def Let_def flip: connect_loop_def) (simp add: run_fabric_def toSpec_def)
qed

lemma run_step: "run_reach s \<Longrightarrow> sstep run_program set (\<lambda>b. b) s t' \<Longrightarrow> t' = t \<Longrightarrow> run_reach t"
  by (blast intro: sreach.step)

abbreviation run_chans :: "string \<Rightarrow> document list option" where
  "run_chans \<equiv> [''blockchain'' \<mapsto> [run_doc], ''persister'' \<mapsto> [run_doc]]"

abbreviation run_log :: "(string \<times> bytes) list" where
  "run_log \<equiv> [(KafkaCache.Topic 1, ''1'')]"

abbreviation run_seen :: "(string \<times> nat) list" where
  "run_seen \<equiv> [(''persister'', 0), (''blockchain'', 0)]"

text \<open>Submission and delivery, then registration up to the record of the transaction.\<close>

definition run_delivered :: "((string \<times> bytes) list, string list, memdb) sys" where
  "run_delivered = run_start\<lparr>s_cache := run_cache run_log run_chans, h_seen := run_seen\<rparr>"

lemma run_delivered: "run_reach run_delivered"
proof -
  have "run_reach (run_start\<lparr>s_cache := run_cache [] Map.empty\<rparr>)"
    by (rule run_step [OF sreach.start sstep.subscribe [where cu = "''persister''" and topic = "KafkaCache.Topic 1"
          and c = "run_cache [] Map.empty" and b = True]])
       (simp_all add: run_start_def sys_start_def run_subscribe)
  moreover from run_submit [of Map.empty] obtain resp where sub: "submitRaw (\<lambda>s. Inr 1) (p_periods run_program) (KafkaCache.Put (p_kafka run_program) (p_digests run_program) (time_Unix 0))
      (Inr \<lparr>ProofWaitPeriod = ''1ns'', RawDocument = ''abc'', req_Metadata = [], req_AppName = []\<rparr>) (run_cache [] Map.empty) = (run_cache run_log Map.empty, Ret resp)"
    unfolding run_fields by blast
  ultimately have "run_reach (run_start\<lparr>s_cache := run_cache run_log Map.empty\<rparr>)"
    by - (rule run_step [OF _ sstep.submit [where c = "run_cache run_log Map.empty"]], assumption, simp_all)
  then have "run_reach (run_start\<lparr>s_cache := run_cache run_log [''blockchain'' \<mapsto> [run_doc]], h_seen := [(''blockchain'', 0)]\<rparr>)"
    by (rule run_step [OF _ sstep.deliver [where i = 0 and cu = "''blockchain''" and topic = "KafkaCache.Topic 1" and msg = "''1''"
          and c = "run_cache run_log [''blockchain'' \<mapsto> [run_doc]]" and acked = True]])
       (simp_all add: run_start_def sys_start_def run_deliver)
  then show ?thesis
    by (rule run_step [OF _ sstep.deliver [where i = 0 and cu = "''persister''" and topic = "KafkaCache.Topic 1" and msg = "''1''"
          and c = "run_cache run_log run_chans" and acked = True]])
       (simp_all add: run_delivered_def run_start_def sys_start_def run_deliver)
qed

definition run_recorded :: "((string \<times> bytes) list, string list, memdb) sys" where
  "run_recorded = run_delivered\<lparr>s_cache := run_cache run_log (run_chans(''blockchain'' \<mapsto> [])),
     s_bc := toy_bc\<lparr>bc_items := [''tx'' \<mapsto> DocSlice [run_doc]]\<rparr>, s_world := [run_root]\<rparr>"

definition run_taken :: "((string \<times> bytes) list, string list, memdb) sys" where
  "run_taken = run_delivered\<lparr>s_cache := run_cache run_log (run_chans(''blockchain'' \<mapsto> [])), s_taken := [[run_doc]]\<rparr>"

lemma run_taken: "run_reach run_taken"
  unfolding run_taken_def
  by (rule run_step [OF run_delivered sstep.tick_take [where period = "\<lparr>Period = 1, Limit = 4\<rparr>" and docs = "[run_doc]"
          and c = "run_cache run_log (run_chans(''blockchain'' \<mapsto> []))"]])
       (simp_all add: run_delivered_def run_start_def sys_start_def getDocsFromCache_def run_bc run_Get)

lemma run_recorded: "run_reach run_recorded"
proof -
  note run_taken [unfolded run_taken_def]
  then have "run_reach (run_delivered\<lparr>s_cache := run_cache run_log (run_chans(''blockchain'' \<mapsto> [])),
      s_world := [run_root], s_invoked := [(''tx'', [run_doc])]\<rparr>)"
    by (rule run_step [OF _ sstep.tick_invoke [where turns = "\<lambda>_. 0" and xs = "[]" and docs = "[run_doc]" and ys = "[]" and txid = "''tx''"
          and bc = toy_bc and w = "[run_root]"]])
       (simp_all add: run_delivered_def run_start_def sys_start_def run_invoke [unfolded register_invoke_def] run_bc)
  then show ?thesis
    by (rule run_step [OF _ sstep.tick_record [where xs = "[]" and docs = "[run_doc]" and ys = "[]" and txid = "''tx''"
          and b = True and bc = "toy_bc\<lparr>bc_items := [''tx'' \<mapsto> DocSlice [run_doc]]\<rparr>"]])
       (simp_all add: run_recorded_def run_delivered_def run_start_def sys_start_def register_record_def items_Set_def run_bc)
qed

text \<open>The persistence loop fetches the document and writes it.\<close>

definition run_written :: pstate where
  "run_written = p_init\<lparr>outboxes := [[]], fetched := {#run_doc#}, sent := [run_doc], started := [[run_doc]],
     written := [[run_doc]]\<rparr>"

definition run_db :: memdb where
  "run_db = fst (ExecuteBatch mem_session (map put_statement [run_doc]) [])"

definition run_stored :: "((string \<times> bytes) list, string list, memdb) sys" where
  "run_stored = run_recorded\<lparr>s_cache := run_cache run_log [''blockchain'' \<mapsto> [], ''persister'' \<mapsto> []],
     s_persist := run_written, s_db := run_db, h_put := [run_doc], h_stored := [run_doc]\<rparr>"

lemma run_persist_move:
  assumes "run_reach (s\<lparr>s_persist := p\<rparr>)" and "pstep run_config p q" and "fetched q = fetched p" and "written q = written p"
  shows "run_reach (s\<lparr>s_persist := q\<rparr>)"
  by (rule run_step [OF assms(1) sstep.persist_move [where p = q]]) (simp_all add: assms(2-))

lemma pstep_eq: "pstep C s t' \<Longrightarrow> t' = t \<Longrightarrow> pstep C s t"
  by simp

lemma run_fetch:
  "fetch_documents (KafkaCache.Subscribe run_lib) (KafkaCache.Get run_periods) KafkaCache.Topic () \<lparr>Period = 1, Limit = 4\<rparr>
     (run_cache run_log [''persister'' \<mapsto> [run_doc], ''blockchain'' \<mapsto> []])
   = (run_cache run_log [''blockchain'' \<mapsto> [], ''persister'' \<mapsto> []], Ret [run_doc])"
  by (simp add: fetch_documents_def run_subscribe run_Get)

lemma run_stored: "run_reach run_stored"
proof -
  let ?c = "run_cache run_log [''blockchain'' \<mapsto> [], ''persister'' \<mapsto> []]"
  let ?s = "run_recorded\<lparr>s_cache := ?c\<rparr>" and ?f = "p_init\<lparr>fetched := {#run_doc#}\<rparr>"
  have p0: "s_persist run_recorded = p_init" "s_db run_recorded = []" "h_stored run_recorded = []" "h_put run_recorded = []"
    "s_cache run_recorded = run_cache run_log (run_chans(''blockchain'' \<mapsto> []))"
    by (simp_all add: run_recorded_def run_delivered_def run_start_def sys_start_def)
  then have "run_recorded = run_recorded\<lparr>s_persist := p_init\<rparr>" by simp
  then have "run_reach (run_recorded\<lparr>s_persist := p_init\<rparr>)" using run_recorded by simp
  then have "run_reach (run_recorded\<lparr>s_persist := p_init\<lparr>main_pc := TickAcquire\<rparr>\<rparr>)"
    by (rule run_persist_move) (rule pstep_eq [OF pstep.tick], simp_all add: p_init_def)
  then have "run_reach (run_recorded\<lparr>s_persist := p_init\<lparr>busy := 1, jobs := [1]\<rparr>\<rparr>)"
    by (rule run_persist_move) (rule pstep_eq [OF pstep.tick_go], simp_all add: p_init_def run_config)
  then have "run_reach (run_recorded\<lparr>s_persist := p_init\<lparr>busy := 1, jobs := [0], getters := 1\<rparr>\<rparr>)"
    by (rule run_persist_move)
       (rule pstep_eq [OF pstep.fetch_start [where xs = "[]" and ys = "[]" and n = 0]], simp_all add: p_init_def run_config)
  then have "run_reach (run_recorded\<lparr>s_persist := p_init\<lparr>getters := 1\<rparr>\<rparr>)"
    by (rule run_persist_move)
       (rule pstep_eq [OF pstep.fetch_release [where xs = "[]" and ys = "[]"]], simp_all add: p_init_def run_config)
  then have "run_reach (?s\<lparr>s_persist := ?f\<lparr>outboxes := [[run_doc]]\<rparr>\<rparr>)"
    by (rule run_step [OF _ sstep.persist_fetch [where n = 0 and period = "\<lparr>Period = 1, Limit = 4\<rparr>" and c = ?c and ds = "[run_doc]"]])
       (simp_all add: p0 run_fetch, simp_all add: p_init_def)
  then have "run_reach (?s\<lparr>s_persist := ?f\<lparr>outboxes := [[]], docsChan := [run_doc], sent := [run_doc]\<rparr>\<rparr>)"
    by (rule run_persist_move)
       (rule pstep_eq [OF pstep.fetch_send [where xs = "[]" and ys = "[]" and d = run_doc and ds = "[]"]],
        simp_all add: p_init_def run_config)
  then have "run_reach (?s\<lparr>s_persist := ?f\<lparr>outboxes := [[]], docQueue := [run_doc], sent := [run_doc], main_pc := PutAcquire\<rparr>\<rparr>)"
    by (rule run_persist_move)
       (rule pstep_eq [OF pstep.recv [where d = run_doc and ds = "[]"]], simp_all add: p_init_def run_config)
  then have "run_reach (?s\<lparr>s_persist := ?f\<lparr>outboxes := [[]], busy := 1, inflight := [[run_doc]], sent := [run_doc],
      started := [[run_doc]]\<rparr>\<rparr>)"
    by (rule run_persist_move) (rule pstep_eq [OF pstep.put_go], simp_all add: p_init_def run_config)
  then show ?thesis
    by (rule run_step [OF _ sstep.persist_write [where xs = "[]" and b = "[run_doc]" and ys = "[]" and db = run_db and er = None]])
       (simp_all add: p0 run_stored_def run_written_def run_db_def cas_PutDocsIntoDB_def,
        simp_all add: p_init_def mem_session_def)
qed

text \<open>The completion event writes the proof into the database; then the process is restarted.\<close>

definition run_event :: ChaincodeEvent where
  "run_event = \<lparr>ev_ChaincodeID = ''cc'', ev_EventName = ''invoke_completed'', ev_TxID = ''tx'', ev_Payload = ''{}''\<rparr>"

definition run_end :: "((string \<times> bytes) list, string list, memdb) sys" where
  "run_end = run_stored\<lparr>s_cache := kafka_state [] toy_config run_periods run_log, s_bc := toy_bc, s_persist := p_init,
     s_db := fst (cas_SetDocsBlockDigest mem_session 9 [Id run_doc] run_key ''tx'' run_db),
     h_closed := [(run_key, [run_doc], True)], h_written := {''tx''}\<rparr>"

lemma run_end: "run_reach run_end"
proof -
  let ?db = "fst (cas_SetDocsBlockDigest mem_session 9 [Id run_doc] run_key ''tx'' run_db)"
  have r: "s_bc run_stored = toy_bc\<lparr>bc_items := [''tx'' \<mapsto> DocSlice [run_doc]]\<rparr>" "s_db run_stored = run_db"
    "s_world run_stored = [run_root]" "h_closed run_stored = []" "s_completing run_stored = []"
    "s_deleting run_stored = []" "h_written run_stored = {}"
    by (simp_all add: run_stored_def run_recorded_def run_delivered_def run_start_def sys_start_def)
  have "completed_begin toy_digests (\<lambda>b. Inr [run_root \<mapsto> ''proof'']) run_event (s_bc run_stored) = Inr ([run_doc], run_key)"
    by (simp add: completed_begin_def r run_event_def items_Get_def run_key_def Let_def flip: run_root_def)
  then have "run_reach (run_stored\<lparr>s_completing := [(''tx'', [run_doc], run_key)]\<rparr>)"
    by - (rule run_step [OF run_stored sstep.complete_begin [where e = run_event and docs = "[run_doc]" and key = run_key]],
        simp_all add: r run_event_def, auto split: if_splits)
  then have "run_reach (run_stored\<lparr>s_db := ?db, s_deleting := [''tx''], h_closed := [(run_key, [run_doc], True)],
      h_written := {''tx''}\<rparr>)"
    by (rule run_step [OF _ sstep.complete_write [where xs = "[]" and ys = "[]" and txid = "''tx''" and docs = "[run_doc]"
          and key = run_key and now = 9 and db = ?db and ok = True]])
       (simp_all add: r completed_write_def cassandra_persister_def,
        simp_all add: cas_SetDocsBlockDigest_def mem_session_def)
  then have "run_reach (run_stored\<lparr>s_bc := toy_bc, s_db := ?db, h_closed := [(run_key, [run_doc], True)],
      h_written := {''tx''}\<rparr>)" (is "run_reach ?s")
    by (rule run_step [OF _ sstep.complete_delete [where xs = "[]" and ys = "[]" and txid = "''tx''"]])
       (simp_all add: r completed_delete_def items_Delete_def toy_bc_def)
  moreover have "in_memory ?s = (\<lambda>c. {#})"
    by (auto simp: fun_eq_iff in_memory_def in_registration_def in_storage_def pend_all_def chan_of_def run_stored_def
        run_recorded_def run_delivered_def run_start_def sys_start_def run_written_def p_init_def items_docs_def run_bc)
  moreover have "booted run_program (kafka_state [] toy_config run_periods run_log) toy_bc"
    using run_laws(4) by (auto simp: starts_def run_start_def sys_start_def booted_def)
  ultimately show ?thesis
    by - (rule run_step [OF _ sstep.restart [where k = "kafka_state [] toy_config run_periods run_log" and bc = toy_bc]],
       assumption, assumption, simp_all add: run_end_def, simp_all add: run_stored_def run_recorded_def
         run_delivered_def run_start_def sys_start_def kafka_state_def)
qed

lemma run_end_fields:
  "s_cache run_end = kafka_state [] toy_config run_periods run_log" "h_seen run_end = run_seen"
  "h_closed run_end = [(run_key, [run_doc], True)]" "h_stored run_end = [run_doc]" "s_persist run_end = p_init"
  "s_bc run_end = toy_bc" "h_written run_end = {''tx''}" "s_taken run_end = []" "s_invoked run_end = []" "h_lost run_end = []"
  "h_crashed run_end = (\<lambda>_. {#})" "h_put run_end = [run_doc]"
  "s_db run_end = fst (cas_SetDocsBlockDigest mem_session 9 [Id run_doc] run_key ''tx'' run_db)"
  by (simp_all add: run_end_def run_stored_def run_recorded_def run_delivered_def run_start_def sys_start_def)

lemma run_log_docs: "log_docs run_program (\<lambda>b. b) run_log = [run_doc]"
  by (simp add: log_docs_def run_lib_def toy_lib_def run_doc_def)

lemma run_clean: "clean (view run_program (\<lambda>b. b) mem_rows run_end)"
  by (simp add: clean_def view_log view_seen run_end_fields kafka_state_def run_log_docs)

lemma run_get:
  assumes "mem_rows db (Id run_doc) = Some rr"
  shows "cas_GetDocFromDBByDocID mem_session (Id run_doc) db = Inr (scan_row rr)"
proof -
  have id: "Id run_doc \<noteq> []"
    using length_DocumentID [OF digest_sizes_toy, of "''abc''" "time_Unix 0"] by (auto simp: run_doc_def new_doc_def)
  obtain r where r: "ScanOne mem_session gocql_One (WhereId (Id run_doc)) db = Inr r"
    using assms by (cases "filter (row_matches (WhereId (Id run_doc))) (mem_all db)")
       (auto simp: mem_session_def filter_empty_conv set_mem_all dest: ranI mem_rows_key)
  moreover have "rr = r" using memdb.one_ok [OF r] assms by simp
  ultimately show ?thesis using id by (auto simp: cas_GetDocFromDBByDocID_def scan_row_def)
qed

lemma view_faithful:
  assumes "honest_chain (p_fabric P) (p_decode P) reg" and "broker_log (p_kafka P) blog"
    and "effective_store (p_session P) rows Q" and "cql_store (p_session P) rows" and "starts P s0"
    and "sreach P reg blog s0 s" and "covered Q (view P blog rows s)"
  shows "faithful (table_of (rows (s_db s0))) (view P blog rows s)"
  by (rule areach_faithful [OF refines [OF assms(1-3,5,6)] assms(7)])
     (rule persist_contract.docs_ids_ok [OF cql_store.contract [OF assms(4)]])

lemma merging_storeD:
  assumes "merging_store S rows"
  shows "logged_store S rows" and "cql_store S rows" and "effective_store S rows agree"
  using merging_store.axioms(1) [OF assms] logged_store.axioms(1) merging_store.merging [OF assms]
  by blast+

section \<open>Properties\<close>

text \<open>
  A run with a second delivery: after the restart the persister subscribes again, and the broker
  delivers the message to the registration once more.
\<close>

definition run_again :: "((string \<times> bytes) list, string list, memdb) sys" where
  "run_again = run_end\<lparr>s_cache := run_cache run_log [''blockchain'' \<mapsto> [run_doc]], h_seen := (''blockchain'', 0) # run_seen\<rparr>"

lemma run_again: "run_reach run_again"
proof -
  have "run_reach (run_end\<lparr>s_cache := run_cache run_log Map.empty\<rparr>)"
    by (rule run_step [OF run_end sstep.subscribe [where cu = "''persister''" and topic = "KafkaCache.Topic 1"
          and c = "run_cache run_log Map.empty" and b = True]])
       (simp_all add: run_end_fields run_subscribe)
  then show ?thesis
    by (rule run_step [OF _ sstep.deliver [where i = 0 and cu = "''blockchain''" and topic = "KafkaCache.Topic 1" and msg = "''1''"
          and c = "run_cache run_log [''blockchain'' \<mapsto> [run_doc]]" and acked = True]])
       (simp_all add: run_again_def run_end_fields run_deliver)
qed

lemma run_again_fields:
  "s_cache run_again = run_cache run_log [''blockchain'' \<mapsto> [run_doc]]" "h_seen run_again = (''blockchain'', 0) # run_seen"
  "h_closed run_again = [(run_key, [run_doc], True)]" "h_stored run_again = [run_doc]" "s_persist run_again = p_init"
  "s_bc run_again = toy_bc" "h_written run_again = {''tx''}" "s_taken run_again = []" "s_invoked run_again = []" "h_lost run_again = []"
  "h_crashed run_again = (\<lambda>_. {#})" "h_put run_again = [run_doc]" "s_db run_again = s_db run_end" "s_world run_again = s_world run_end"
  by (simp_all add: run_again_def run_end_fields)

lemma run_again_unique: "unique_ids (view run_program (\<lambda>b. b) mem_rows run_again)"
  by (simp add: view_log run_again_fields run_log_docs)

text \<open>
  C3. The service refines the pipeline, step by step: from every state the program reaches, in
  whatever interleaving and however often messages are delivered, each step is one event of the
  pipeline or leaves the state seen from outside as it is; the start is the start of the pipeline, so every
  run of the program is a run of the pipeline. While the accepted documents have different
  identifiers the table is faithful to what happened. The chain, the broker and the store keep
  their laws; a batch that holds two documents under one identifier may do anything to the table.
\<close>

theorem service_refines_pipeline:
  assumes "honest_chain (p_fabric P) (p_decode P) reg" and "broker_log (p_kafka P) blog"
    and "merging_store (p_session P) rows" and "starts P s0" and "sreach P reg blog s0 s" and "sstep P reg blog s t"
  shows "(view P blog rows t = view P blog rows s \<or> astep agree (view P blog rows s) (view P blog rows t)) \<and>
     view P blog rows s0 = pipe_init (table_of (rows (s_db s0))) (log_docs P blog (k_world (s_cache s0))) \<and>
     areach agree (table_of (rows (s_db s0))) (log_docs P blog (k_world (s_cache s0))) (view P blog rows t) \<and>
     (unique_ids (view P blog rows t) \<longrightarrow> faithful (table_of (rows (s_db s0))) (view P blog rows t))"
proof -
  note store = merging_storeD [OF assms(3)]
  note run = sreach.step [OF assms(5,6)]
  show ?thesis
    using simulation [OF assms(2) store(3) sreach_sinv [OF assms(1,4,5)] assms(6)] view_start [OF assms(4)]
      refines [OF assms(1,2) store(3) assms(4) run]
      view_faithful [OF assms(1,2) store(3,2) assms(4) run covered_agree]
    by blast
qed

theorem service_refines_pipeline_witness:
  "astep agree (view run_program (\<lambda>b. b) mem_rows run_again)
     (view run_program (\<lambda>b. b) mem_rows (run_again\<lparr>s_cache := run_cache run_log [''blockchain'' \<mapsto> []], s_taken := [[run_doc]]\<rparr>)) \<and>
   \<not> distinct (h_seen run_again)"
proof -
  let ?t = "run_again\<lparr>s_cache := run_cache run_log [''blockchain'' \<mapsto> []], s_taken := [[run_doc]]\<rparr>"
  have t: "?t = run_again\<lparr>s_cache := run_cache run_log [''blockchain'' \<mapsto> []], s_taken := [run_doc] # s_taken run_again\<rparr>"
    by (simp add: run_again_fields)
  have "sstep run_program set (\<lambda>b. b) run_again ?t"
    unfolding t by (rule sstep.tick_take [where period = "\<lparr>Period = 1, Limit = 4\<rparr>"])
       (simp add: run_again_fields getDocsFromCache_def run_bc run_Get)
  from service_refines_pipeline [OF run_laws(1-4) run_again this]
  have "view run_program (\<lambda>b. b) mem_rows ?t = view run_program (\<lambda>b. b) mem_rows run_again \<or>
      astep agree (view run_program (\<lambda>b. b) mem_rows run_again) (view run_program (\<lambda>b. b) mem_rows ?t)" by blast
  moreover have "a_wait (view run_program (\<lambda>b. b) mem_rows ?t) ''blockchain'' = {#}"
    "a_wait (view run_program (\<lambda>b. b) mem_rows run_again) ''blockchain'' = {#run_doc#}"
    by (simp_all add: view_def run_again_fields pend_all_def chan_of_def)
  ultimately show ?thesis by (auto simp: run_again_fields)
qed

text \<open>
  C1. Every accepted document is accounted for, in every run, also when messages are delivered again:
  each copy delivered to the registration is waiting, with a tick, recorded under a transaction whose
  proof is not written, lost with a failed invocation or with the memory of a process that was
  restarted, or in a completed batch; each copy delivered to the persistence is waiting, on its way, lost
  at a restart, or was given to the database. If the identifiers are unique and no message was
  delivered twice to a consumer, no document is in two batches or twice in one.
\<close>

theorem service_accounts_for_documents:
  assumes "honest_chain (p_fabric P) (p_decode P) reg" and "broker_log (p_kafka P) blog"
    and "logged_store (p_session P) rows" and "starts P s0" and "sreach P reg blog s0 s"
  shows "mset (seen_docs (view P blog rows s) ''blockchain'') = pend_all (s_cache s) ''blockchain''
           + (mset (concat (s_taken s)) + mset (concat (map snd (s_invoked s))) + items_docs (bc_items (s_bc s) |` (- h_written s)))
           + (h_crashed s ''blockchain'' + mset (h_lost s)) + mset (concat (map (\<lambda>x. fst (snd x)) (h_closed s))) \<and>
     mset (seen_docs (view P blog rows s) ''persister'') = pend_all (s_cache s) ''persister''
           + (mset (concat (outboxes (s_persist s))) + mset (docsChan (s_persist s)) + mset (docQueue (s_persist s))
              + mset (concat (inflight (s_persist s)))) + h_crashed s ''persister'' + mset (h_put s) \<and>
     (distinct (map Id (log_docs P blog (k_world (s_cache s)))) \<and> distinct (h_seen s) \<longrightarrow>
        distinct (map Id (seen_docs (view P blog rows s) c)) \<and>
        distinct (map Id (concat (map (\<lambda>x. fst (snd x)) (h_closed s)))))"
proof -
  let ?a = "view P blog rows s"
  have p: "placed ?a"
    by (rule areach_placed [OF refines [OF assms(1,2) logged_store.effective [OF assms(3)] assms(4,5)]])
  have "in_storage s = mset (concat (outboxes (s_persist s))) + mset (docsChan (s_persist s)) + mset (docQueue (s_persist s))
        + mset (concat (inflight (s_persist s)))"
    using conservation [OF sinvD(1) [OF sreach_sinv [OF assms(1,4,5)]]] by (simp add: in_storage_def)
  moreover have eq: "mset (seen_docs ?a ''blockchain'') = a_wait ?a ''blockchain''
        + a_reg ?a + a_gone ?a ''blockchain'' + mset (closed_docs ?a)"
    "mset (seen_docs ?a ''persister'') = a_wait ?a ''persister''
        + a_store ?a + a_gone ?a ''persister'' + a_put ?a"
    using p by (simp_all add: placed_def)
  moreover have "distinct (map Id (seen_docs ?a c))"
    "distinct (map Id (concat (map (\<lambda>x. fst (snd x)) (h_closed s))))" if "clean ?a"
  proof -
    note d = seen_docs_distinct [OF p that]
    show "distinct (map Id (seen_docs ?a c))" by (rule d)
    have "mset (closed_docs ?a) \<subseteq># mset (seen_docs ?a ''blockchain'')" unfolding eq by simp
    from distinct_ids_mono [OF this d] show "distinct (map Id (concat (map (\<lambda>x. fst (snd x)) (h_closed s))))"
      by (simp add: view_closed)
  qed
  ultimately show ?thesis
    by (simp add: view_def in_registration_def gone_def add.assoc clean_def)
qed

theorem service_accounts_for_documents_witness:
  "mset (seen_docs (view run_program (\<lambda>b. b) mem_rows run_again) ''blockchain'') = {#run_doc, run_doc#} \<and>
   distinct (map Id (seen_docs (view run_program (\<lambda>b. b) mem_rows run_end) ''blockchain''))"
proof
  note laws = run_laws(1,2) merging_storeD(1) [OF run_laws(3)] run_laws(4)
  show "mset (seen_docs (view run_program (\<lambda>b. b) mem_rows run_again) ''blockchain'') = {#run_doc, run_doc#}"
    using service_accounts_for_documents [OF laws run_again]
    by (simp add: run_again_fields run_bc items_docs_def pend_all_def chan_of_def)
  show "distinct (map Id (seen_docs (view run_program (\<lambda>b. b) mem_rows run_end) ''blockchain''))"
    using service_accounts_for_documents [OF laws run_end, of "''blockchain''"]
    by (simp add: run_end_fields kafka_state_def run_log_docs)
qed

text \<open>
  C2. Completed batches verify, whatever was delivered again: let the identifiers of the accepted
  documents be different, and let a batch without copies be completed with a confirmed update and
  have all its documents stored. As long as no other completed batch has its key or one of its
  documents, and the key was in no row at the start, the documents found under the key are the
  batch, string by string, and one undisturbed verification against the chain succeeds.
\<close>

theorem completed_batch_verifies:
  assumes "honest_chain (p_fabric P) (p_decode P) reg" and "broker_log (p_kafka P) blog"
    and "merging_store (p_session P) rows" and "starts P s0" and "sreach P reg blog s0 s"
    and "distinct (map Id (log_docs P blog (k_world (s_cache s))))" and "(key, docs, True) \<in> set (h_closed s)"
    and "distinct (map Id docs)" and "set docs \<subseteq> set (h_stored s)"
    and "\<And>key' docs' ok. (key', docs', ok) \<in> set (h_closed s) \<Longrightarrow>
        key' = key \<or> Id ` set docs' \<inter> Id ` set docs \<noteq> {} \<Longrightarrow> key' = key \<and> docs' = docs"
    and "key \<notin> range (digest_of (table_of (rows (s_db s0))))"
    and "cas_FindDocsByBlockDigest (p_session P) key (s_db s) = Inr found" and "digest_sizes (p_digests P)"
  shows "mset (map docString found) = mset (map docString docs) \<and>
     (\<exists>bc' w'. VerifyDocs (sha256 (p_digests P)) (p_fabric P) (p_decode P) found (s_bc s) (s_world s) = (bc', w', Ret True))"
proof -
  let ?sha = "sha256 (p_digests P)" and ?a = "view P blog rows s"
  note inv = sreach_sinv [OF assms(1,4,5)] and store = merging_storeD [OF assms(3)]
  note pc = cql_store.contract [OF store(2)]
  have "FindDocsByBlockDigest (cassandra_persister (p_session P)) key (s_db s) = Inr found"
    by (simp add: cassandra_persister_def assms(12))
  from persist_contract.by_digest [OF pc this]
  have found_rows: "distinct found" "set found = {x \<in> ran (a_table ?a). BlockDigest x = key}"
    unfolding view_table by blast+
  have rep: "reported P (reg (s_world s)) docs key" by (rule closed_reported [OF inv assms(7)])
  then have key: "key \<noteq> []" using proofKey_nonempty [OF assms(13)] by (simp add: reported_def)
  have cov: "covered agree ?a" by (rule covered_agree) (simp add: view_log assms(6))
  have found: "mset (map docString found) = mset (map docString docs)"
    by (rule closed_batch_found [OF refines [OF assms(1,2) store(3) assms(4,5)] cov persist_contract.docs_ids_ok [OF pc]
          _ _ assms(8) key assms(11) _ found_rows])
       (use assms(7,9,10) in \<open>simp_all add: view_closed view_stored\<close>)
  then have "formatDocs ?sha found = formatDocs ?sha docs" by (rule formatDocs_mset_docString)
  moreover have "docs \<noteq> []" "formatDocs ?sha docs \<in> reg (s_world s)"
    using rep by (simp_all add: reported_def)
  moreover have "formatDocs ?sha docs \<noteq> []"
    by (rule formatDocs_nonempty [OF \<open>docs \<noteq> []\<close> sha256_nonempty [OF assms(13)]])
  ultimately show ?thesis
    using VerifyDocs_answer [OF assms(1) sinvD(3) [OF inv], of ?sha found "s_world s"] found by simp
qed

theorem completed_batch_verifies_witness:
  "\<exists>found bc' w'. cas_FindDocsByBlockDigest mem_session run_key (s_db run_again) = Inr found \<and>
     mset (map docString found) = {#docString run_doc#} \<and>
     VerifyDocs (sha256 toy_digests) run_fabric run_decode found (s_bc run_again) (s_world run_again) = (bc', w', Ret True)"
proof -
  have "run_key \<noteq> []" unfolding run_key_def by (rule proofKey_nonempty [OF digest_sizes_toy])
  then obtain found where found: "cas_FindDocsByBlockDigest mem_session run_key (s_db run_again) = Inr found"
    by (simp add: cas_FindDocsByBlockDigest_def mem_session_def iterToDocs_def)
  have new: "run_key \<notin> range (digest_of (table_of (mem_rows (s_db run_start))))"
    using \<open>run_key \<noteq> []\<close> by (auto simp: run_start_def sys_start_def digest_of_def table_of_def mem_rows_def)
  have "mset (map docString found) = mset (map docString [run_doc]) \<and>
      (\<exists>bc' w'. VerifyDocs (sha256 (p_digests run_program)) (p_fabric run_program) (p_decode run_program) found
         (s_bc run_again) (s_world run_again) = (bc', w', Ret True))"
    by (rule completed_batch_verifies [OF run_laws(1-4) run_again _ _ _ _ _ new _ run_laws(5)])
       (use found in \<open>simp_all add: run_again_fields run_log_docs\<close>)
  then show ?thesis using found by simp
qed

text \<open>
  C4. A block digest is the mark of a registration, in every run in which the identifiers of the
  accepted documents are different, also when messages are delivered again: a row whose
  digest is new since the start belongs to a document of a completed batch with that key, and the
  root of this batch is on the chain.
\<close>

theorem digest_means_registered:
  assumes "honest_chain (p_fabric P) (p_decode P) reg" and "broker_log (p_kafka P) blog"
    and "merging_store (p_session P) rows" and "starts P s0" and "sreach P reg blog s0 s"
    and "distinct (map Id (log_docs P blog (k_world (s_cache s))))"
    and "cas_GetDocFromDBByDocID (p_session P) i (s_db s) = Inr x"
    and "BlockDigest x \<noteq> []" and "BlockDigest x \<noteq> digest_of (table_of (rows (s_db s0))) i"
  shows "\<exists>docs d ok. (BlockDigest x, docs, ok) \<in> set (h_closed s) \<and> d \<in> set docs \<and> Id d = i \<and>
     formatDocs (sha256 (p_digests P)) docs \<in> reg (s_world s)"
proof -
  note store = merging_storeD [OF assms(3)]
  have "GetDocFromDBByDocID (cassandra_persister (p_session P)) i (s_db s) = Inr x"
    by (simp add: cassandra_persister_def assms(7))
  then have "table_of (rows (s_db s)) i = Some x"
    by (rule persist_contract.by_id [OF cql_store.contract [OF store(2)]])
  then have dg: "digest_of (a_table (view P blog rows s)) i = BlockDigest x"
    by (simp add: digest_of_def view_table)
  have "faithful (table_of (rows (s_db s0))) (view P blog rows s)"
    by (rule view_faithful [OF assms(1,2) store(3,2) assms(4,5) covered_agree]) (simp add: view_log assms(6))
  then obtain y where y: "y \<in> set (h_closed s)" "fst y = BlockDigest x" "i \<in> Id ` set (fst (snd y))"
    using assms(8,9) unfolding faithful_def dg [symmetric] view_closed by metis
  then obtain docs ok where e: "y = (BlockDigest x, docs, ok)" by (metis prod.collapse)
  then have "formatDocs (sha256 (p_digests P)) docs \<in> reg (s_world s)"
    using closed_reported [OF sreach_sinv [OF assms(1,4,5)]] y(1) unfolding reported_def by blast
  with y e show ?thesis by auto
qed

theorem digest_means_registered_witness:
  "(\<exists>docs d ok. (run_key, docs, ok) \<in> set (h_closed run_again) \<and> d \<in> set docs \<and> Id d = Id run_doc \<and>
     formatDocs (sha256 toy_digests) docs \<in> set (s_world run_again)) \<and> \<not> distinct (h_seen run_again)"
proof -
  let ?r = "(write_row (put_statement run_doc) (null_row (Id run_doc)))
      \<lparr>r_blockDigest := Some run_key, r_proofTime := Some 9, r_transactionId := Some ''tx'', r_proofStatus := Some ALREADY_PROOFED\<rparr>"
  have "mem_rows (s_db run_again) (Id run_doc) = Some ?r"
    by (simp add: run_again_fields run_end_fields run_db_def cas_SetDocsBlockDigest_def mem_session_def mem_rows_write upsert_def put_statement_def)
       (simp add: mem_rows_def)
  note get = run_get [OF this]
  have dg: "BlockDigest (scan_row ?r) = run_key" by (simp add: scan_row_def)
  have "run_key \<noteq> []" unfolding run_key_def by (rule proofKey_nonempty [OF digest_sizes_toy])
  moreover have "digest_of (table_of (mem_rows (s_db run_start))) (Id run_doc) = []"
    by (simp add: run_start_def sys_start_def digest_of_def table_of_def mem_rows_def)
  moreover have "distinct (map Id (log_docs run_program (\<lambda>b. b) (k_world (s_cache run_again))))"
    by (simp add: run_again_fields run_log_docs)
  ultimately show ?thesis
    using digest_means_registered [OF run_laws(1-4) run_again, unfolded run_fields, OF _ get] unfolding dg
    by (simp add: run_again_fields)
qed

text \<open>
  C34. A lost document is never proofed: once a document was in the memory of the registration when
  the process was restarted, or in a batch whose invocation failed, no later batch contains it and
  its row never gets a digest it did not have at the first start. Its message was marked as
  consumed when it entered the memory, so only a second delivery, which the rule of one delivery
  excludes here, could bring it back.
\<close>

theorem lost_document_never_proofed:
  assumes "honest_chain (p_fabric P) (p_decode P) reg" and "broker_log (p_kafka P) blog"
    and "logged_store (p_session P) rows" and "starts P s0" and "sreach P reg blog s0 s"
    and "d \<in># h_crashed s ''blockchain'' + mset (h_lost s)" and "sreach P reg blog s t"
    and "clean (view P blog rows t)"
  shows "(\<forall>x \<in> set (h_closed t). Id d \<notin> Id ` set (fst (snd x))) \<and>
     (\<forall>x. cas_GetDocFromDBByDocID (p_session P) (Id d) (s_db t) = Inr x \<longrightarrow>
        BlockDigest x \<in> {[], digest_of (table_of (rows (s_db s0))) (Id d)})"
proof -
  note st = sreach_trans [OF assms(5,7)]
  note store = logged_store.effective [OF assms(3)] and cql = logged_store.axioms(1) [OF assms(3)]
  note ref = refines [OF assms(1,2) store assms(4) st]
  have "d \<in># gone (h_crashed s) (h_lost s) ''blockchain''" using assms(6) by (simp add: gone_def)
  then have "d \<in># a_gone (view P blog rows t) ''blockchain''"
    using mset_subset_eqD [OF gone_grows [OF assms(7)]] by (simp add: view_def)
  then have no: "Id d \<notin> Id ` set (fst (snd x))" if "x \<in> set (h_closed t)" for x
    using gone_not_closed [OF areach_placed [OF ref] assms(8)] that by (simp add: view_closed)
  moreover have "faithful (table_of (rows (s_db s0))) (view P blog rows t)"
    by (rule view_faithful [OF assms(1,2) store cql assms(4) st covered_clean [OF assms(8)]])
  moreover have "digest_of (table_of (rows (s_db t))) (Id d) = BlockDigest x"
    if "cas_GetDocFromDBByDocID (p_session P) (Id d) (s_db t) = Inr x" for x
    using persist_contract.by_id [OF cql_store.contract [OF cql], of "Id d" "s_db t" x] that by (simp add: cassandra_persister_def digest_of_def)
  ultimately show ?thesis
    unfolding faithful_def view_table view_closed by (metis insertCI)
qed

definition run_crashed :: "((string \<times> bytes) list, string list, memdb) sys" where
  "run_crashed = run_stored\<lparr>s_cache := kafka_state [] toy_config run_periods run_log, s_bc := toy_bc, s_persist := p_init,
     h_crashed := (\<lambda>_. {#})(''blockchain'' := {#run_doc#})\<rparr>"

lemma run_crashed: "run_reach run_crashed"
proof -
  have "items_docs ([''tx'' \<mapsto> DocSlice [run_doc]] |` UNIV) = {#run_doc#}"
    by (simp add: items_docs_def)
  then have "in_memory run_stored = (\<lambda>_. {#})(''blockchain'' := {#run_doc#})"
    by (auto simp: fun_eq_iff in_memory_def in_registration_def in_storage_def pend_all_def chan_of_def run_stored_def
        run_recorded_def run_delivered_def run_start_def sys_start_def run_written_def p_init_def)
  moreover have "h_crashed run_stored = (\<lambda>_. {#})"
    by (simp add: run_stored_def run_recorded_def run_delivered_def run_start_def sys_start_def)
  moreover have "booted run_program (kafka_state [] toy_config run_periods run_log) toy_bc"
    using run_laws(4) by (auto simp: starts_def run_start_def sys_start_def booted_def)
  ultimately show ?thesis
    by - (rule run_step [OF run_stored sstep.restart [where k = "kafka_state [] toy_config run_periods run_log" and bc = toy_bc]],
       assumption, simp_all add: run_crashed_def, simp_all add: run_stored_def run_recorded_def
         run_delivered_def run_start_def sys_start_def kafka_state_def fun_eq_iff)
qed

theorem lost_document_never_proofed_witness:
  "h_crashed run_crashed ''blockchain'' = {#run_doc#} \<and>
   (\<exists>x. cas_GetDocFromDBByDocID mem_session (Id run_doc) (s_db run_crashed) = Inr x \<and> BlockDigest x = [])"
proof -
  have f: "h_crashed run_crashed ''blockchain'' = {#run_doc#}" "s_cache run_crashed = kafka_state [] toy_config run_periods run_log"
    "h_seen run_crashed = run_seen" "s_db run_crashed = run_db"
    by (simp_all add: run_crashed_def run_stored_def run_recorded_def run_delivered_def run_start_def sys_start_def)
  have c: "clean (view run_program (\<lambda>b. b) mem_rows run_crashed)"
    by (simp add: clean_def view_log view_seen f kafka_state_def run_log_docs)
  have "mem_rows run_db (Id run_doc) = Some (write_row (put_statement run_doc) (null_row (Id run_doc)))"
    by (simp add: run_db_def mem_session_def mem_rows_write upsert_def put_statement_def) (simp add: mem_rows_def)
  note get = run_get [OF this]
  have "digest_of (table_of (mem_rows (s_db run_start))) (Id run_doc) = []"
    by (simp add: run_start_def sys_start_def digest_of_def table_of_def mem_rows_def)
  with lost_document_never_proofed [OF run_laws(1,2) merging_storeD(1) [OF run_laws(3)] run_laws(4) run_crashed _ sreach.start c, of run_doc] get show ?thesis
    unfolding f run_fields by simp
qed

text \<open>
  C5. Nothing that is under way keeps a batch from being completed: in every reachable state, a
  batch that a tick has taken, which the chain accepts under a new transaction and reports in an
  event with its proof, can go through invocation, record, update and removal at once. The batch
  is closed under the key of the proof, the update is the only change of the database, and no
  other batch, document or handler is touched.
\<close>

theorem taken_batch_can_complete:
  fixes e :: ChaincodeEvent
  assumes "honest_chain (p_fabric P) (p_decode P) reg" and "starts P s0" and "sreach P reg blog s0 s"
    and "docs \<in> set (s_taken s)"
    and "register_invoke (sha256 (p_digests P)) (p_fabric P) docs (s_bc s) (s_world s) = (bc, w, Ret (Some (ev_TxID e)))"
    and "ev_TxID e \<notin> fst ` set (s_invoked s) \<union> dom (bc_items (s_bc s)) \<union> h_written s"
    and "p_results P (ev_Payload e) = Inr results" and "dom results \<subseteq> reg w"
    and "\<And>root h. results root = Some h \<Longrightarrow> h = p_proof P root"
    and "formatDocs (sha256 (p_digests P)) docs \<in> dom results"
    and "key = proofKey (p_digests P) (p_proof P (formatDocs (sha256 (p_digests P)) docs))"
    and "cas_SetDocsBlockDigest (p_session P) now (map Id docs) key (ev_TxID e) (s_db s) = (db, er)"
  shows "\<exists>t. sreach P reg blog s0 t \<and> h_closed t = (key, docs, er = None) # h_closed s \<and> s_db t = db \<and>
     bc_items (s_bc t) = bc_items (s_bc s) \<and> mset (s_taken s) = add_mset docs (mset (s_taken t)) \<and>
     s_invoked t = s_invoked s \<and> s_completing t = s_completing s \<and> s_cache t = s_cache s \<and> s_persist t = s_persist s"
proof -
  obtain xs ys where st: "s_taken s = xs @ docs # ys" using assms(4) by (meson split_list)
  let ?s1 = "s\<lparr>s_bc := bc\<lparr>bc_items := (bc_items (s_bc s))(ev_TxID e \<mapsto> DocSlice docs)\<rparr>, s_world := w, s_taken := xs @ ys\<rparr>"
  let ?t = "?s1\<lparr>s_bc := completed_delete (ev_TxID e) (s_bc ?s1), s_db := db, h_closed := (key, docs, er = None) # h_closed ?s1,
     h_written := insert (ev_TxID e) (h_written ?s1)\<rparr>"
  have "sreach P reg blog s ?s1"
    by (rule invoke_and_record [OF sreach_sinv [OF assms(1-3)] st assms(5,6)])
  moreover have "sreach P reg blog ?s1 ?t"
    by (rule complete_recorded [OF _ _ assms(7) _ assms(9-11)]) (use assms(6,8,12) in simp_all)
  ultimately have "sreach P reg blog s0 ?t" using sreach_trans assms(3) by blast
  moreover have "bc_items (s_bc ?t) = bc_items (s_bc s)"
    using assms(6) by (auto simp: completed_delete_def items_Delete_def fun_eq_iff)
  ultimately show ?thesis by (intro exI [of _ ?t]) (simp add: st)
qed

theorem taken_batch_can_complete_witness:
  "\<exists>t. run_reach t \<and> h_closed t = [(run_key, [run_doc], True)] \<and> s_taken t = [] \<and>
     s_db t = fst (cas_SetDocsBlockDigest mem_session 9 [Id run_doc] run_key ''tx'' [])"
proof -
  have f: "s_taken run_taken = [[run_doc]]" "s_bc run_taken = toy_bc" "s_world run_taken = []" "s_invoked run_taken = []"
    "h_written run_taken = {}" "h_closed run_taken = []" "s_db run_taken = []" "ev_TxID run_event = ''tx''"
    by (simp_all add: run_taken_def run_delivered_def run_start_def sys_start_def run_event_def)
  have ok: "cas_SetDocsBlockDigest mem_session 9 [Id run_doc] run_key ''tx'' []
      = (fst (cas_SetDocsBlockDigest mem_session 9 [Id run_doc] run_key ''tx'' []), None)"
    by (simp add: cas_SetDocsBlockDigest_def mem_session_def)
  have "\<exists>t. run_reach t \<and> h_closed t = (run_key, [run_doc], (None :: err option) = None) # h_closed run_taken \<and>
     s_db t = fst (cas_SetDocsBlockDigest mem_session 9 [Id run_doc] run_key ''tx'' []) \<and>
     bc_items (s_bc t) = bc_items (s_bc run_taken) \<and> mset (s_taken run_taken) = add_mset [run_doc] (mset (s_taken t)) \<and>
     s_invoked t = s_invoked run_taken \<and> s_completing t = s_completing run_taken \<and> s_cache t = s_cache run_taken \<and>
     s_persist t = s_persist run_taken"
    by (rule taken_batch_can_complete [where e = run_event and now = 9 and results = "[run_root \<mapsto> ''proof'']" and bc = toy_bc
          and w = "[run_root]", OF run_laws(1,4) run_taken])
       (use ok in \<open>simp_all add: f run_invoke run_bc run_key_def flip: run_root_def split: if_splits\<close>)
  then show ?thesis by (auto simp: f)
qed

text \<open>
  C33. What copies in a batch do: when the broker delivers a message again and both copies are
  registered in one batch, the registration of this batch does not make it verify. What is found under
  its key, if nothing but its documents, is fewer documents, each once, so the digest asked for is
  another one than that of the batch, and an honest chain answers yes only if it holds that other
  digest, because the documents found were also registered as a batch of their own.
\<close>

theorem redelivered_batch_rejected:
  assumes "cql_store S rows" and "cas_FindDocsByBlockDigest S key db = Inr found" and "found \<noteq> []"
    and "Id ` set found \<subseteq> Id ` set docs" and "\<not> distinct (map Id docs)"
    and "\<And>x. length (sha x) = Suc L" and "inj_on sha (batch_inputs sha found \<union> batch_inputs sha docs)"
    and "honest_chain F decode reg" and "peer_available F bc"
  shows "length found < length docs \<and> formatDocs sha found \<noteq> formatDocs sha docs \<and>
     (\<exists>bc' w'. VerifyDocs sha F decode found bc w = (bc', w', Ret (formatDocs sha found \<in> reg w)))"
proof -
  note pc = cql_store.contract [OF assms(1)]
  have f: "FindDocsByBlockDigest (cassandra_persister S) key db = Inr found"
    by (simp add: cassandra_persister_def assms(2))
  have "distinct (map Id found)" by (rule persist_contract.by_digest_ids_distinct [OF pc f])
  then have "length found = card (Id ` set found)" by (metis distinct_card length_map list.set_map)
  also have "\<dots> \<le> card (Id ` set docs)" by (rule card_mono [OF _ assms(4)]) simp
  also have "\<dots> < length docs"
    using assms(5) card_distinct [of "map Id docs"] card_length [of "map Id docs"] by (auto simp: order_less_le)
  finally have fewer: "length found < length docs" .
  then have "mset (map docString found) \<noteq> mset (map docString docs)"
    by (metis length_map less_irrefl size_mset)
  moreover have "docs \<noteq> []" using assms(5) by auto
  ultimately have "formatDocs sha found \<noteq> formatDocs sha docs"
    using formatDocs_binding [OF assms(6,7,3)] by blast
  moreover have "sha x \<noteq> []" for x using assms(6) [of x] by auto
  then have "formatDocs sha found \<noteq> []" by (rule formatDocs_nonempty [OF assms(3)])
  ultimately show ?thesis
    using fewer VerifyDocs_answer [OF assms(8,9), of sha found w] by auto
qed

theorem redelivered_batch_rejected_witness:
  "\<exists>bc' w'. VerifyDocs toy_sha toy_fabric (toy_decode {formatDocs toy_sha [stored_doc, stored_doc]})
     [stored_doc\<lparr>BlockDigest := ''dg'', ProofTime := 9, Txid := ''tx'', ProofStatus := ALREADY_PROOFED\<rparr>] toy_bc ()
     = (bc', w', Ret False)"
proof -
  let ?f = "stored_doc\<lparr>BlockDigest := ''dg'', ProofTime := 9, Txid := ''tx'', ProofStatus := ALREADY_PROOFED\<rparr>"
  let ?R = "{formatDocs toy_sha [stored_doc, stored_doc]}"
  have found: "cas_FindDocsByBlockDigest mem_session ''dg''
      (fst (cas_SetDocsBlockDigest mem_session 9 [''i''] ''dg'' ''tx'' stored_db)) = Inr [?f]"
    by code_simp
  have d: "docString stored_doc = ''i50''" "docString ?f = ''i50''"
    by code_simp+
  have "length [?f] < length [stored_doc, stored_doc] \<and> formatDocs toy_sha [?f] \<noteq> formatDocs toy_sha [stored_doc, stored_doc] \<and>
      (\<exists>bc' w'. VerifyDocs toy_sha toy_fabric (toy_decode ?R) [?f] toy_bc () = (bc', w', Ret (formatDocs toy_sha [?f] \<in> ?R)))"
    by (rule redelivered_batch_rejected [OF memdb.cql_store_axioms found _ _ _ _ _ toy_chain, where L = 3])
       (simp_all add: d batch_inputs_def mth_inputs.simps toy_sha_def mth.simps leafSum_def split_point.simps numeral_2_eq_2)
  then have "formatDocs toy_sha [?f] \<notin> ?R"
    and "\<exists>bc' w'. VerifyDocs toy_sha toy_fabric (toy_decode ?R) [?f] toy_bc () = (bc', w', Ret (formatDocs toy_sha [?f] \<in> ?R))"
    by blast+
  then show ?thesis by metis
qed
end
