(* ===== verification/DefaultService.thy ===== *)
theory DefaultService
  imports System Server
begin

text \<open>
  The service in its default configuration, over the cache in memory (\<open>default_cache_name\<close> in
  \<open>cache/cache.go\<close>), as a transition system like the one in \<open>System\<close>. The cache hands each document to
  one consumer only, so a document is either registered or stored. The theory follows what
  this means for the database and for every later question about a proof.
\<close>

section \<open>Runs\<close>

record ('w, 'db) dsys =
  d_cache :: MemoryCache
  d_bc :: Blockchain
  d_world :: 'w
  d_db :: 'db
  d_taken :: "document list list"
  d_invoked :: "(string \<times> document list) list"
  d_completing :: "(string \<times> document list \<times> string) list" \<comment> \<open>handlers that have read \<open>items\<close>\<close>
  d_deleting :: "string list"               \<comment> \<open>handlers that have written the database\<close>
  h_put :: "document list"                  \<comment> \<open>documents accepted\<close>
  h_out :: "(string \<times> document) list"       \<comment> \<open>documents handed out, with their consumer\<close>

text \<open>
  The persistence loop writes each fetched document at most once per batch, in whatever batches;
  the chain and the world may change in any way between the steps. The handlers of completion
  events run side by side in their three moments; a restart empties the memory.
\<close>

inductive mstep :: "digests \<Rightarrow> ('w, 'k) fabric \<Rightarrow> (bytes \<Rightarrow> err + (string \<Rightarrow> string option)) \<Rightarrow> 'db session
    \<Rightarrow> ('w, 'db) dsys \<Rightarrow> ('w, 'db) dsys \<Rightarrow> bool" for D F um S where
  submit: "MemoryCache.Put D now app raw meta w (d_cache s) = (m, Ret (Inr d)) \<Longrightarrow>
     mstep D F um S s (s\<lparr>d_cache := m, h_put := d # h_put s\<rparr>)"
| subscribe: "MemoryCache.Subscribe cu topic (d_cache s) = (m, b) \<Longrightarrow> mstep D F um S s (s\<lparr>d_cache := m\<rparr>)"
| tick_take: "order_ok order (d_cache s) (MemoryCache.Topic (Period per)) \<Longrightarrow>
     getDocsFromCache MemoryCache.Get MemoryCache.Topic order (d_bc s) per (d_cache s) = (m, Ret docs) \<Longrightarrow>
     mstep D F um S s (s\<lparr>d_cache := m, d_taken := docs # d_taken s,
        h_out := map (Pair (bc_name (d_bc s))) docs @ h_out s\<rparr>)"
| tick_invoke: "d_taken s = xs @ docs # ys \<Longrightarrow>
     register_invoke_shared (sha256 D) F turns docs (d_bc s) (d_world s) = (bc, w, Ret (Some txid)) \<Longrightarrow>
     mstep D F um S s (s\<lparr>d_bc := bc, d_world := w, d_taken := xs @ ys, d_invoked := (txid, docs) # d_invoked s\<rparr>)"
| tick_fail: "d_taken s = xs @ docs # ys \<Longrightarrow>
     register_invoke_shared (sha256 D) F turns docs (d_bc s) (d_world s) = (bc, w, Ret None) \<Longrightarrow>
     mstep D F um S s (s\<lparr>d_bc := bc, d_world := w, d_taken := xs @ ys\<rparr>)"
| tick_record: "d_invoked s = xs @ (txid, docs) # ys \<Longrightarrow> register_record txid docs (d_bc s) = (bc, Ret b) \<Longrightarrow>
     mstep D F um S s (s\<lparr>d_bc := bc, d_invoked := xs @ ys\<rparr>)"
| fetch: "order_ok order (d_cache s) (MemoryCache.Topic (Period per)) \<Longrightarrow>
     fetch_documents MemoryCache.Subscribe MemoryCache.Get MemoryCache.Topic order per (d_cache s) = (m, Ret docs) \<Longrightarrow>
     mstep D F um S s (s\<lparr>d_cache := m, h_out := map (Pair ''persister'') docs @ h_out s\<rparr>)"
| store: "distinct (map Id b) \<Longrightarrow> Pair ''persister'' ` set b \<subseteq> set (h_out s) \<Longrightarrow>
     cas_PutDocsIntoDB S b (d_db s) = (db, er) \<Longrightarrow> mstep D F um S s (s\<lparr>d_db := db\<rparr>)"
| complete_begin: "completed_begin D um e (d_bc s) = Inr (docs, key) \<Longrightarrow>
     mstep D F um S s (s\<lparr>d_completing := (ev_TxID e, docs, key) # d_completing s\<rparr>)"
| complete_write: "d_completing s = xs @ (txid, docs, key) # ys \<Longrightarrow>
     db = completed_write (cassandra_persister S) now docs key txid (d_db s) \<Longrightarrow>
     mstep D F um S s (s\<lparr>d_db := db, d_completing := xs @ ys, d_deleting := txid # d_deleting s\<rparr>)"
| complete_delete: "d_deleting s = xs @ txid # ys \<Longrightarrow>
     mstep D F um S s (s\<lparr>d_bc := completed_delete txid (d_bc s), d_deleting := xs @ ys\<rparr>)"
| verify: "execute_shared F turns ''query'' ''existence'' [''base'', root] (d_bc s) (d_world s) = (bc, w, r) \<Longrightarrow>
     mstep D F um S s (s\<lparr>d_bc := bc, d_world := w\<rparr>)"
| sign: "cas_SetDocSignature S i sg (d_db s) = (db, er) \<Longrightarrow> mstep D F um S s (s\<lparr>d_db := db\<rparr>)"
| world_moves: "mstep D F um S s (s\<lparr>d_world := w\<rparr>)"
| restart: "bc_name bc = ''blockchain'' \<Longrightarrow> bc_items bc = Map.empty \<Longrightarrow>
     mstep D F um S s (s\<lparr>d_cache := NewMemoryCache, d_bc := bc, d_taken := [], d_invoked := [], d_completing := [],
        d_deleting := []\<rparr>)"

text \<open>A start with an empty cache, nothing pending and an empty table.\<close>

definition default_start :: "('db \<Rightarrow> string \<Rightarrow> row option) \<Rightarrow> ('w, 'db) dsys \<Rightarrow> bool" where
  "default_start rows s \<longleftrightarrow> (\<exists>bc w db. s = \<lparr>d_cache = NewMemoryCache, d_bc = bc, d_world = w, d_db = db,
       d_taken = [], d_invoked = [], d_completing = [], d_deleting = [], h_put = [], h_out = []\<rparr> \<and>
     bc_name bc = ''blockchain'' \<and> bc_items bc = Map.empty \<and> rows db = Map.empty)"

inductive mreach :: "digests \<Rightarrow> ('w, 'k) fabric \<Rightarrow> (bytes \<Rightarrow> err + (string \<Rightarrow> string option)) \<Rightarrow> 'db session
    \<Rightarrow> ('db \<Rightarrow> string \<Rightarrow> row option) \<Rightarrow> ('w, 'db) dsys \<Rightarrow> bool" for D F um S rows where
  start: "default_start rows s \<Longrightarrow> mreach D F um S rows s"
| step: "mreach D F um S rows s \<Longrightarrow> mstep D F um S s t \<Longrightarrow> mreach D F um S rows t"

section \<open>Rows that nothing was stored in\<close>

text \<open>A row without the columns of an insert: no time, no period, no metadata, no hash.\<close>

definition bare :: "table \<Rightarrow> string \<Rightarrow> bool" where
  "bare t i \<longleftrightarrow> (\<forall>x. t i = Some x \<longrightarrow> SubmitTime x = 0 \<and> WaitDuration x = 0 \<and> Metadata x = [] \<and> Hash x = [])"

lemma bare_puts: "i \<notin> Id ` set ds \<Longrightarrow> bare (fold put_row ds t) i = bare t i"
  by (simp add: bare_def fold_put_row_other)

lemma bare_proves: "distinct ids \<Longrightarrow> bare t i \<Longrightarrow> bare (fold (prove_row now dg tx) ids t) i"
  by (auto simp: bare_def fold_prove_row) (auto simp: prove_row_def Let_def zero_doc_def split: option.splits)

lemma bare_sign: "bare t i \<Longrightarrow> bare (sign_row j sg t) i"
  by (auto simp: bare_def sign_row_def Let_def zero_doc_def split: option.splits if_splits)

section \<open>The invariant\<close>

abbreviation handed :: "(string \<times> document) list \<Rightarrow> string \<Rightarrow> document set" where
  "handed hs cu \<equiv> {d. (cu, d) \<in> set hs}"

definition batch_of :: "(string \<times> document) list \<Rightarrow> document list \<Rightarrow> bool" where
  "batch_of hs b \<longleftrightarrow> distinct (map Id b) \<and> set b \<subseteq> handed hs ''blockchain''"

text \<open>Only stored documents have more than a bare row, and only registered ones a digest.\<close>

definition split_table :: "(string \<times> document) list \<Rightarrow> table \<Rightarrow> bool" where
  "split_table hs t \<longleftrightarrow> (\<forall>i. bare t i \<or> i \<in> Id ` handed hs ''persister'') \<and>
     (\<forall>i. digest_of t i = [] \<or> i \<in> Id ` handed hs ''blockchain'')"

definition batches_ok :: "(string \<times> document) list \<Rightarrow> document list list \<Rightarrow> (string \<times> document list) list \<Rightarrow> items
    \<Rightarrow> (string \<times> document list \<times> string) list \<Rightarrow> bool" where
  "batches_ok hs tk iv its cm \<longleftrightarrow> list_all (batch_of hs) tk \<and> list_all (\<lambda>x. batch_of hs (snd x)) iv \<and>
     list_all (\<lambda>x. batch_of hs (fst (snd x))) cm \<and>
     (\<forall>v \<in> ran its. \<exists>ds. v = DocSlice ds \<and> batch_of hs ds)"

definition minv :: "digests \<Rightarrow> ('db \<Rightarrow> string \<Rightarrow> row option) \<Rightarrow> ('w, 'db) dsys \<Rightarrow> bool" where
  "minv D rows s \<longleftrightarrow> mem_run D (d_cache s) (h_put s) (h_out s) \<and> bc_name (d_bc s) = ''blockchain'' \<and>
     batches_ok (h_out s) (d_taken s) (d_invoked s) (bc_items (d_bc s)) (d_completing s) \<and>
     split_table (h_out s) (table_of (rows (d_db s)))"

lemma handed_mono:
  assumes "set hs \<subseteq> set hs'"
  shows "batches_ok hs tk iv its cm \<Longrightarrow> batches_ok hs' tk iv its cm"
    and "split_table hs tb \<Longrightarrow> split_table hs' tb"
proof -
  have b: "batch_of hs' b" if "batch_of hs b" for b
    using that assms unfolding batch_of_def by blast
  show "batches_ok hs tk iv its cm \<Longrightarrow> batches_ok hs' tk iv its cm"
    using b unfolding batches_ok_def list_all_iff by blast
  show "split_table hs tb \<Longrightarrow> split_table hs' tb"
    using assms unfolding split_table_def by blast
qed

lemma mem_run_inv: "mem_run D m ps hs \<Longrightarrow> cache_inv m"
proof (induction rule: mem_run.induct)
  case (put m ps hs now app raw meta w m' d)
  then show ?case using cache_inv_Put [of m D now app raw meta w] by simp
next
  case (get m ps hs order topic cu n m' ds)
  then show ?case using cache_inv_Get [of m order topic cu n] by simp
next
  case (get_none m ps hs order topic cu n m' e)
  then show ?case using cache_inv_Get [of m order topic cu n] by simp
next
  case start
  show ?case by (rule cache_inv_New)
next
  case (restart m ps hs)
  show ?case by (rule cache_inv_New)
qed (simp_all add: cache_inv_def MemoryCache.Close_def MemoryCache.Subscribe_def topic_docs_def Let_def)

text \<open>Taking documents for registration, and fetching them for storage, as steps of the cache.\<close>

lemma take_run:
  assumes "mem_run D c ps hs" and "order_ok order c (MemoryCache.Topic (Period per))"
    and "getDocsFromCache MemoryCache.Get MemoryCache.Topic order bc per c = (m, Ret docs)"
  shows "mem_run D m ps (map (Pair (bc_name bc)) docs @ hs)" and "distinct (map Id docs)"
proof -
  let ?get = "MemoryCache.Get order (bc_name bc) (MemoryCache.Topic (Period per)) (Limit per) c"
  consider "?get = (m, Ret (Inr docs))" | e where "?get = (m, Ret (Inl e))" "docs = []"
    using assms(3) by (auto simp: getDocsFromCache_def split: prod.splits outcome.splits sum.splits)
  then have "mem_run D m ps (map (Pair (bc_name bc)) docs @ hs) \<and> distinct (map Id docs)"
  proof cases
    case 1
    show ?thesis
      using mem_run.get [OF assms(1,2) 1] MemoryCache.Get_docs(1) [OF mem_run_inv [OF assms(1)] assms(2) 1] by simp
  next
    case 2
    then show ?thesis using mem_run.get_none [OF assms(1,2) 2(1)] by simp
  qed
  then show "mem_run D m ps (map (Pair (bc_name bc)) docs @ hs)" "distinct (map Id docs)" by blast+
qed

lemma fetch_run:
  assumes "mem_run D c ps hs" and "order_ok order c (MemoryCache.Topic (Period per))"
    and "fetch_documents MemoryCache.Subscribe MemoryCache.Get MemoryCache.Topic order per c = (m, Ret docs)"
  shows "mem_run D m ps (map (Pair ''persister'') docs @ hs)"
proof -
  let ?tp = "MemoryCache.Topic (Period per)"
  define c1 where "c1 = fst (MemoryCache.Subscribe ''persister'' ?tp c)"
  have run: "mem_run D c1 ps hs" unfolding c1_def by (rule mem_run.subscribe [OF assms(1)])
  have ord: "order_ok order c1 ?tp"
    using assms(2) by (simp add: c1_def order_ok_def topic_docs_def MemoryCache.Subscribe_def Let_def)
  consider "MemoryCache.Get order ''persister'' ?tp (Limit per) c1 = (m, Ret (Inr docs))"
    | e where "MemoryCache.Get order ''persister'' ?tp (Limit per) c1 = (m, Ret (Inl e))" "docs = []"
    using assms(3) unfolding c1_def
    by (auto simp: fetch_documents_def Let_def split: prod.splits bool.splits outcome.splits sum.splits)
  then show ?thesis
  proof cases
    case 1
    then show ?thesis by (rule mem_run.get [OF run ord])
  next
    case 2
    then show ?thesis using mem_run.get_none [OF run ord 2(1)] by simp
  qed
qed

lemma minv_start: "default_start rows s \<Longrightarrow> minv D rows s"
  by (auto simp: default_start_def minv_def batches_ok_def split_table_def bare_def digest_of_def table_of_def mem_run.start)

lemma minv_grows:
  assumes "minv D rows s" and "mem_run D m ps (new @ h_out s)" and "list_all (batch_of (new @ h_out s)) bs"
  shows "minv D rows (s\<lparr>d_cache := m, h_put := ps, h_out := new @ h_out s, d_taken := bs @ d_taken s\<rparr>)"
  using assms handed_mono [of "h_out s" "new @ h_out s"] by (auto simp: minv_def batches_ok_def)

section \<open>Every step keeps it\<close>

lemma execute_name: "execute_shared F turns m f args bc w = (bc', w', r) \<Longrightarrow> bc_name bc' = bc_name bc"
  by (auto simp: execute_shared_def Let_def split: prod.splits outcome.splits option.splits)

lemma register_invoke_name: "register_invoke_shared sha F turns docs bc w = (bc', w', r) \<Longrightarrow> bc_name bc' = bc_name bc"
  by (auto simp: register_invoke_shared_def Let_def dest!: execute_name
      split: if_splits prod.splits outcome.splits sum.splits)

lemma split_table_put:
  assumes "split_table hs t" and "Pair ''persister'' ` set b \<subseteq> set hs" and "t' \<in> effect ok (fold put_row b) t"
  shows "split_table hs t'"
proof -
  have ids: "Id ` set b \<subseteq> Id ` handed hs ''persister''" using assms(2) by blast
  have "t' = t \<or> t' = fold put_row b t" using assms(3) by (auto simp: effect_def split: if_splits)
  then show ?thesis
  proof
    assume t': "t' = fold put_row b t"
    have "bare t' i \<or> i \<in> Id ` handed hs ''persister''" for i
    proof (cases "i \<in> Id ` set b")
      case True
      then show ?thesis using ids by blast
    next
      case False
      then show ?thesis using assms(1) bare_puts [OF False] by (simp add: t' split_table_def)
    qed
    then show ?thesis using assms(1) by (simp add: t' split_table_def)
  qed (use assms(1) in simp)
qed

lemma split_table_prove:
  assumes "split_table hs t" and "batch_of hs docs"
    and "t' \<in> effect ok (fold (prove_row now key tx) (map Id docs)) t"
  shows "split_table hs t'"
proof -
  have d: "distinct (map Id docs)" "Id ` set docs \<subseteq> Id ` handed hs ''blockchain''"
    using assms(2) unfolding batch_of_def by blast+
  have "t' = t \<or> t' = fold (prove_row now key tx) (map Id docs) t"
    using assms(3) by (auto simp: effect_def split: if_splits)
  then show ?thesis
  proof
    assume t': "t' = fold (prove_row now key tx) (map Id docs) t"
    have "digest_of t' i = [] \<or> i \<in> Id ` handed hs ''blockchain''" for i
      using assms(1) d(2) by (auto simp: t' digest_fold_prove_row split_table_def)
    moreover have "bare t' i \<or> i \<in> Id ` handed hs ''persister''" for i
      using assms(1) bare_proves [OF d(1), of t i] unfolding t' split_table_def by blast
    ultimately show ?thesis unfolding split_table_def by blast
  qed (use assms(1) in simp)
qed

lemma split_table_sign:
  assumes "split_table hs t" and "t' \<in> effect ok (sign_row i sg) t"
  shows "split_table hs t'"
  using assms bare_sign [of t _ i sg] by (auto simp: effect_def split_table_def split: if_splits)

lemma batches_ok_perm:
  "batches_ok hs (xs @ docs # ys) iv its cm \<Longrightarrow> batches_ok hs (xs @ ys) iv its cm \<and> batch_of hs docs"
  "batches_ok hs tk (us @ u # vs) its cm \<Longrightarrow> batches_ok hs tk (us @ vs) its cm \<and> batch_of hs (snd u)"
  by (auto simp: batches_ok_def)

lemma batches_ok_begin:
  assumes "batches_ok hs tk iv (bc_items bc) cm" and "completed_begin D um e bc = Inr (docs, key)"
  shows "batches_ok hs tk iv (bc_items bc) ((ev_TxID e, docs, key) # cm)"
proof -
  obtain results h where "bc_items bc (ev_TxID e) = Some (DocSlice docs)" by (rule completed_begin_Inr [OF assms(2)])
  then have "DocSlice docs \<in> ran (bc_items bc)" by (rule ranI)
  then show ?thesis using assms(1) by (fastforce simp: batches_ok_def)
qed

lemma minv_step:
  assumes "logged_store S rows" and "minv D rows s" and "mstep D F um S s t"
  shows "minv D rows t"
  using assms(3)
proof (cases rule: mstep.cases)
  case (submit now app raw meta w m d)
  then show ?thesis using assms(2) by (auto simp: minv_def intro: mem_run.put)
next
  case (subscribe cu topic m b)
  have "mem_run D m (h_put s) (h_out s)"
    using mem_run.subscribe [of D "d_cache s" "h_put s" "h_out s" cu topic] assms(2) subscribe(2) by (simp add: minv_def)
  then show ?thesis using assms(2) by (simp add: subscribe(1) minv_def)
next
  case (tick_take order per m docs)
  have "mem_run D (d_cache s) (h_put s) (h_out s)" and name: "bc_name (d_bc s) = ''blockchain''"
    using assms(2) by (simp_all add: minv_def)
  note r = take_run [OF this(1) tick_take(2,3), unfolded name]
  have "batch_of (map (Pair ''blockchain'') docs @ h_out s) docs" using r(2) by (auto simp: batch_of_def)
  then have "list_all (batch_of (map (Pair ''blockchain'') docs @ h_out s)) [docs]" by simp
  from minv_grows [OF assms(2) r(1) this] show ?thesis by (simp add: tick_take(1) name minv_def)
next
  case (tick_invoke xs docs ys turns bc w txid)
  then show ?thesis
    using assms(2) register_invoke_shared_items [OF tick_invoke(3)] register_invoke_name [OF tick_invoke(3)]
      batches_ok_perm(1) [of "h_out s" xs docs ys]
    by (auto simp: minv_def batches_ok_def)
next
  case (tick_fail xs docs ys turns bc w)
  then show ?thesis
    using assms(2) register_invoke_shared_items [OF tick_fail(3)] register_invoke_name [OF tick_fail(3)]
      batches_ok_perm(1) [of "h_out s" xs docs ys]
    by (auto simp: minv_def batches_ok_def)
next
  case (tick_record xs txid docs ys bc b)
  have ok: "batches_ok (h_out s) (d_taken s) (xs @ (txid, docs) # ys) (bc_items (d_bc s)) (d_completing s)"
    using assms(2) by (simp add: minv_def tick_record(2))
  have "bc = (d_bc s)\<lparr>bc_items := (bc_items (d_bc s))(txid \<mapsto> DocSlice docs)\<rparr>"
    using register_record_Ret [OF tick_record(3)] ok unfolding batches_ok_def by blast
  then show ?thesis
    using assms(2) batches_ok_perm(2) [OF ok] by (auto simp: tick_record(1) minv_def batches_ok_def ran_def)
next
  case (fetch order per m docs)
  have "mem_run D (d_cache s) (h_put s) (h_out s)" using assms(2) by (simp add: minv_def)
  from minv_grows [OF assms(2) fetch_run [OF this fetch(2,3)], of "[]"] show ?thesis
    by (simp add: fetch(1) minv_def)
next
  case (store b db er)
  have "table_of (rows db) \<in> effect (snd (ExecuteBatch S (map put_statement b) (d_db s)) = None)
      (fold put_row b) (table_of (rows (d_db s)))"
    using logged_store.put_effect [OF assms(1) store(2), of "d_db s"] store(4) by simp
  from split_table_put [OF _ store(3) this] show ?thesis using assms(2) by (simp add: store(1) minv_def)
next
  case (complete_begin e docs key)
  have "batches_ok (h_out s) (d_taken s) (d_invoked s) (bc_items (d_bc s)) ((ev_TxID e, docs, key) # d_completing s)"
    using batches_ok_begin assms(2) complete_begin(2) by (simp add: minv_def)
  then show ?thesis using assms(2) by (simp add: complete_begin(1) minv_def)
next
  case (complete_write xs txid docs key ys db now)
  have ok: "batches_ok (h_out s) (d_taken s) (d_invoked s) (bc_items (d_bc s)) (xs @ (txid, docs, key) # ys)"
    using assms(2) by (simp add: minv_def complete_write(2))
  then have b: "batch_of (h_out s) docs" by (simp add: batches_ok_def)
  then have "distinct (map Id docs)" by (simp add: batch_of_def)
  from split_table_prove [OF _ b logged_store.prove_effect [OF assms(1) this]]
  have "split_table (h_out s) (table_of (rows db))"
    using assms(2) by (simp add: complete_write(3) completed_write_def cassandra_persister_def minv_def)
  then show ?thesis using assms(2) ok by (simp add: complete_write(1) minv_def batches_ok_def)
next
  case (complete_delete xs txid ys)
  have "ran ((bc_items (d_bc s))(txid := None)) \<subseteq> ran (bc_items (d_bc s))" by (auto simp: ran_def)
  then show ?thesis
    using assms(2) by (auto simp: complete_delete(1) minv_def batches_ok_def completed_delete_def items_Delete_def)
next
  case (verify turns root bc w r)
  then show ?thesis
    using assms(2) execute_shared_items [OF verify(2)] execute_name [OF verify(2)] by (simp add: minv_def)
next
  case (sign i sg db er)
  obtain ok where "table_of (rows db) \<in> effect ok (sign_row i sg) (table_of (rows (d_db s)))"
    using logged_store.sign_effect [OF assms(1), of i sg "d_db s"] sign(2) by auto
  from split_table_sign [OF _ this] show ?thesis using assms(2) by (simp add: sign(1) minv_def)
next
  case (world_moves w)
  then show ?thesis using assms(2) by (simp add: minv_def)
next
  case (restart bc)
  then show ?thesis using assms(2) mem_run.restart by (auto simp: minv_def batches_ok_def)
qed

lemma mreach_minv: "mreach D F um S rows s \<Longrightarrow> logged_store S rows \<Longrightarrow> minv D rows s"
  by (induction rule: mreach.induct) (auto intro: minv_start minv_step)

section \<open>What verification finds\<close>

lemma hd_dec_pos: "0 < n \<Longrightarrow> hd (dec_pos n) \<noteq> CHR ''0''"
proof (induction n rule: dec_pos.induct)
  case (1 n)
  show ?case
  proof (cases "n < 10")
    case True
    have "decdigit n \<noteq> decdigit 0" using True 1(2) by (simp only: decdigit_eq_iff) simp
    moreover have "decdigit 0 = CHR ''0''" by code_simp
    ultimately show ?thesis using True by (simp add: dec_pos_small)
  next
    case False
    then show ?thesis using "1.IH" by (simp add: dec_pos_large)
  qed
qed

lemma dec_starts_zero: "dec i @ xs = CHR ''0'' # ys \<Longrightarrow> i = 0"
proof (rule ccontr)
  assume e: "dec i @ xs = CHR ''0'' # ys" and "i \<noteq> 0"
  then have "hd (dec i) \<noteq> CHR ''0''" using hd_dec_pos [of i] by (auto simp: dec_def)
  moreover have "dec i \<noteq> []" by (simp add: dec_def)
  then have "hd (dec i) = CHR ''0''" using e by (cases "dec i") auto
  ultimately show False by simp
qed

lemma bare_docString: "bare t i \<Longrightarrow> t i = Some x \<Longrightarrow> docString x = Id x @ ''00''"
  by (simp add: bare_def docString_def dec_def dec_pos_small) code_simp

text \<open>Accepted documents: their identifiers have one length, and they are distinct by hypothesis.\<close>

lemma mem_run_ids: "mem_run D m ps hs \<Longrightarrow> digest_sizes D \<Longrightarrow> d \<in> set ps \<Longrightarrow> length (Id d) = 128"
proof (induction rule: mem_run.induct)
  case (put m ps hs now app raw meta w m' d')
  then show ?case
    using mem.put_doc [OF put(2)] by (auto simp: new_doc_def length_DocumentID)
qed simp_all

lemma handed_disjoint:
  assumes "mem_run D m ps hs" and "distinct (map Id ps)"
  shows "handed hs cu \<subseteq> set ps" and "cu \<noteq> cu' \<Longrightarrow> Id ` handed hs cu \<inter> Id ` handed hs cu' = {}"
proof -
  note st = stocked_run [OF assms, unfolded stocked_def]
  show "handed hs cu \<subseteq> set ps" using st by force
  have "inj_on (\<lambda>x. Id (snd x)) (set hs)" using st by (simp add: distinct_map)
  then show "cu \<noteq> cu' \<Longrightarrow> Id ` handed hs cu \<inter> Id ` handed hs cu' = {}"
    using inj_onD [of "\<lambda>x. Id (snd x)" "set hs" "(cu, _)" "(cu', _)"] by auto
qed

lemma mset_docString_differ:
  assumes "f \<in> set found" and "docString f = Id f @ ''00''"
    and "\<And>d. d \<in> set b \<Longrightarrow> length (Id d) = length (Id f) \<and> SubmitTime d \<noteq> 0"
  shows "mset (map docString found) \<noteq> mset (map docString b)"
proof
  assume e: "mset (map docString found) = mset (map docString b)"
  have "docString f \<in> set (map docString found)" using assms(1) by simp
  then have "docString f \<in> set (map docString b)" using mset_eq_setD [OF e] by simp
  then obtain d where d: "d \<in> set b" "docString d = docString f" by auto
  then have "dec (sint (SubmitTime d)) @ dec (sint (WaitDuration d)) @ Metadata d = ''00''"
    using assms(2) assms(3) [OF d(1)] by (simp add: docString_def)
  then have "sint (SubmitTime d) = 0" using dec_starts_zero by metis
  then show False using assms(3) [OF d(1)] by (simp add: signed_eq_0_iff)
qed

text \<open>No batch that the database holds under a digest verifies.\<close>

lemma found_never_verifies:
  assumes "logged_store S rows" and "mreach D F um S rows s" and "digest_sizes D"
    and "distinct (map Id (h_put s))" and "\<And>d. d \<in> set (h_put s) \<Longrightarrow> SubmitTime d \<noteq> 0"
    and "honest_chain F decode reg" and "peer_available F (d_bc s)"
    and "reg (d_world s) = formatDocs (sha256 D) ` B" and "\<And>b. b \<in> B \<Longrightarrow> b \<noteq> [] \<and> set b \<subseteq> set (h_put s)"
    and "cas_FindDocsByBlockDigest S key (d_db s) = Inr found" and "key \<noteq> []"
    and "inj_on (sha256 D) (\<Union>b \<in> insert found B. batch_inputs (sha256 D) b)"
  shows "snd (snd (VerifyDocs (sha256 D) F decode found (d_bc s) (d_world s))) \<noteq> Ret True"
proof (cases "found = []")
  case True
  then show ?thesis by (simp add: VerifyDocs_def formatDocs_def)
next
  case False
  then obtain f where f: "f \<in> set found" by (cases found) auto
  note inv = mreach_minv [OF assms(2,1), unfolded minv_def]
  note pc = cql_store.contract [OF logged_store.axioms(1) [OF assms(1)]]
  have "FindDocsByBlockDigest (cassandra_persister S) key (d_db s) = Inr found"
    by (simp add: cassandra_persister_def assms(10))
  from persist_contract.by_digest_member [OF pc this] f
  have row: "table_of (rows (d_db s)) (Id f) = Some f" "BlockDigest f = key" by auto
  then have "digest_of (table_of (rows (d_db s))) (Id f) \<noteq> []" using assms(11) by (simp add: digest_of_def)
  then have reg: "Id f \<in> Id ` handed (h_out s) ''blockchain''"
    using inv unfolding split_table_def by blast
  have run: "mem_run D (d_cache s) (h_put s) (h_out s)" using inv by blast
  have "Id f \<notin> Id ` handed (h_out s) ''persister''"
    using reg handed_disjoint(2) [OF run assms(4), of "''blockchain''" "''persister''"] by auto
  then have "bare (table_of (rows (d_db s))) (Id f)" using inv unfolding split_table_def by blast
  then have str: "docString f = Id f @ ''00''" using row(1) by (intro bare_docString [where t = "table_of (rows (d_db s))" and i = "Id f"])
  have "length (Id f) = 128"
    using reg handed_disjoint(1) [OF run assms(4)] mem_run_ids [OF run assms(3)] by force
  then have differ: "mset (map docString found) \<noteq> mset (map docString b)" if "b \<in> B" for b
    using assms(5,9) that mem_run_ids [OF run assms(3)] by (intro mset_docString_differ [OF f str]) auto
  have size: "\<And>x. length (sha256 D x) = 32" using digest_sizesD(1) [OF assms(3)] .
  have "formatDocs (sha256 D) found \<noteq> formatDocs (sha256 D) b" if "b \<in> B" for b
  proof -
    have "inj_on (sha256 D) (batch_inputs (sha256 D) found \<union> batch_inputs (sha256 D) b)"
      by (rule inj_on_subset [OF assms(12)]) (use that in auto)
    then show ?thesis using formatDocs_binding [of "sha256 D" 32 found b] size False differ [OF that] assms(9) [OF that] by simp
  qed
  then have "formatDocs (sha256 D) found \<notin> reg (d_world s)" by (auto simp: assms(8))
  moreover have "formatDocs (sha256 D) found \<noteq> []"
    by (rule formatDocs_nonempty [OF False sha256_nonempty [OF assms(3)]])
  ultimately show ?thesis using VerifyDocs_answer [OF assms(6,7), of "sha256 D" found "d_world s"] by auto
qed

section \<open>Properties\<close>

text \<open>
  C9. In the default configuration no proof is ever valid. Over the cache in memory, from an empty
  database, whatever was submitted, registered, completed and stored, with handlers side by side and
  with restarts: no request for the proof
  of a document is answered with 200. The cache hands a document to one consumer, so the row of a
  registered document was never inserted, the update of the proof creates a row without time,
  period and hash, and the digest of such rows is not the registered one.
\<close>

theorem default_service_never_valid:
  assumes "logged_store S rows" and "mreach D F um S rows s" and "digest_sizes D"
    and "distinct (map Id (h_put s))" and "\<And>d. d \<in> set (h_put s) \<Longrightarrow> SubmitTime d \<noteq> 0"
    and "honest_chain F decode reg" and "peer_available F (d_bc s)"
    and "reg (d_world s) = formatDocs (sha256 D) ` B" and "\<And>b. b \<in> B \<Longrightarrow> b \<noteq> [] \<and> set b \<subseteq> set (h_put s)"
    and "\<And>key found. cas_FindDocsByBlockDigest S key (d_db s) = Inr found \<Longrightarrow>
       inj_on (sha256 D) (\<Union>b \<in> insert found B. batch_inputs (sha256 D) b)"
    and "env_persister V = cassandra_persister S" and "env_digests V = D" and "env_fabric V = F" and "env_decode V = decode"
    and "srv_bc v = d_bc s" and "srv_world v = d_world s"
  shows "snd (snd (getProofResult V i (d_db s) v)) \<noteq> Ret (200, body) \<and>
     snd (snd (postProofResult V (Inr raw) (d_db s) v)) \<noteq> Ret (200, body)"
proof -
  note never = found_never_verifies [OF assms(1-9) _ _ assms(10)]
  have "snd (snd (getProofResult V i (d_db s) v)) \<noteq> Ret (200, body)"
  proof
    obtain v' sp a where g: "getProofResult V i (d_db s) v = (v', sp, a)" by (metis prod_cases3)
    assume "snd (snd (getProofResult V i (d_db s) v)) = Ret (200, body)"
    with g have "getProofResult V i (d_db s) v = (v', sp, Ret (200, body))" by simp
    then show False
      by (rule getProofResult_200) (use never in \<open>simp add: assms(11-16) cassandra_persister_def\<close>)
  qed
  moreover have "snd (snd (postProofResult V (Inr raw) (d_db s) v)) \<noteq> Ret (200, body)"
  proof
    obtain v' sp a where g: "postProofResult V (Inr raw) (d_db s) v = (v', sp, a)" by (metis prod_cases3)
    assume "snd (snd (postProofResult V (Inr raw) (d_db s) v)) = Ret (200, body)"
    with g have "postProofResult V (Inr raw) (d_db s) v = (v', sp, Ret (200, body))" by simp
    then show False
      by (rule postProofResult_200) (use never in \<open>simp add: assms(11-16) cassandra_persister_def\<close>)
  qed
  ultimately show ?thesis by blast
qed

text \<open>A run with one document: submitted, taken, invoked, recorded and completed.\<close>

definition w_digests :: digests where
  "w_digests = toy_digests\<lparr>sha256 := (\<lambda>x. take 32 (rev x @ replicate 32 CHR ''.''))\<rparr>"

lemma w_digests: "digest_sizes w_digests" "sha256 w_digests = (\<lambda>x. take 32 (rev x @ replicate 32 CHR ''.''))"
  by (auto simp: digest_sizes_def w_digests_def toy_digests_def min_def)

definition w_doc :: document where
  "w_doc = new_doc w_digests (time_Unix 1) ''app'' ''abc'' ''m'' 1000000000"

definition w_cache :: MemoryCache where
  "w_cache = fst (MemoryCache.Put w_digests (time_Unix 1) ''app'' ''abc'' ''m'' 1000000000 NewMemoryCache)"

definition w_root :: string where
  "w_root = formatDocs (sha256 w_digests) [w_doc]"

definition w_key :: string where
  "w_key = proofKey w_digests ''proof''"

abbreviation w_topic :: string where
  "w_topic \<equiv> MemoryCache.Topic 1000000000"

definition w_taken :: MemoryCache where
  "w_taken = fst (MemoryCache.Get [Id w_doc] ''blockchain'' w_topic 5 w_cache)"

definition w_state :: "MemoryCache \<Rightarrow> items \<Rightarrow> memdb \<Rightarrow> document list list \<Rightarrow> (string \<times> document list) list
    \<Rightarrow> document list \<Rightarrow> (string \<times> document) list \<Rightarrow> (unit, memdb) dsys" where
  "w_state c its db tk iv ps hs = \<lparr>d_cache = c, d_bc = toy_bc\<lparr>bc_items := its\<rparr>, d_world = (), d_db = db,
     d_taken = tk, d_invoked = iv, d_completing = [], d_deleting = [], h_put = ps, h_out = hs\<rparr>"

definition w_db :: memdb where
  "w_db = fst (cas_SetDocsBlockDigest mem_session 9 [Id w_doc] w_key ''tx'' [])"

definition w_end :: "(unit, memdb) dsys" where
  "w_end = w_state w_taken Map.empty w_db [] [] [w_doc] [(''blockchain'', w_doc)]"

lemma w_cache:
  "MemoryCache.Put w_digests (time_Unix 1) ''app'' ''abc'' ''m'' 1000000000 NewMemoryCache = (w_cache, Ret (Inr w_doc))"
  "order_ok [Id w_doc] w_cache w_topic"
  "MemoryCache.Get [Id w_doc] ''blockchain'' w_topic 5 w_cache = (w_taken, Ret (Inr [w_doc]))"
proof -
  show "MemoryCache.Put w_digests (time_Unix 1) ''app'' ''abc'' ''m'' 1000000000 NewMemoryCache = (w_cache, Ret (Inr w_doc))"
    by (simp add: w_cache_def w_doc_def MemoryCache.Put_def Let_def)
  have v: "vals w_cache = [w_topic \<mapsto> [Id w_doc \<mapsto> w_doc]]" "customerTopics w_cache = Map.empty" "customerReaded w_cache = Map.empty"
    by (simp_all add: w_cache_def w_doc_def MemoryCache.Put_def Let_def NewMemoryCache_def)
  then show "order_ok [Id w_doc] w_cache w_topic"
    by (simp add: order_ok_def topic_docs_def)
  have "snd (MemoryCache.Get [Id w_doc] ''blockchain'' w_topic 5 w_cache) = Ret (Inr [w_doc])"
    by (simp add: MemoryCache.Get_def subscribed_def v MemoryCache.Subscribe_def Let_def entries_def
        List.map_filter_def readed_def)
  then show "MemoryCache.Get [Id w_doc] ''blockchain'' w_topic 5 w_cache = (w_taken, Ret (Inr [w_doc]))"
    by (simp add: w_taken_def prod_eq_iff)
qed

lemma w_invoke:
  "register_invoke (sha256 w_digests) toy_fabric [w_doc] (toy_bc\<lparr>bc_items := its\<rparr>) () = (toy_bc\<lparr>bc_items := its\<rparr>, (), Ret (Some ''tx''))"
proof -
  let ?bc = "toy_bc\<lparr>bc_items := its\<rparr>"
  have "w_root \<noteq> []"
    unfolding w_root_def by (rule formatDocs_nonempty) (simp_all add: sha256_nonempty [OF w_digests(1)])
  moreover have "connect_loop toy_fabric ?bc 0 (peerBackend ?bc) () = (peerBackend ?bc, (), Ret (Some ()))"
    by (subst connect_loop_simps)
       (simp add: toy_bc_def Len_def ring_Len_def Choose_Some getGrpcConn_def toy_fabric_def numeral_eq_Suc)
  ultimately show ?thesis
    by (simp add: register_invoke_eq execute_def execute_shared_def flip: connect_loop_def add: w_root_def Let_def) (simp add: toy_fabric_def toSpec_def toy_bc_def)
qed

abbreviation w_results :: "bytes \<Rightarrow> err + (string \<Rightarrow> string option)" where
  "w_results \<equiv> \<lambda>b. Inr [w_root \<mapsto> ''proof'']"

lemma w_step:
  "mreach w_digests toy_fabric w_results mem_session mem_rows s \<Longrightarrow> mstep w_digests toy_fabric w_results mem_session s t' \<Longrightarrow>
     t' = t \<Longrightarrow> mreach w_digests toy_fabric w_results mem_session mem_rows t"
  by (blast intro: mreach.step)

lemma w_run: "mreach w_digests toy_fabric w_results mem_session mem_rows w_end"
proof -
  let ?per = "\<lparr>Period = 1000000000, Limit = 5\<rparr>" and ?its = "[''tx'' \<mapsto> DocSlice [w_doc]]" and ?hs = "[(''blockchain'', w_doc)]"
  have name: "bc_name toy_bc = ''blockchain''" "bc_items toy_bc = Map.empty" by (simp_all add: toy_bc_def)
  have "default_start mem_rows (w_state NewMemoryCache Map.empty [] [] [] [] [])"
    using name by (auto simp: default_start_def w_state_def mem_rows_def)
  then have "mreach w_digests toy_fabric w_results mem_session mem_rows (w_state NewMemoryCache Map.empty [] [] [] [] [])"
    by (rule mreach.start)
  then have "mreach w_digests toy_fabric w_results mem_session mem_rows (w_state w_cache Map.empty [] [] [] [w_doc] [])"
    by (rule w_step [OF _ mstep.submit [where now = "time_Unix 1" and app = "''app''" and raw = "''abc''" and meta = "''m''"
          and w = 1000000000 and d = w_doc and m = w_cache]]) (simp_all add: w_state_def w_cache(1))
  then have "mreach w_digests toy_fabric w_results mem_session mem_rows (w_state w_taken Map.empty [] [[w_doc]] [] [w_doc] ?hs)"
    by (rule w_step [OF _ mstep.tick_take [where per = ?per and order = "[Id w_doc]" and docs = "[w_doc]" and m = w_taken]])
       (simp_all add: w_state_def w_cache(2,3) getDocsFromCache_def name)
  then have "mreach w_digests toy_fabric w_results mem_session mem_rows (w_state w_taken Map.empty [] [] [(''tx'', [w_doc])] [w_doc] ?hs)"
    by (rule w_step [OF _ mstep.tick_invoke [where turns = "\<lambda>_. 0" and xs = "[]" and docs = "[w_doc]" and ys = "[]"]])
       (simp_all add: w_state_def w_invoke [unfolded register_invoke_def])
  then have "mreach w_digests toy_fabric w_results mem_session mem_rows (w_state w_taken ?its [] [] [] [w_doc] ?hs)"
    by (rule w_step [OF _ mstep.tick_record [where xs = "[]" and docs = "[w_doc]" and ys = "[]" and txid = "''tx''" and b = True]])
       (simp_all add: w_state_def register_record_def items_Set_def)
  then have "mreach w_digests toy_fabric w_results mem_session mem_rows
      ((w_state w_taken ?its [] [] [] [w_doc] ?hs)\<lparr>d_completing := [(''tx'', [w_doc], w_key)]\<rparr>)"
    by (rule w_step [OF _ mstep.complete_begin [where e = tx_event and docs = "[w_doc]" and key = w_key]])
       (simp_all add: w_state_def completed_begin_def tx_event_def items_Get_def Let_def w_key_def flip: w_root_def)
  then have "mreach w_digests toy_fabric w_results mem_session mem_rows
      ((w_state w_taken ?its w_db [] [] [w_doc] ?hs)\<lparr>d_deleting := [''tx'']\<rparr>)"
    by (rule w_step [OF _ mstep.complete_write [where xs = "[]" and ys = "[]" and txid = "''tx''" and docs = "[w_doc]"
          and key = w_key and now = 9 and db = w_db]])
       (simp_all add: w_state_def w_db_def completed_write_def cassandra_persister_def)
  then show ?thesis
    by (rule w_step [OF _ mstep.complete_delete [where xs = "[]" and ys = "[]" and txid = "''tx''"]])
       (simp_all add: w_state_def w_end_def completed_delete_def items_Delete_def)
qed

lemma w_found:
  assumes "cas_FindDocsByBlockDigest mem_session key w_db = Inr found"
  shows "found = [] \<or> (\<exists>f. found = [f] \<and> docString f = Id w_doc @ ''00'')"
proof -
  have "mem_rows w_db = [Id w_doc \<mapsto> write_row (UpdateProof w_key 9 ''tx'' ALREADY_PROOFED (Id w_doc)) (null_row (Id w_doc))]"
    by (simp add: w_db_def cas_SetDocsBlockDigest_def mem_session_def mem_rows_write upsert_def mem_rows_def [of "[]"])
  then have t: "table_of (mem_rows w_db) = [Id w_doc \<mapsto> scan_row (write_row (UpdateProof w_key 9 ''tx'' ALREADY_PROOFED (Id w_doc)) (null_row (Id w_doc)))]"
    by (simp add: table_of_def fun_eq_iff)
  have s: "docString (scan_row (write_row (UpdateProof k 9 ''tx'' ALREADY_PROOFED i) (null_row i))) = i @ ''00''" for k i
    by (simp add: docString_def scan_row_def null_row_def dec_def dec_pos_small) code_simp
  have "FindDocsByBlockDigest (cassandra_persister mem_session) key w_db = Inr found"
    by (simp add: cassandra_persister_def assms)
  from persist_contract.by_digest [OF memdb.contract this]
  have d: "distinct found" "set found \<subseteq> ran (table_of (mem_rows w_db))" by auto
  show ?thesis
  proof (cases found)
    case (Cons f fs)
    then have f: "f \<in> ran (table_of (mem_rows w_db))" "set fs \<subseteq> ran (table_of (mem_rows w_db)) - {f}"
      using d by auto
    then have "fs = []" unfolding t by auto
    moreover have "docString f = Id w_doc @ ''00''" using f(1) s unfolding t by auto
    ultimately show ?thesis using Cons by simp
  qed simp
qed

lemma w_sha: "inj_on (sha256 w_digests) {xs @ ''m'', ys @ ''0'', [c]}" if "c \<notin> {CHR ''m'', CHR ''0''}"
  using that by (auto simp: w_digests(2) inj_on_def)

definition w_env :: "(memdb, unit, unit, int, int, string) server_env" where
  "w_env = (toy_env (cassandra_persister mem_session))\<lparr>env_digests := w_digests, env_decode := toy_decode {w_root}\<rparr>"

theorem default_service_never_valid_witness:
  "digest_of (table_of (mem_rows (d_db w_end))) (Id w_doc) = w_key \<and>
   (\<forall>body. snd (snd (getProofResult w_env (Id w_doc) (d_db w_end) toy_server)) \<noteq> Ret (200, body) \<and>
      snd (snd (postProofResult w_env (Inr ''abc'') (d_db w_end) toy_server)) \<noteq> Ret (200, body))"
proof
  have str: "docString w_doc = (Id w_doc @ ''10000000001000000000'') @ ''m''"
  proof -
    have "dec (sint (SubmitTime w_doc)) = ''1000000000''" "dec (sint (WaitDuration w_doc)) = ''1000000000''"
      "Metadata w_doc = ''m''"
      by (simp_all add: w_doc_def new_doc_def) code_simp+
    then show ?thesis by (simp add: docString_def)
  qed
  show "digest_of (table_of (mem_rows (d_db w_end))) (Id w_doc) = w_key"
    by (simp add: w_end_def w_state_def w_db_def cas_SetDocsBlockDigest_def mem_session_def mem_rows_write upsert_def
        mem_rows_def [of "[]"] digest_of_def table_of_def scan_row_def null_row_def)
  have f: "h_put w_end = [w_doc]" "d_bc w_end = toy_bc" "d_world w_end = ()" "d_db w_end = w_db"
    by (simp_all add: w_end_def w_state_def) (simp add: toy_bc_def)
  have st: "SubmitTime w_doc \<noteq> 0" by (simp add: w_doc_def new_doc_def) code_simp
  have inj: "inj_on (sha256 w_digests) (\<Union>b \<in> insert found {[w_doc]}. batch_inputs (sha256 w_digests) b)"
    if found: "cas_FindDocsByBlockDigest mem_session key w_db = Inr found" for key found
  proof -
    have "(\<Union>b \<in> insert found {[w_doc]}. batch_inputs (sha256 w_digests) b)
        \<subseteq> {(CHR 0x00 # Id w_doc @ ''10000000001000000000'') @ ''m'', (CHR 0x00 # Id w_doc @ ''0'') @ ''0'', [CHR 0x00]}"
      using w_found [OF found] by (auto simp: batch_inputs_def mth_inputs.simps str)
    with w_sha show ?thesis by (rule inj_on_subset) simp
  qed
  show "\<forall>body. snd (snd (getProofResult w_env (Id w_doc) (d_db w_end) toy_server)) \<noteq> Ret (200, body) \<and>
      snd (snd (postProofResult w_env (Inr ''abc'') (d_db w_end) toy_server)) \<noteq> Ret (200, body)"
  proof
    show "snd (snd (getProofResult w_env (Id w_doc) (d_db w_end) toy_server)) \<noteq> Ret (200, body) \<and>
      snd (snd (postProofResult w_env (Inr ''abc'') (d_db w_end) toy_server)) \<noteq> Ret (200, body)" for body
      by (rule default_service_never_valid [where B = "{[w_doc]}" and reg = "\<lambda>_. {w_root}",
            OF memdb.logged_store_axioms w_run w_digests(1) _ _ toy_chain(1)])
         (use st inj toy_chain(2) in \<open>auto simp: f w_root_def w_env_def toy_env_def toy_server_def\<close>)
  qed
qed

end
