(* ===== verification/Driver.thy ===== *)
theory Driver
  imports Server
begin

text \<open>
  The integration test driver, \<open>integration-tests/main.go\<close>: it registers documents over HTTP, waits,
  and panics unless each of them is proved in time. The HTTP client (\<open>gorequest\<close>), the random
  strings and the JSON decoder are parameters. The goroutines of \<open>main\<close> are a transition system
  with the semaphore and the wait group; a panic of one of them ends the process.
\<close>

section \<open>The requests of the driver\<close>

definition api_doc_reg :: string where
  "api_doc_reg = ''/poe/v1/documents''"

definition api_doc_proof_status :: "string \<Rightarrow> string" where
  "api_doc_proof_status i = ''/poe/v1/documents/'' @ i @ ''/status''"

definition api_doc_proof_result :: string where
  "api_doc_proof_result = ''/poe/v1/documents/result''"

text \<open>
  The client: a request with its fields gives the body of the response or a list of errors; the
  decoder reads the body as one of the three response structs.
\<close>

record 'w http =
  http_Send :: "verb \<Rightarrow> string \<Rightarrow> (string \<times> string) list \<Rightarrow> 'w \<Rightarrow> 'w \<times> (err list + bytes)"
  dec_submit :: "bytes \<Rightarrow> err + (string \<times> i64)"
  dec_status :: "bytes \<Rightarrow> err + GetProofStatusResponse"
  dec_proof :: "bytes \<Rightarrow> err + GetProofResponse"

text \<open>\<open>EndStruct\<close>: errors of the request, then errors of the decoder; the struct starts empty.\<close>

definition EndStruct :: "(bytes \<Rightarrow> err + 'a) \<Rightarrow> 'a \<Rightarrow> 'w \<times> (err list + bytes) \<Rightarrow> 'w \<times> err list \<times> 'a" where
  "EndStruct decode zero answer =
     (case answer of
        (w, Inl errs) \<Rightarrow> (w, errs, zero)
      | (w, Inr b) \<Rightarrow> (case decode b of Inl e \<Rightarrow> (w, [e], zero) | Inr v \<Rightarrow> (w, [], v)))"

definition docRegister :: "'w http \<Rightarrow> string \<Rightarrow> string \<Rightarrow> string \<Rightarrow> 'w \<Rightarrow> 'w \<times> string outcome" where
  "docRegister H host wp raw w =
     (case EndStruct (dec_submit H) ([], 0)
             (http_Send H POST (host @ api_doc_reg) [(''proofWaitPeriod'', wp), (''rawDocument'', raw)] w) of
        (w', e # _, _) \<Rightarrow> (w', Panic e)
      | (w', [], resp) \<Rightarrow> (w', Ret (fst resp)))"

definition docProofStatus :: "'w http \<Rightarrow> string \<Rightarrow> string \<Rightarrow> 'w \<Rightarrow> 'w \<times> GetProofStatusResponse outcome" where
  "docProofStatus H host docId w =
     (case EndStruct (dec_status H) empty_status (http_Send H GET (host @ api_doc_proof_status docId) [] w) of
        (w', e # _, _) \<Rightarrow> (w', Panic e)
      | (w', [], resp) \<Rightarrow>
          if ps_Status resp = ''none'' then (w', Panic (''document['' @ docId @ ''] has not been accepted by poe''))
          else (w', Ret resp))"

definition docProofResult :: "'w http \<Rightarrow> string \<Rightarrow> string \<Rightarrow> 'w \<Rightarrow> 'w \<times> GetProofResponse outcome" where
  "docProofResult H host raw w =
     (case EndStruct (dec_proof H) empty_proof (http_Send H POST (host @ api_doc_proof_result) [(''rawDocument'', raw)] w) of
        (w', e # _, _) \<Rightarrow> (w', Panic e)
      | (w', [], resp) \<Rightarrow>
          if pr_Status resp = ''none'' \<or> pr_Status resp = ''invalid'' then (w', Panic ''document proof failure.'')
          else (w', Ret resp))"

text \<open>What a goroutine does before and after the waiting period.\<close>

definition register_document ::
    "'w http \<Rightarrow> string \<Rightarrow> string \<Rightarrow> err + string \<Rightarrow> 'w \<Rightarrow> 'w \<times> (string \<times> string) outcome" where
  "register_document H host wp rnd w =
     (case rnd of
        Inl e \<Rightarrow> (w, Panic e)
      | Inr raw \<Rightarrow> (case docRegister H host wp raw w of
            (w', Ret docId) \<Rightarrow> (w', Ret (raw, docId))
          | (w', Panic e) \<Rightarrow> (w', Panic e)
          | (w', Fatal e) \<Rightarrow> (w', Fatal e)))"

definition check_document :: "'w http \<Rightarrow> string \<Rightarrow> string \<Rightarrow> string \<Rightarrow> 'w \<Rightarrow> 'w \<times> unit outcome" where
  "check_document H host raw docId w =
     (case docProofStatus H host docId w of
        (w1, Panic e) \<Rightarrow> (w1, Panic e)
      | (w1, Fatal e) \<Rightarrow> (w1, Fatal e)
      | (w1, Ret status) \<Rightarrow>
          if ps_Status status = ''wait'' then (w1, Panic (''document['' @ docId @ ''] hasn't been proofed''))
          else (case docProofResult H host raw w1 of
              (w2, Panic e) \<Rightarrow> (w2, Panic e)
            | (w2, Fatal e) \<Rightarrow> (w2, Fatal e)
            | (w2, Ret proofResult) \<Rightarrow>
                if pr_Status proofResult = ''wait'' then (w2, Panic (''document['' @ docId @ ''] proof too slow''))
                else (w2, Ret ())))"

section \<open>The run of the driver\<close>

datatype task = Started | Registered string string | Passed string

record 'w driver =
  drv_i :: nat                  \<comment> \<open>iterations of the loop\<close>
  drv_permits :: nat            \<comment> \<open>tokens in the channel of the semaphore\<close>
  drv_wg :: nat                 \<comment> \<open>counter of the wait group\<close>
  drv_tasks :: "task list"
  drv_world :: 'w
  drv_panic :: bool

text \<open>\<open>main\<close> up to its loop; a negative size of the channel or of the wait group panics.\<close>

definition driver_main :: "parse_duration \<Rightarrow> int \<Rightarrow> int \<Rightarrow> string \<Rightarrow> 'w \<Rightarrow> ('w driver \<times> i64) outcome" where
  "driver_main pd concurrency tn wp w =
     (if concurrency < 0 then Panic ''makechan: size out of range''
      else case pd wp of
          Inl e \<Rightarrow> Panic e
        | Inr wpDuration \<Rightarrow>
            if tn < 0 then Panic ''sync: negative WaitGroup counter''
            else Ret (\<lparr>drv_i = 0, drv_permits = 0, drv_wg = nat tn, drv_tasks = [], drv_world = w,
                        drv_panic = False\<rparr>, wpDuration))"

text \<open>
  One step of the process: the loop starts a goroutine when the semaphore lets it, a goroutine
  registers its document, the timer of a document fires and checks it, or the world goes on.
\<close>

inductive dstep :: "'w http \<Rightarrow> string \<Rightarrow> string \<Rightarrow> nat \<Rightarrow> nat \<Rightarrow> 'w driver \<Rightarrow> 'w driver \<Rightarrow> bool"
  for H host wp concurrency tn where
  loop: "\<not> drv_panic d \<Longrightarrow> drv_i d < tn \<Longrightarrow> drv_permits d < concurrency \<Longrightarrow>
    dstep H host wp concurrency tn d
      (d\<lparr>drv_i := drv_i d + 1, drv_permits := drv_permits d + 1, drv_tasks := drv_tasks d @ [Started]\<rparr>)"
| registered: "\<not> drv_panic d \<Longrightarrow> k < length (drv_tasks d) \<Longrightarrow> drv_tasks d ! k = Started \<Longrightarrow>
    register_document H host wp rnd (drv_world d) = (w', Ret (raw, docId)) \<Longrightarrow>
    dstep H host wp concurrency tn d
      (d\<lparr>drv_tasks := (drv_tasks d)[k := Registered raw docId], drv_world := w'\<rparr>)"
| not_registered: "\<not> drv_panic d \<Longrightarrow> k < length (drv_tasks d) \<Longrightarrow> drv_tasks d ! k = Started \<Longrightarrow>
    register_document H host wp rnd (drv_world d) = (w', Panic e) \<Longrightarrow>
    dstep H host wp concurrency tn d (d\<lparr>drv_world := w', drv_panic := True\<rparr>)"
| passed: "\<not> drv_panic d \<Longrightarrow> 0 < drv_permits d \<Longrightarrow> 0 < drv_wg d \<Longrightarrow> k < length (drv_tasks d) \<Longrightarrow> drv_tasks d ! k = Registered raw docId \<Longrightarrow>
    check_document H host raw docId (drv_world d) = (w', Ret ()) \<Longrightarrow>
    dstep H host wp concurrency tn d
      (d\<lparr>drv_tasks := (drv_tasks d)[k := Passed raw], drv_world := w', drv_permits := drv_permits d - 1,
         drv_wg := drv_wg d - 1\<rparr>)"
| failed: "\<not> drv_panic d \<Longrightarrow> k < length (drv_tasks d) \<Longrightarrow> drv_tasks d ! k = Registered raw docId \<Longrightarrow>
    check_document H host raw docId (drv_world d) = (w', Panic e) \<Longrightarrow>
    dstep H host wp concurrency tn d (d\<lparr>drv_world := w', drv_panic := True\<rparr>)"

definition driver_env :: "'w driver \<Rightarrow> 'w driver \<Rightarrow> bool" where
  "driver_env d d' \<longleftrightarrow> (\<exists>w. d' = d\<lparr>drv_world := w\<rparr>)"

inductive dreach :: "'w http \<Rightarrow> string \<Rightarrow> string \<Rightarrow> nat \<Rightarrow> nat \<Rightarrow> 'w \<Rightarrow> 'w driver \<Rightarrow> bool"
  for H host wp concurrency tn w0 where
  begin_main: "driver_main pd (int concurrency) (int tn) wp w0 = Ret (d, dur) \<Longrightarrow> dreach H host wp concurrency tn w0 d"
| step: "dreach H host wp concurrency tn w0 d \<Longrightarrow> dstep H host wp concurrency tn d d' \<Longrightarrow>
    dreach H host wp concurrency tn w0 d'"
| world: "dreach H host wp concurrency tn w0 d \<Longrightarrow> driver_env d d' \<Longrightarrow> dreach H host wp concurrency tn w0 d'"

text \<open>\<open>main\<close> returns when the loop is over and the wait group is down to zero.\<close>

definition driver_returns :: "nat \<Rightarrow> 'w driver \<Rightarrow> bool" where
  "driver_returns tn d \<longleftrightarrow> \<not> drv_panic d \<and> drv_i d = tn \<and> drv_wg d = 0"

section \<open>Bounds and progress of the run\<close>

definition unfinished :: "task \<Rightarrow> bool" where
  "unfinished t \<longleftrightarrow> (\<forall>raw. t \<noteq> Passed raw)"

fun steps_left :: "task \<Rightarrow> nat" where
  "steps_left Started = 2"
| "steps_left (Registered raw docId) = 1"
| "steps_left (Passed raw) = 0"

lemma unfinished_simps [simp]:
  "unfinished Started" "unfinished (Registered raw docId)" "\<not> unfinished (Passed raw)"
  by (simp_all add: unfinished_def)

definition driver_inv :: "nat \<Rightarrow> nat \<Rightarrow> 'w driver \<Rightarrow> bool" where
  "driver_inv concurrency tn d \<longleftrightarrow>
     length (drv_tasks d) = drv_i d \<and> drv_i d \<le> tn \<and> drv_permits d \<le> concurrency \<and>
     drv_permits d = length (filter unfinished (drv_tasks d)) \<and>
     drv_wg d = drv_permits d + (tn - drv_i d)"

definition driver_left :: "nat \<Rightarrow> 'w driver \<Rightarrow> nat" where
  "driver_left tn d = (if drv_panic d then 0
     else 1 + 3 * (tn - drv_i d) + sum_list (map steps_left (drv_tasks d)))"

lemma sum_list_map_update:
  "k < length xs \<Longrightarrow> sum_list (map f (xs[k := y])) + f (xs ! k) = sum_list (map f xs) + f y" for f :: "'a \<Rightarrow> nat"
  by (induction xs arbitrary: k) (force split: nat.splits)+

lemma length_filter_update:
  "k < length xs \<Longrightarrow> length (filter P (xs[k := y])) + (if P (xs ! k) then 1 else 0)
     = length (filter P xs) + (if P y then 1 else 0)"
proof -
  have "length (filter P zs) = sum_list (map (\<lambda>x. if P x then 1 else 0) zs)" for zs
    by (induction zs) auto
  then show "k < length xs \<Longrightarrow> ?thesis"
    using sum_list_map_update [of k xs "\<lambda>x. if P x then 1 else 0" y] by simp
qed

lemma dstep_inv:
  assumes "dstep H host wp concurrency tn d d'" and "driver_inv concurrency tn d"
  shows "driver_inv concurrency tn d'"
  using assms
proof (cases rule: dstep.cases)
  case (registered k rnd w' raw docId)
  then show ?thesis
    using assms(2) length_filter_update [of k "drv_tasks d" unfinished "Registered raw docId"]
    by (simp add: driver_inv_def)
next
  case (passed k raw docId w')
  then show ?thesis
    using assms(2) length_filter_update [of k "drv_tasks d" unfinished "Passed raw"]
    by (auto simp: driver_inv_def)
qed (auto simp: driver_inv_def)

lemma dreach_inv: "dreach H host wp concurrency tn w0 d \<Longrightarrow> driver_inv concurrency tn d"
proof (induction rule: dreach.induct)
  case (begin_main pd d dur)
  then show ?case by (auto simp: driver_main_def driver_inv_def split: sum.splits)
next
  case (step d d')
  then show ?case by (blast intro: dstep_inv)
next
  case (world d d')
  then show ?case by (auto simp: driver_env_def driver_inv_def)
qed

lemma dstep_left:
  assumes "dstep H host wp concurrency tn d d'" and "driver_inv concurrency tn d"
  shows "driver_left tn d' < driver_left tn d"
  using assms(1)
proof (cases rule: dstep.cases)
  case (registered k rnd w' raw docId)
  then show ?thesis
    using sum_list_map_update [of k "drv_tasks d" steps_left "Registered raw docId"]
    by (simp add: driver_left_def)
next
  case (passed k raw docId w')
  then show ?thesis
    using sum_list_map_update [of k "drv_tasks d" steps_left "Passed raw"]
    by (simp add: driver_left_def)
qed (use assms(2) in \<open>auto simp: driver_left_def driver_inv_def\<close>)

lemma register_outcome:
  obtains w' raw docId where "register_document H host wp rnd w = (w', Ret (raw, docId))"
  | w' e where "register_document H host wp rnd w = (w', Panic e)"
  by (cases "register_document H host wp rnd w")
     (auto simp: register_document_def docRegister_def split: sum.splits prod.splits list.splits)

lemma check_outcome:
  obtains w' where "check_document H host raw docId w = (w', Ret ())"
  | w' e where "check_document H host raw docId w = (w', Panic e)"
  by (cases "check_document H host raw docId w")
     (auto simp: check_document_def docProofStatus_def docProofResult_def split: prod.splits list.splits if_splits)

lemma task_can_step:
  assumes "driver_inv concurrency tn d" and "\<not> drv_panic d" and "k < length (drv_tasks d)"
    and "unfinished (drv_tasks d ! k)"
  shows "\<exists>d'. dstep H host wp concurrency tn d d'"
proof (cases "drv_tasks d ! k")
  case Started
  show ?thesis
    using dstep.registered [OF assms(2,3) Started] dstep.not_registered [OF assms(2,3) Started]
    by (rule_tac register_outcome [of H host wp "Inl []" "drv_world d"]) blast+
next
  case (Registered raw docId)
  have "filter unfinished (drv_tasks d) \<noteq> []"
    using assms(3,4) by (metis filter_empty_conv nth_mem)
  then have "0 < drv_permits d" using assms(1) by (simp add: driver_inv_def)
  moreover from this have "0 < drv_wg d" using assms(1) unfolding driver_inv_def by linarith
  ultimately have "0 < drv_permits d" "0 < drv_wg d" by simp_all
  note p = dstep.passed [OF assms(2) this assms(3) Registered] dstep.failed [OF assms(2,3) Registered]
  show ?thesis
    by (rule check_outcome [of H host raw docId "drv_world d"]) (use p in blast)+
next
  case (Passed raw)
  with assms(4) show ?thesis by simp
qed

section \<open>Properties\<close>

text \<open>
  C31. The driver ends, if its concurrency is positive. It never has more than \<open>concurrency\<close>
  documents under way, every step brings it closer to the end, and as long as it has neither
  panicked nor returned it can take a step; when it returns, all \<open>tn\<close> documents passed.
\<close>

theorem driver_bounded_and_ends:
  assumes "dreach H host wp concurrency tn w0 d" and "0 < concurrency"
  shows "length (filter unfinished (drv_tasks d)) \<le> concurrency \<and>
     (\<forall>d'. dstep H host wp concurrency tn d d' \<longrightarrow> driver_left tn d' < driver_left tn d) \<and>
     (drv_panic d \<or> driver_returns tn d \<or> (\<exists>d'. dstep H host wp concurrency tn d d')) \<and>
     (driver_returns tn d \<longrightarrow> length (drv_tasks d) = tn \<and> (\<forall>t \<in> set (drv_tasks d). \<exists>raw. t = Passed raw))"
proof -
  have di: "driver_inv concurrency tn d" by (rule dreach_inv [OF assms(1)])
  have "drv_panic d \<or> driver_returns tn d \<or> (\<exists>d'. dstep H host wp concurrency tn d d')"
  proof (rule ccontr)
    assume stuck: "\<not> ?thesis"
    then have "filter unfinished (drv_tasks d) = []"
      using task_can_step [OF di] by (metis filter_False in_set_conv_nth)
    then have "drv_permits d = 0" using di by (simp add: driver_inv_def)
    moreover from this have "\<not> drv_i d < tn"
      using stuck dstep.loop [of d tn concurrency H host wp] assms(2) by auto
    ultimately show False using stuck di by (auto simp: driver_returns_def driver_inv_def)
  qed
  moreover have "\<exists>raw. t = Passed raw" if "driver_returns tn d" "t \<in> set (drv_tasks d)" for t
  proof -
    have "filter unfinished (drv_tasks d) = []" using that(1) di by (auto simp: driver_returns_def driver_inv_def)
    then show ?thesis using that(2) by (auto simp: filter_empty_conv unfinished_def)
  qed
  ultimately show ?thesis
    using di dstep_left [OF _ di] by (auto simp: driver_inv_def driver_returns_def)
qed

definition idle_http :: "unit http" where
  "idle_http = \<lparr>http_Send = (\<lambda>v url flds w. (w, Inr [])), dec_submit = (\<lambda>b. Inr (''i'', 0)),
     dec_status = (\<lambda>b. Inr (empty_status\<lparr>ps_Status := ''ok''\<rparr>)), dec_proof = (\<lambda>b. Inr (empty_proof\<lparr>pr_Status := ''valid''\<rparr>))\<rparr>"

definition driver0 :: "unit driver" where
  "driver0 = \<lparr>drv_i = 0, drv_permits = 0, drv_wg = 1, drv_tasks = [], drv_world = (), drv_panic = False\<rparr>"

theorem driver_bounded_and_ends_witness:
  "\<exists>d. dreach idle_http ''h'' ''1m'' 1 1 () d \<and> driver_returns 1 d \<and> drv_tasks d = [Passed ''abc'']"
proof -
  let ?d1 = "driver0\<lparr>drv_i := 1, drv_permits := 1, drv_tasks := [Started]\<rparr>"
  let ?d2 = "?d1\<lparr>drv_tasks := [Registered ''abc'' ''i''], drv_world := ()\<rparr>"
  let ?d3 = "?d2\<lparr>drv_tasks := [Passed ''abc''], drv_world := (), drv_permits := 0, drv_wg := 0\<rparr>"
  have "driver_main (\<lambda>s. Inr 5) (int 1) (int 1) ''1m'' () = Ret (driver0, 5)"
    by (simp add: driver_main_def driver0_def)
  then have "dreach idle_http ''h'' ''1m'' 1 1 () driver0" by (rule dreach.begin_main)
  moreover have "dstep idle_http ''h'' ''1m'' 1 1 driver0 ?d1"
    using dstep.loop [of driver0 1 1 idle_http "''h''" "''1m''"] by (simp add: driver0_def)
  moreover have "register_document idle_http ''h'' ''1m'' (Inr ''abc'') () = ((), Ret (''abc'', ''i''))"
    by (simp add: register_document_def docRegister_def EndStruct_def idle_http_def)
  then have "dstep idle_http ''h'' ''1m'' 1 1 ?d1 ?d2"
    using dstep.registered [of ?d1 0 idle_http "''h''" "''1m''" "Inr ''abc''"] by (simp add: driver0_def)
  moreover have "check_document idle_http ''h'' ''abc'' ''i'' () = ((), Ret ())"
    by (simp add: check_document_def docProofStatus_def docProofResult_def EndStruct_def idle_http_def)
  then have "dstep idle_http ''h'' ''1m'' 1 1 ?d2 ?d3"
    using dstep.passed [of ?d2 0 "''abc''" "''i''" idle_http "''h''"] by (simp add: driver0_def)
  ultimately have reach: "dreach idle_http ''h'' ''1m'' 1 1 () ?d3" by (blast intro: dreach.step)
  then show ?thesis
    using driver_bounded_and_ends [OF reach zero_less_one] by (auto simp: driver_returns_def driver0_def)
qed

text \<open>
  The client in front of the service: the framework makes a \<open>request\<close> of what is sent, the
  response goes back as bytes; a panicking server closes the connection without an answer.
\<close>

definition service_Send ::
    "('p, 'w, 'k, 'prk, 'puk, 'pt) server_env \<Rightarrow> 'c frame \<Rightarrow> (verb \<Rightarrow> string \<Rightarrow> (string \<times> string) list \<Rightarrow> request)
       \<Rightarrow> (response \<Rightarrow> bytes) \<Rightarrow> verb \<Rightarrow> string \<Rightarrow> (string \<times> string) list
       \<Rightarrow> 'c \<times> 'p \<times> ('w, 'prk, 'puk) server \<Rightarrow> ('c \<times> 'p \<times> ('w, 'prk, 'puk) server) \<times> (err list + bytes)" where
  "service_Send V Fr receive render v url flds st =
     (case st of (c, p, s) \<Rightarrow>
        (case serve V Fr (receive v url flds) c p s of
           (c', s', sp, Ret r) \<Rightarrow> ((c', p, s'), Inr (render r))
         | (c', s', sp, _) \<Rightarrow> ((c', p, s'), Inl [''EOF''])))"

text \<open>
  What is relied on: the posted document arrives at its route, and the status and the identifier
  of a proof answer survive the encoding.
\<close>

definition wire_laws ::
    "(verb \<Rightarrow> string \<Rightarrow> (string \<times> string) list \<Rightarrow> request) \<Rightarrow> (response \<Rightarrow> bytes)
       \<Rightarrow> (bytes \<Rightarrow> err + GetProofResponse) \<Rightarrow> string \<Rightarrow> bool" where
  "wire_laws receive render decode host \<longleftrightarrow>
     (\<forall>raw. rq_verb (receive POST (host @ api_doc_proof_result) [(''rawDocument'', raw)]) = POST \<and>
        rq_path (receive POST (host @ api_doc_proof_result) [(''rawDocument'', raw)])
          = [''poe'', ''v1'', ''documents'', ''result''] \<and>
        rq_raw (receive POST (host @ api_doc_proof_result) [(''rawDocument'', raw)]) = Inr raw) \<and>
     (\<forall>st r. \<exists>r'. decode (render (st, ProofBody r)) = Inr r' \<and> pr_Status r' = pr_Status r \<and>
        Id (pr_Doc r') = Id (pr_Doc r))"

text \<open>Every answer of \<open>postProofResult\<close> to a document carries a status; only 200 carries \<open>valid\<close>.\<close>

lemma postProofResult_bodies:
  assumes "postProofResult V (Inr raw) p s = (s', sp, Ret (st, body))"
  shows "\<exists>r. body = ProofBody r \<and> (st = 200 \<or> pr_Status r \<in> {''none'', ''wait'', ''invalid''})"
  using assms by (auto simp: postProofResult_def Let_def split: sum.splits list.splits if_splits prod.splits
      outcome.splits bool.splits)

text \<open>
  C8. What a passing check of the driver means. When the driver sends a document to the service
  and is neither answered with a failure nor told to wait, then a stored document has the hash
  of what was sent, and its whole batch hashes to a root that is on the chain.
\<close>

theorem driver_pass_is_registered:
  assumes "cql_store S rows" and "env_persister V = cassandra_persister S"
    and "honest_chain (env_fabric V) (env_decode V) reg" and "peer_available (env_fabric V) (srv_bc s)"
    and "wire_laws receive render (dec_proof H) host" and "http_Send H = service_Send V Fr receive render"
    and "docProofResult H host raw (c, db, s) = (w', Ret r)" and "pr_Status r \<noteq> ''wait''"
  shows "pr_Status r = ''valid'' \<and>
     (\<exists>doc blockDocs. doc \<in> ran (table_of (rows db)) \<and> Hash doc = DocumentHash (env_digests V) raw \<and>
        Id (pr_Doc r) = Id doc \<and> BlockDigest doc \<noteq> [] \<and>
        set blockDocs = {d \<in> ran (table_of (rows db)). BlockDigest d = BlockDigest doc} \<and>
        formatDocs (sha256 (env_digests V)) blockDocs \<in> reg (srv_world s))"
proof -
  let ?rq = "receive POST (host @ api_doc_proof_result) [(''rawDocument'', raw)]"
  note wl = assms(5) [unfolded wire_laws_def]
  obtain s' sp a where pr: "postProofResult V (Inr raw) db s = (s', sp, a)" by (metis prod_cases3)
  have "serve V Fr ?rq c db s = (c, s', sp, a)"
    using wl pr by (simp add: serve_def matches_def routes_def List.map_filter_def)
  then have ans: "docProofResult H host raw (c, db, s) =
      (case EndStruct (dec_proof H) empty_proof
              (case a of Ret b \<Rightarrow> ((c, db, s'), Inr (render b)) | _ \<Rightarrow> ((c, db, s'), Inl [''EOF''])) of
         (w', e # _, _) \<Rightarrow> (w', Panic e)
       | (w', [], resp) \<Rightarrow>
           if pr_Status resp = ''none'' \<or> pr_Status resp = ''invalid'' then (w', Panic ''document proof failure.'')
           else (w', Ret resp))"
    by (simp add: docProofResult_def assms(6) service_Send_def split: outcome.splits)
  with assms(7) obtain b where a: "a = Ret b" by (cases a) (auto simp: EndStruct_def)
  obtain st body where b: "b = (st, body)" by (cases b)
  obtain r0 where r0: "body = ProofBody r0" "st = 200 \<or> pr_Status r0 \<in> {''none'', ''wait'', ''invalid''}"
    using postProofResult_bodies [of V raw db s s' sp st body] pr a b by auto
  obtain r' where dr: "dec_proof H (render (st, ProofBody r0)) = Inr r'" "pr_Status r' = pr_Status r0"
      "Id (pr_Doc r') = Id (pr_Doc r0)"
    using wl by blast
  have r: "r = r'" "pr_Status r' \<notin> {''none'', ''invalid''}"
    using ans assms(7) dr(1) by (auto simp: a b r0 EndStruct_def split: if_splits)
  then have "st = 200" using r0(2) dr(2) assms(8) by auto
  with postProofResult_valid [OF assms(1-4), of raw db s' sp body] pr a b
  obtain doc bd r1 sg where "body = ProofBody r1" "pr_Status r1 = ''valid''" "pr_Doc r1 = doc\<lparr>Sign := sg\<rparr>"
    "doc \<in> ran (table_of (rows db))" "Hash doc = DocumentHash (env_digests V) raw" "BlockDigest doc \<noteq> []"
    "set bd = {d \<in> ran (table_of (rows db)). BlockDigest d = BlockDigest doc}"
    "formatDocs (sha256 (env_digests V)) bd \<in> reg (srv_world s)"
    by auto
  then show ?thesis using r dr r0(1) by auto
qed

text \<open>A service whose database holds one proved document, and a wire that sends the answer's status.\<close>

definition toy_receive :: "verb \<Rightarrow> string \<Rightarrow> (string \<times> string) list \<Rightarrow> request" where
  "toy_receive v url flds = result_request\<lparr>rq_verb := v, rq_path := [''poe'', ''v1'', ''documents'', ''result''],
     rq_raw := (case flds of [(f, raw)] \<Rightarrow> Inr raw | _ \<Rightarrow> Inl [])\<rparr>"

definition toy_render :: "response \<Rightarrow> bytes" where
  "toy_render resp = (case resp of
      (st, ProofBody r) \<Rightarrow> replicate (length (pr_Status r)) CHR ''x'' @ CHR ''.'' # pr_Status r @ Id (pr_Doc r)
    | _ \<Rightarrow> [])"

definition toy_dec_proof :: "bytes \<Rightarrow> err + GetProofResponse" where
  "toy_dec_proof b =
     (let n = length (takeWhile (\<lambda>c. c = CHR ''x'') b); rest = drop (n + 1) b
      in Inr (empty_proof\<lparr>pr_Status := take n rest, pr_Doc := zero_doc\<lparr>Id := drop n rest\<rparr>\<rparr>))"

lemma toy_wire: "wire_laws toy_receive toy_render toy_dec_proof host"
proof -
  have "takeWhile (\<lambda>c. c = CHR ''x'') (replicate n CHR ''x'' @ CHR ''.'' # ys) = replicate n CHR ''x''" for n ys
    by (induction n) auto
  then show ?thesis
    by (simp add: wire_laws_def toy_receive_def toy_render_def toy_dec_proof_def Let_def empty_proof_def zero_doc_def)
qed

definition toy_http ::
    "(unit \<times> memdb \<times> (unit, int, int) server) http" where
  "toy_http = \<lparr>http_Send = service_Send (toy_env (cassandra_persister mem_session)) toy_frame toy_receive toy_render,
     dec_submit = (\<lambda>b. Inl []), dec_status = (\<lambda>b. Inl []), dec_proof = toy_dec_proof\<rparr>"

theorem driver_pass_is_registered_witness:
  "\<exists>w' r. docProofResult toy_http ''h'' ''abc'' ((), hashed_db, toy_server) = (w', Ret r) \<and> pr_Status r = ''valid''"
proof -
  let ?V = "toy_env (cassandra_persister mem_session)"
  obtain s' sp body where g: "postProofResult ?V (Inr ''abc'') hashed_db toy_server = (s', sp, Ret (200, body))"
    using hashed_answer by blast
  then obtain r0 where r0: "body = ProofBody r0" "pr_Status r0 = ''valid''"
    using postProofResult_200 [of ?V "''abc''" hashed_db toy_server s' sp body] by metis
  obtain r where r: "toy_dec_proof (toy_render (200, ProofBody r0)) = Inr r" "pr_Status r = ''valid''"
    using toy_wire [unfolded wire_laws_def] r0(2) by metis
  have d: "docProofResult toy_http ''h'' ''abc'' ((), hashed_db, toy_server) = (((), hashed_db, s'), Ret r)"
    using g r by (simp add: docProofResult_def toy_http_def service_Send_def serve_def toy_receive_def matches_def
        routes_def List.map_filter_def EndStruct_def r0(1))
  have laws: "env_persister ?V = cassandra_persister mem_session" "honest_chain (env_fabric ?V) (env_decode ?V) (\<lambda>_. UNIV)"
    "peer_available (env_fabric ?V) (srv_bc toy_server)" "wire_laws toy_receive toy_render (dec_proof toy_http) ''h''"
    "http_Send toy_http = service_Send ?V toy_frame toy_receive toy_render" "pr_Status r \<noteq> ''wait''"
    using toy_chain toy_wire r(2) by (simp_all add: toy_env_def toy_server_def toy_http_def)
  from driver_pass_is_registered [OF memdb.cql_store_axioms laws(1-5) d laws(6)] d show ?thesis by blast
qed

end
