(* ===== verification/Spec2Isabelle.thy ===== *)
theory Spec2Isabelle
  imports Shutdown Service DefaultService Driver
begin

text \<open>
  The proof-of-existence service \<open>poe\<close> (package \<open>github.com/conseweb/poe\<close>) takes documents over
  HTTP, keeps them in a cache until their waiting period is over, registers the Merkle root of
  each batch on a fabric blockchain through a chaincode, stores the documents in Cassandra, and
  answers later requests for a proof by asking the chain for the root of the document's batch.

  \<^bold>\<open>Parts and theories.\<close> One theory per part, in the order in which the parts build on each other.

  \<^item> \<open>Prelude\<close>: byte strings, \<open>int64\<close> as \<open>64 word\<close>, the outcome of a Go call (value, panic, exit of the
    process), the verbs \<open>%x\<close> and \<open>%d\<close> with their injectivity.
  \<^item> \<open>GoTime\<close>: instants, durations and \<open>Duration.String\<close> of Go's package \<open>time\<close>, with the proof
    that different durations print differently.
  \<^item> \<open>Protos\<close>: \<open>Document\<close>, \<open>DocProofStatus\<close> (\<open>protos/poe.pb.go\<close>), \<open>ProofStat\<close> (\<open>protos/poe.more.go\<close>).
  \<^item> \<open>Merkle\<close>: the vendored streaming Merkle tree (\<open>Push\<close>, \<open>Root\<close>), the recursive Merkle tree hash it
    computes, and the binding property.
  \<^item> \<open>Utils\<close>: \<open>DocumentID\<close>, \<open>DocumentHash\<close> (\<open>utils/document.go\<close>), the table of periods
    (\<open>utils/period.go\<close>) with \<open>strconv.ParseInt\<close>.
  \<^item> \<open>Cache\<close>: the interface \<open>CacheInterface\<close> (\<open>cache/cache.go\<close>) as the locales \<open>cache_contract\<close> and
    \<open>fanout_cache\<close>; \<open>MemoryCache\<close> (\<open>cache/memory\<close>) interprets the first, \<open>KafkaCache\<close> (\<open>cache/kafka\<close>)
    both.
  \<^item> \<open>Persister\<close>: \<open>PersistInterface\<close> (\<open>persist/persist.go\<close>) as a record of operations and the locale
    \<open>persist_contract\<close> over the table of documents; \<open>Cassandra\<close> (\<open>persist/cassandra\<close>) gives it for every
    session that meets \<open>cql_store\<close>, and a table in memory meets \<open>cql_store\<close>.
  \<^item> \<open>PersistLoop\<close>: \<open>continuePersist\<close> and \<open>Close\<close> as a transition system of the main goroutine, the
    fetching goroutines and the workers.
  \<^item> \<open>Balance\<close>: the round-robin balancer (\<open>blockchain/balance.go\<close>) with the locale \<open>backends\<close>.
  \<^item> \<open>Chaincode\<close>: \<open>items\<close>, \<open>formatDocs\<close>, \<open>execute\<close> with its failover, \<open>invokeCompleted\<close>
    (\<open>blockchain/chaincode.go\<close>, \<open>blockchain/blockchain.go\<close>); \<open>Events\<close>: the event hub client
    (\<open>blockchain/event.go\<close>); \<open>Blockchain\<close>: construction, \<open>VerifyDocs\<close>, \<open>RegisterProof\<close>, the registration
    tick.
  \<^item> \<open>Sign\<close>: the key pair and signatures (\<open>sign/ecdsa.go\<close>). \<open>Api\<close>: every handler of \<open>api/v1.go\<close>.
    \<open>Server\<close>: the API server (\<open>api/api.go\<close>) with its route table and a request served from the route
    to the response.
  \<^item> \<open>Startup\<close>: the cache behind \<open>CacheInterface\<close>, the choice of the cache and the persister, \<open>main\<close>, the
    subscriptions of the consumers. \<open>Shutdown\<close>: the closing functions that the signal handler runs.
  \<^item> \<open>Driver\<close>: the test driver \<open>integration-tests/main.go\<close>, its requests and its goroutines with the
    semaphore and the wait group.
  \<^item> \<open>Pipeline\<close>: what the service promises, as an abstract transition system. \<open>System\<close>: the whole service over
    the Kafka cache and a Cassandra session, every operation of the components as a step, with the
    simulation of \<open>Pipeline\<close>. \<open>Service\<close>: a complete concrete run and the properties of all runs.
    \<open>DefaultService\<close>: the runs over the cache in memory, the default configuration.

  \<^bold>\<open>State.\<close> Each struct with state is a record with the fields of the Go struct; a method returns the
  updated record with its result. A Go map is a HOL map, a missing key reads as the zero value.
  A method that holds the lock of its struct for its whole body is one step. In \<open>System\<close> the
  registration tick is three steps (taking the documents, the invocation, the record) and so is
  the handler of a completion event (reading \<open>items\<close>, the update of the database, the removal),
  because other goroutines come in between, among them handlers of the same event, which every
  event client receives for itself. The dial loop of \<open>execute\<close> holds no lock: \<open>execute_shared\<close> has the
  choices of other calls in between as an argument, \<open>execute\<close> is the call without them; the steps of
  \<open>System\<close> and \<open>DefaultService\<close> use the first. A restart is a step too: it empties the memory and keeps the
  broker, the chain and the database. Fields with the prefix \<open>h_\<close> are history; of these only
  \<open>h_written\<close> is read, to grant that the chain gives no transaction identifier twice.

  \<^bold>\<open>What is a parameter.\<close> Digests, ECDSA and key parsing, the protobuf and JSON codecs, the Kafka
  broker, the Cassandra session, gRPC, the web framework and the HTTP client, the configuration
  (\<open>viper\<close>), the clock and \<open>time.ParseDuration\<close>. What the program relies on is stated by name where
  it is used: \<open>digest_sizes\<close>, \<open>ecdsa_correct\<close>, \<open>points_decode\<close> and \<open>signatures_decode\<close> (laws of the
  libraries for all keys), \<open>cql_store\<close>, \<open>logged_store\<close> (an unconfirmed write may have happened) and
  \<open>merging_store\<close> (equal statements of one batch act as one), \<open>broker_log\<close> (an accepted message is
  appended to the log, a refused one may be; it may be delivered any number of times), \<open>honest_chain\<close>,
  \<open>peer_available\<close>, \<open>wire_laws\<close>; the absence of hash collisions is always limited to the inputs hashed
  in the statement. Every such hypothesis is met by a concrete instance in a witness.

  \<^bold>\<open>What the theorems show.\<close> C1 to C5 are about all runs of the whole service, restarts
  included: every document is accounted for, a completed batch is found again and verifies, the
  program refines the abstract pipeline step by step, and a digest in the database is the mark of a
  registration; whatever is under way, a batch that was taken can be completed. They hold however
  often the broker delivers a message. That the identifiers of the accepted documents differ is a
  hypothesis of C2 and C4; that no document is in two batches is said in C1 of runs without a second
  delivery only, and C2 is about batches that share no document with another one (C33 shows what
  copies in a batch do). In these theorems the condition \<open>Q\<close> of \<open>Pipeline\<close> is \<open>agree\<close>: no two different
  documents of a batch under one identifier; C34, which needs single delivery (\<open>clean\<close>), has
  it with batches without copies. C6 to C8
  say what an answer \<open>valid\<close> means, up to the check of the test driver; C9 that with the default
  configuration there is never such an answer. C10 to C12 and C17 say that
  verification accepts exactly the registered batches and that the root is the Merkle tree hash.
  C13 to C15: the persistence loop neither loses nor duplicates documents nor gets stuck, in every
  interleaving. C16, C18 to C32: caches, requests, persister, listings, statistics, balancer,
  event client, signatures, start, driver and shutdown meet their contracts. C33 to C40 state
  behaviour a maintainer should know: redelivered messages, documents lost at a restart,
  completion events that come too early, registrations lost without a peer, documents that one
  consumer takes from the other, a status that is reset, ambiguous digests, a panic after a
  restart.

  \<^bold>\<open>Bounds and termination.\<close> Loops over lists are structural; \<open>join_loop\<close>, \<open>connect_shared\<close>, \<open>mth\<close> and the
  decimal printer end by a measure. The closing loop of the Kafka cache and the polling loop of
  \<open>persist.Close\<close> are partial functions: the first never ends, the second ends when the persistence
  loop is seen idle. The driver ends by the measure \<open>driver_left\<close>. \<open>blank_fuel\<close> takes the length of
  the string as fuel, enough because each step drops a rune.

  \<^bold>\<open>Not modelled.\<close> Logging, the internals of the web framework, Merkle proofs of single leaves, generated
  protobuf code, and \<open>tsp\<close>, which returns the local clock (an argument here). Data races of fields
  read without their lock are not modelled either, nor reads at consistency \<open>One\<close> that a lagging
  replica answers from an older table. A restart keeps the configuration.
\<close>

section \<open>From the event of a completed invocation to a verified batch\<close>

text \<open>
  The life of a proof. Documents stored with the strings they were registered with, whose
  transaction completes with a proof, are afterwards found under the proof's key, as exactly the
  registered batch, and verifying what is found asks an honest chain for the registered root and
  succeeds; the transaction is no longer pending.
\<close>

theorem proof_lifecycle:
  assumes "cql_store S rows"
    and "bc_items bc (ev_TxID e) = Some (DocSlice docs)" and "docs \<noteq> []" and "distinct (map Id docs)"
    and "\<And>d. d \<in> set docs \<Longrightarrow> \<exists>x. table_of (rows db) (Id d) = Some x \<and> docString x = docString d"
    and "\<And>x. x \<in> ran (table_of (rows db)) \<Longrightarrow> BlockDigest x \<noteq> proofKey D h"
    and "um (ev_Payload e) = Inr results" and "results (formatDocs (sha256 D) docs) = Some h"
    and "invokeCompleted D um (cassandra_persister S) now e bc db = (bc', db', er)"
    and "snd (cas_SetDocsBlockDigest S now (map Id docs) (proofKey D h) (ev_TxID e) db) = None"
    and "cas_FindDocsByBlockDigest S (proofKey D h) db' = Inr found"
    and "honest_chain F decode reg" and "formatDocs (sha256 D) docs \<in> reg w" and "peer_available F bc"
    and "digest_sizes D"
  shows "er = None \<and> bc_items bc' (ev_TxID e) = None \<and>
     mset (map docString found) = mset (map docString docs) \<and>
     (\<exists>bc'' w'. VerifyDocs (sha256 D) F decode found bc' w = (bc'', w', Ret True))"
proof -
  let ?set = "cas_SetDocsBlockDigest S now (map Id docs) (proofKey D h) (ev_TxID e) db"
  have res: "er = None" "bc' = bc\<lparr>bc_items := items_Delete (ev_TxID e) (bc_items bc)\<rparr>" "db' = fst ?set"
    using assms(2,7-9) by (simp_all add: invokeCompleted_eq items_Delete_def cassandra_persister_def)
  then have "?set = (db', None)" using assms(10) by (simp add: prod_eq_iff)
  then have found: "mset (map docString found) = mset (map docString docs)"
    using assms(4-6,11) proofKey_nonempty [OF assms(15)]
    by (intro persist_contract.found_batch [OF cql_store.contract [OF assms(1)], where p = db])
       (auto simp: cassandra_persister_def)
  then have "formatDocs (sha256 D) found = formatDocs (sha256 D) docs"
    by (rule formatDocs_mset_docString)
  moreover have "formatDocs (sha256 D) docs \<noteq> []"
    by (rule formatDocs_nonempty [OF assms(3) sha256_nonempty [OF assms(15)]])
  moreover have "peer_available F bc'" using assms(14) by (simp add: res(2) peer_available_def)
  ultimately have "\<exists>bc'' w'. VerifyDocs (sha256 D) F decode found bc' w = (bc'', w', Ret True)"
    using VerifyDocs_answer [OF assms(12), of bc' "sha256 D" found w] assms(13) by simp
  with found res show ?thesis by (simp add: items_Delete_def)
qed

definition done_event :: ChaincodeEvent where
  "done_event = \<lparr>ev_ChaincodeID = ''cc'', ev_EventName = ''invoke_completed'', ev_TxID = ''tx'', ev_Payload = ''{}''\<rparr>"

definition waiting_bc :: Blockchain where
  "waiting_bc = toy_bc\<lparr>bc_items := [''tx'' \<mapsto> DocSlice [stored_doc]]\<rparr>"

definition proofs :: "bytes \<Rightarrow> err + (string \<Rightarrow> string option)" where
  "proofs b = Inr [formatDocs (sha256 toy_digests) [stored_doc] \<mapsto> ''proof'']"

lemma stored_table: "table_of (mem_rows stored_db) = [''i'' \<mapsto> stored_doc]"
  by (simp add: stored_db_def mem_session_def mem_write_def mem_rows_def fun_eq_iff table_of_def stored_doc_def
      put_statement_def null_row_def scan_row_def zero_doc_def)

theorem proof_lifecycle_witness:
  "\<exists>bc' db' found. invokeCompleted toy_digests proofs (cassandra_persister mem_session) 9 done_event waiting_bc stored_db
       = (bc', db', None) \<and>
     cas_FindDocsByBlockDigest mem_session (proofKey toy_digests ''proof'') db' = Inr found \<and>
     mset (map docString found) = {#docString stored_doc#} \<and> bc_items bc' ''tx'' = None"
proof -
  let ?root = "formatDocs (sha256 toy_digests) [stored_doc]" and ?key = "proofKey toy_digests ''proof''"
  obtain bc' db' er where ic: "invokeCompleted toy_digests proofs (cassandra_persister mem_session) 9
      done_event waiting_bc stored_db = (bc', db', er)"
    by (metis prod_cases3)
  have "?key \<noteq> []" by (rule proofKey_nonempty [OF digest_sizes_toy])
  then obtain found where found: "cas_FindDocsByBlockDigest mem_session ?key db' = Inr found"
    by (simp add: cas_FindDocsByBlockDigest_def mem_session_def iterToDocs_def)
  have "er = None \<and> bc_items bc' (ev_TxID done_event) = None \<and>
     mset (map docString found) = mset (map docString [stored_doc]) \<and>
     (\<exists>bc'' w'. VerifyDocs (sha256 toy_digests) toy_fabric (toy_decode {?root}) found bc' () = (bc'', w', Ret True))"
  proof (rule proof_lifecycle [where results = "[?root \<mapsto> ''proof'']", OF memdb.cql_store_axioms _ _ _ _ _ _ _ ic _ found toy_chain(1) _ _ digest_sizes_toy])
    show "BlockDigest x \<noteq> ?key" if "x \<in> ran (table_of (mem_rows stored_db))" for x
      using that \<open>?key \<noteq> []\<close> by (auto simp: stored_table stored_doc_def zero_doc_def)
    show "peer_available toy_fabric waiting_bc"
      using toy_chain(2) by (simp add: peer_available_def waiting_bc_def)
    show "\<exists>x. table_of (mem_rows stored_db) (Id d) = Some x \<and> docString x = docString d"
      if "d \<in> set [stored_doc]" for d
      using that by (auto simp: stored_table) (auto simp: stored_doc_def)
  qed (simp_all add: waiting_bc_def done_event_def proofs_def cas_SetDocsBlockDigest_def mem_session_def)
  with ic found show ?thesis by (auto simp: done_event_def)
qed

section \<open>What a valid answer means\<close>

text \<open>
  C6. A proof is answered as valid only for a document of the database that has a block digest
  and whose whole batch, every stored document with that digest, hashes to a root registered
  on the chain; the answer carries the stored document, up to its signature.
\<close>

theorem valid_proof_is_registered:
  assumes "cql_store S rows" and "env_persister V = cassandra_persister S"
    and "honest_chain (env_fabric V) (env_decode V) reg" and "peer_available (env_fabric V) (srv_bc s)"
    and "getProofResult V docID db s = (s', sp, Ret (200, body))"
  shows "\<exists>doc blockDocs r sg. body = ProofBody r \<and> pr_Status r = ''valid'' \<and> pr_Doc r = doc\<lparr>Sign := sg\<rparr> \<and>
     table_of (rows db) docID = Some doc \<and> BlockDigest doc \<noteq> [] \<and> doc \<in> set blockDocs \<and>
     set blockDocs = {d \<in> ran (table_of (rows db)). BlockDigest d = BlockDigest doc} \<and>
     formatDocs (sha256 (env_digests V)) blockDocs \<in> reg (srv_world s)"
proof -
  note pc = cql_store.contract [OF assms(1)]
  obtain doc bd r sg where g: "GetDocFromDBByDocID (env_persister V) docID db = Inr doc" "BlockDigest doc \<noteq> []"
    "FindDocsByBlockDigest (env_persister V) (BlockDigest doc) db = Inr bd"
    "snd (snd (VerifyDocs (sha256 (env_digests V)) (env_fabric V) (env_decode V) bd (srv_bc s) (srv_world s)))
       = Ret True" "body = ProofBody r" "pr_Status r = ''valid''" "pr_Doc r = doc\<lparr>Sign := sg\<rparr>"
    by (rule getProofResult_200 [OF assms(5)])
  have doc: "table_of (rows db) docID = Some doc"
    using persist_contract.by_id [OF pc] g(1) assms(2) by metis
  have bd: "set bd = {d \<in> ran (table_of (rows db)). BlockDigest d = BlockDigest doc}"
    using persist_contract.by_digest [OF pc] g(3) assms(2) by metis
  have "formatDocs (sha256 (env_digests V)) bd \<in> reg (srv_world s)"
    using VerifyDocs_answer [OF assms(3,4) VerifyDocs_True_nonempty [OF g(4)], of "srv_world s"] g(4) by auto
  moreover have "doc \<in> set bd" using bd doc by (auto intro: ranI)
  ultimately show ?thesis using g doc bd by blast
qed

definition proved_db :: memdb where
  "proved_db = fst (cas_SetDocsBlockDigest mem_session 9 [''i''] ''dg'' ''tx'' stored_db)"

theorem valid_proof_is_registered_witness:
  "\<exists>s' sp r. getProofResult (toy_env (cassandra_persister mem_session)) ''i'' proved_db toy_server
       = (s', sp, Ret (200, ProofBody r)) \<and> pr_Status r = ''valid''"
proof -
  let ?V = "toy_env (cassandra_persister mem_session)"
  have "\<exists>doc. cas_GetDocFromDBByDocID mem_session ''i'' proved_db = Inr doc \<and> BlockDigest doc = ''dg'' \<and>
      Sign doc = [] \<and> Id doc = ''i'' \<and> cas_FindDocsByBlockDigest mem_session ''dg'' proved_db = Inr [doc]"
    by (rule exI [of _ "stored_doc\<lparr>BlockDigest := ''dg'', ProofTime := 9, Txid := ''tx'', ProofStatus := ALREADY_PROOFED\<rparr>"])
       code_simp
  then obtain doc where doc: "cas_GetDocFromDBByDocID mem_session ''i'' proved_db = Inr doc" "BlockDigest doc = ''dg''"
      "Sign doc = []" "Id doc = ''i''" "cas_FindDocsByBlockDigest mem_session ''dg'' proved_db = Inr [doc]"
    by blast
  obtain bc' w' where "VerifyDocs (sha256 toy_digests) toy_fabric (toy_decode UNIV) [doc] toy_bc () = (bc', w', Ret True)"
    using toy_verifies [of "[doc]"] by (metis list.distinct(1) prod.collapse)
  with doc have "\<exists>s' sp body. getProofResult ?V ''i'' proved_db toy_server = (s', sp, Ret (200, body))"
    by (simp add: getProofResult_def Let_def toy_env_def toy_server_def cassandra_persister_def attach_signature_def
        setDocSign_def ECDSASign_def once_Do_def sign_init_def initKeys_def toy_ecdsa_def GetPublicKey_def empty_proof_def)
  then obtain s' sp body where g: "getProofResult ?V ''i'' proved_db toy_server = (s', sp, Ret (200, body))" by blast
  have "env_persister ?V = cassandra_persister mem_session" "honest_chain (env_fabric ?V) (env_decode ?V) (\<lambda>_. UNIV)"
    "peer_available (env_fabric ?V) (srv_bc toy_server)"
    using toy_chain by (simp_all add: toy_env_def toy_server_def)
  from valid_proof_is_registered [OF memdb.cql_store_axioms this g] g show ?thesis by blast
qed

text \<open>
  C7. The same for a request that sends the document itself: the answer \<open>valid\<close> is only given when
  a stored document has the hash of what was sent, has a block digest, and its whole batch
  hashes to a root that is on the chain.
\<close>

theorem valid_result_is_registered:
  assumes "cql_store S rows" and "env_persister V = cassandra_persister S"
    and "honest_chain (env_fabric V) (env_decode V) reg" and "peer_available (env_fabric V) (srv_bc s)"
    and "postProofResult V (Inr raw) db s = (s', sp, Ret (200, body))"
  shows "\<exists>doc blockDocs r sg. body = ProofBody r \<and> pr_Status r = ''valid'' \<and> pr_Doc r = doc\<lparr>Sign := sg\<rparr> \<and>
     doc \<in> ran (table_of (rows db)) \<and> Hash doc = DocumentHash (env_digests V) raw \<and> BlockDigest doc \<noteq> [] \<and>
     set blockDocs = {d \<in> ran (table_of (rows db)). BlockDigest d = BlockDigest doc} \<and>
     formatDocs (sha256 (env_digests V)) blockDocs \<in> reg (srv_world s)"
  by (rule postProofResult_valid [OF assms])

theorem valid_result_is_registered_witness:
  "\<exists>s' sp r. postProofResult (toy_env (cassandra_persister mem_session)) (Inr ''abc'') hashed_db toy_server
       = (s', sp, Ret (200, ProofBody r)) \<and> pr_Status r = ''valid''"
proof -
  let ?V = "toy_env (cassandra_persister mem_session)"
  obtain s' sp body where g: "postProofResult ?V (Inr ''abc'') hashed_db toy_server = (s', sp, Ret (200, body))"
    using hashed_answer by blast
  have "env_persister ?V = cassandra_persister mem_session" "honest_chain (env_fabric ?V) (env_decode ?V) (\<lambda>_. UNIV)"
    "peer_available (env_fabric ?V) (srv_bc toy_server)"
    using toy_chain by (simp_all add: toy_env_def toy_server_def)
  from valid_result_is_registered [OF memdb.cql_store_axioms this g] g show ?thesis by blast
qed

section \<open>Listings\<close>

lemma FindDocs_rows:
  assumes "cql_store S rows" and "cas_FindDocs S app st cnt db = Inr ds"
  obtains rs where "ds = map scan_row rs" and "distinct (map r_id rs)" and "length rs \<le> nat (sint cnt)"
    and "\<And>r. r \<in> set rs \<Longrightarrow> r \<in> ran (rows db) \<and> r_appName r = Some app \<and> r_proofStatus r = Some st"
proof -
  obtain rs where "ds = map scan_row rs" "IterRows S (WhereApp app st) (Some cnt) db = (rs, None)"
    using assms(2) by (auto simp: cas_FindDocs_def iterToDocs_Inr split: if_splits)
  with cql_store.iter_limit [OF assms(1) this(2)] show ?thesis by (auto intro!: that)
qed

lemma clamp_count_bounds: "0 < sint (clamp_count c) \<and> sint (clamp_count c) \<le> 200"
  by (auto simp: clamp_count_def Let_def split: sum.splits)

definition listed_status :: "string \<Rightarrow> DocProofStatus" where
  "listed_status searchType = (if searchType = ''register'' then NOT_PROOFED
     else if searchType = ''proof'' then ALREADY_PROOFED else NOT_SPECIFIAL)"

definition listed_key :: "string \<Rightarrow> document \<Rightarrow> int" where
  "listed_key searchType = (if searchType = ''proof'' then by_ProofTime else by_SubmitTime)"

lemma getDocs_200:
  assumes "getDocs P srt app searchType c p = (200, body)"
  obtains docs where "FindDocs P (if app = [] then default_appName else app) (listed_status searchType) (clamp_count c) p = Inr docs"
    and "body = DocsBody (srt (listed_key searchType) docs)"
  using assms by (auto simp: getDocs_def Let_def listed_status_def listed_key_def split: if_splits sum.splits)

text \<open>
  C24. A listing never holds more than 200 documents, each of them once, all of them stored
  for the requested application (or the default one) with the status that was asked for, in the
  order of their times.
\<close>

theorem listing_bounded_sorted:
  assumes "cql_store S rows" and "sort_Sort srt"
    and "getDocs (cassandra_persister S) srt app searchType c db = (200, DocsBody docs)"
  shows "length docs \<le> 200 \<and> distinct (map Id docs) \<and> sorted (map (listed_key searchType) docs) \<and>
     (\<forall>d \<in> set docs. table_of (rows db) (Id d) = Some d \<and> ProofStatus d = listed_status searchType \<and>
        AppName d = (if app = [] then default_appName else app))"
proof -
  let ?app = "if app = [] then default_appName else app"
  obtain ds where f: "cas_FindDocs S ?app (listed_status searchType) (clamp_count c) db = Inr ds"
    and docs: "docs = srt (listed_key searchType) ds"
    using assms(3) by (auto simp: cassandra_persister_def elim: getDocs_200)
  obtain rs where ds: "ds = map scan_row rs" and rs: "distinct (map r_id rs)" "length rs \<le> nat (sint (clamp_count c))"
    "\<And>r. r \<in> set rs \<Longrightarrow> r \<in> ran (rows db) \<and> r_appName r = Some ?app \<and> r_proofStatus r = Some (listed_status searchType)"
    by (rule FindDocs_rows [OF assms(1) f]) blast
  have srt: "mset docs = mset ds" "sorted (map (listed_key searchType) docs)"
    using assms(2) by (auto simp: docs sort_Sort_def)
  have "length docs \<le> 200"
    using mset_eq_length [OF srt(1)] rs(2) clamp_count_bounds [of c]
      nat_mono [of "sint (clamp_count c)" 200] by (simp add: ds)
  moreover have "mset (map Id docs) = mset (map r_id rs)"
    using srt(1) by (simp add: ds image_mset.compositionality comp_def)
  then have "distinct (map Id docs)" using rs(1) by (metis mset_eq_imp_distinct_iff)
  moreover have "table_of (rows db) (Id d) = Some d \<and> ProofStatus d = listed_status searchType \<and> AppName d = ?app"
    if "d \<in> set docs" for d
  proof -
    obtain r where r: "r \<in> set rs" "d = scan_row r"
      using \<open>d \<in> set docs\<close> mset_eq_setD [OF srt(1)] by (auto simp: ds)
    then obtain i where "rows db i = Some r" using rs(3) by (auto simp: ran_def)
    moreover from this have "r_id r = i" by (rule cql_store.row_key [OF assms(1)])
    ultimately show ?thesis using rs(3) [OF r(1)] r(2) by (simp add: table_of_def scan_row_def)
  qed
  ultimately show ?thesis using srt(2) by blast
qed

definition insertion_sorter :: sorter where
  "insertion_sorter key docs = sort_key key docs"

lemma sort_Sort_insertion: "sort_Sort insertion_sorter"
  by (simp add: sort_Sort_def insertion_sorter_def)

definition two_docs :: "document list" where
  "two_docs = [stored_doc\<lparr>AppName := ''a''\<rparr>, stored_doc\<lparr>Id := ''j'', SubmitTime := 3, AppName := ''a''\<rparr>]"

theorem listing_bounded_sorted_witness:
  "\<exists>docs. getDocs (cassandra_persister mem_session) insertion_sorter ''a'' ''register'' (Inr 7)
       (fst (cas_PutDocsIntoDB mem_session two_docs [])) = (200, DocsBody docs) \<and>
     map Id docs = [''j'', ''i''] \<and> sorted (map by_SubmitTime docs)"
proof -
  let ?db = "fst (cas_PutDocsIntoDB mem_session two_docs [])"
  let ?docs = "[stored_doc\<lparr>Id := ''j'', SubmitTime := 3, AppName := ''a''\<rparr>, stored_doc\<lparr>AppName := ''a''\<rparr>]"
  have g: "getDocs (cassandra_persister mem_session) insertion_sorter ''a'' ''register'' (Inr 7) ?db
      = (200, DocsBody ?docs)"
    by code_simp
  have "map Id ?docs = [''j'', ''i'']" by code_simp
  with listing_bounded_sorted [OF memdb.cql_store_axioms sort_Sort_insertion g] g show ?thesis
    by (auto simp: listed_key_def)
qed

text \<open>The statements the program issues: the two statuses they write are never \<open>NOT_SPECIFIAL\<close>.\<close>

fun issued :: "cql_write \<Rightarrow> bool" where
  "issued (InsertDoc i h s w m a st) \<longleftrightarrow> st = NOT_PROOFED"
| "issued (UpdateProof dg t tx st i) \<longleftrightarrow> st = ALREADY_PROOFED"
| "issued (UpdateSign sg i) \<longleftrightarrow> True"

lemma issued_status:
  assumes "list_all issued ws" and "\<And>r. r \<in> ran t \<Longrightarrow> r_proofStatus r \<noteq> Some NOT_SPECIFIAL"
    and "r \<in> ran (fold upsert ws t)"
  shows "r_proofStatus r \<noteq> Some NOT_SPECIFIAL"
  using assms
proof (induction ws arbitrary: t)
  case Nil
  then show ?case by simp
next
  case (Cons w ws)
  have step: "r_proofStatus r \<noteq> Some NOT_SPECIFIAL" if "r \<in> ran (upsert w t)" for r
  proof -
    let ?old = "case t (write_key w) of None \<Rightarrow> null_row (write_key w) | Some r \<Rightarrow> r"
    have "r = write_row w ?old \<or> r \<in> ran t"
      using that by (auto simp: ran_def upsert_def split: if_splits)
    moreover have "r_proofStatus ?old \<noteq> Some NOT_SPECIFIAL"
      using Cons.prems(2) by (auto simp: null_row_def ran_def split: option.splits)
    moreover have "issued w" using Cons.prems(1) by simp
    ultimately show ?thesis using Cons.prems(2) by (cases w) auto
  qed
  show ?case
    using Cons.prems(1,3) step by (intro Cons.IH [of "upsert w t"]) auto
qed

text \<open>
  The listing without a type, meant for documents of every status, is empty whatever was
  stored: it asks for the status \<open>NOT_SPECIFIAL\<close>, which no statement of the program writes.
\<close>

theorem default_listing_empty:
  assumes "cql_store S rows" and "rows db = fold upsert ws Map.empty" and "list_all issued ws"
    and "sort_Sort srt" and "getDocs (cassandra_persister S) srt app [] c db = (200, body)"
  shows "body = DocsBody []"
proof -
  let ?app = "if app = [] then default_appName else app"
  obtain ds where f: "cas_FindDocs S ?app NOT_SPECIFIAL (clamp_count c) db = Inr ds"
    and body: "body = DocsBody (srt (listed_key []) ds)"
    using assms(5) by (auto simp: cassandra_persister_def listed_status_def elim: getDocs_200)
  obtain rs where ds: "ds = map scan_row rs"
    and rs: "\<And>r. r \<in> set rs \<Longrightarrow> r \<in> ran (rows db) \<and> r_appName r = Some ?app \<and> r_proofStatus r = Some NOT_SPECIFIAL"
    by (rule FindDocs_rows [OF assms(1) f]) blast
  have "r_proofStatus r \<noteq> Some NOT_SPECIFIAL" if "r \<in> ran (rows db)" for r
    using issued_status [OF assms(3), of Map.empty r] that by (simp add: assms(2))
  then have "set rs = {}" using rs by (metis equals0I)
  then have "mset (srt (listed_key []) ds) = {#}"
    using assms(4) by (simp add: sort_Sort_def ds)
  then show ?thesis by (simp add: body)
qed

theorem default_listing_empty_witness:
  "getDocs (cassandra_persister mem_session) insertion_sorter ''a'' [] (Inr 7)
     (fst (cas_PutDocsIntoDB mem_session two_docs [])) = (200, DocsBody [])"
proof -
  let ?db = "fst (cas_PutDocsIntoDB mem_session two_docs [])"
  obtain body where g: "getDocs (cassandra_persister mem_session) insertion_sorter ''a'' [] (Inr 7) ?db = (200, body)"
    by (simp add: getDocs_def Let_def cassandra_persister_def cas_FindDocs_def clamp_count_def mem_session_def iterToDocs_def)
  have "mem_rows ?db = fold upsert (map put_statement two_docs) Map.empty"
    by (simp add: cas_PutDocsIntoDB_def mem_session_def mem_rows_fold) (simp add: mem_rows_def fun_eq_iff)
  moreover have "list_all issued (map put_statement two_docs)" by code_simp
  ultimately show ?thesis
    using default_listing_empty [OF memdb.cql_store_axioms _ _ sort_Sort_insertion g] g by simp
qed

section \<open>The registration tick over a cache\<close>

text \<open>
  C36. Documents taken for registration are lost when no peer can be reached: the tick removes
  them from the consumer's part of the cache, the invocation fails, nothing is remembered and
  nothing is put back. This holds for every cache that meets the interface.
\<close>

theorem tick_without_peer_loses:
  assumes "cache_contract D put get pend ok ivr" and "ivr c"
    and "ok x c (topicf (Period per))"
    and "get x (bc_name bc) (topicf (Period per)) (Limit per) c = (c', Ret (Inr ds))"
    and "\<And>a w. snd (Dial F a w) = None" and "rr_inv (peerBackend bc)"
  shows "\<exists>bc' w'. proof_tick sha F get topicf x per bc c w = (bc', c', w', Ret ()) \<and>
     bc_items bc' = bc_items bc \<and>
     pend c' (bc_name bc) (topicf (Period per)) + mset ds = pend c (bc_name bc) (topicf (Period per))"
proof -
  have "\<exists>rr w'. connect_loop F bc 0 (peerBackend bc) w = (rr, w', Ret None)"
    using connect_loop_refused [OF assms(5), of bc 0 "rr_elems (peerBackend bc)" w] rr_inv_eq [OF assms(6)] by simp
  then obtain rr w' where ex: "\<And>m f args. execute F m f args bc w
      = (bc\<lparr>peerBackend := rr\<rparr>, w', Ret (Inl ''create grpc client conn valid''))"
    by (auto simp: execute_def execute_shared_def Let_def simp flip: connect_loop_def)
  have "\<exists>bc' w'. RegisterProof sha F ds bc w = (bc', w', Ret ()) \<and> bc_items bc' = bc_items bc"
    by (simp add: RegisterProof_def Let_def ex)
  moreover have "pend c' (bc_name bc) (topicf (Period per)) + mset ds = pend c (bc_name bc) (topicf (Period per))"
    using cache_contract.get_takes [OF assms(1-4)] by simp
  ultimately show ?thesis
    using assms(4) by (auto simp: proof_tick_def getDocsFromCache_def)
qed

definition down_fabric :: "(unit, unit) fabric" where
  "down_fabric = toy_fabric\<lparr>Dial := (\<lambda>a w. (w, None))\<rparr>"

theorem tick_without_peer_loses_witness:
  "\<exists>bc' c'. proof_tick toy_sha down_fabric MemoryCache.Get MemoryCache.Topic [Id one_doc]
       \<lparr>Period = 1000000000, Limit = 5\<rparr> (toy_bc\<lparr>bc_name := ''persister''\<rparr>) one_doc_cache () = (bc', c', (), Ret ()) \<and>
     bc_items bc' = Map.empty \<and>
     MemoryCache.pending c' ''persister'' (MemoryCache.Topic 1000000000) + {#one_doc#}
       = MemoryCache.pending one_doc_cache ''persister'' (MemoryCache.Topic 1000000000)"
proof -
  let ?per = "\<lparr>Period = 1000000000, Limit = 5\<rparr>" and ?bc = "toy_bc\<lparr>bc_name := ''persister''\<rparr>"
  obtain c' where g: "MemoryCache.Get [Id one_doc] (bc_name ?bc) (MemoryCache.Topic (Period ?per)) (Limit ?per) one_doc_cache
      = (c', Ret (Inr [one_doc]))"
    using Get_one_doc by (simp add: prod_eq_iff)
  have "order_ok [Id one_doc] one_doc_cache (MemoryCache.Topic (Period ?per))"
    using one_doc_cache(2) by simp
  note at = this
  have "\<exists>bc' w'. proof_tick toy_sha down_fabric MemoryCache.Get MemoryCache.Topic [Id one_doc] ?per ?bc one_doc_cache ()
        = (bc', c', w', Ret ()) \<and> bc_items bc' = bc_items ?bc \<and>
      MemoryCache.pending c' (bc_name ?bc) (MemoryCache.Topic (Period ?per)) + mset [one_doc]
         = MemoryCache.pending one_doc_cache (bc_name ?bc) (MemoryCache.Topic (Period ?per))"
    by (rule tick_without_peer_loses [where topicf = MemoryCache.Topic and per = ?per and bc = ?bc and D = toy_digests and put = "MemoryCache.Put toy_digests"
        and get = MemoryCache.Get and pend = MemoryCache.pending and ok = order_ok and ivr = cache_inv
        and x = "[Id one_doc]" and c = one_doc_cache and c' = c' and ds = "[one_doc]",
        OF mem.cache_contract_axioms one_doc_cache(1) at g])
       (simp_all add: down_fabric_def toy_bc_def rr_inv_def)
  moreover have "bc_items ?bc = Map.empty" "bc_name ?bc = ''persister''" by (simp_all add: toy_bc_def)
  ultimately show ?thesis by (subst ex_comm) (intro exI [of _ c'], simp)
qed

text \<open>
  A period whose configured limit is not a number is never processed: with the limit 0 it
  gets, a tick takes nothing from the cache and registers nothing, whatever is waiting.
\<close>

theorem unreadable_limit_starves:
  assumes "cache_contract D put get pend ok ivr" and "ivr c"
    and "ok x c (topicf (Period per))"
    and "per = \<lparr>Period = d, Limit = fst (ParseInt l)\<rparr>" and "snd (ParseInt l) = Some ErrSyntax"
    and "get x (bc_name bc) (topicf (Period per)) (Limit per) c = (c', Ret (Inr ds))"
  shows "proof_tick sha F get topicf x per bc c w = (bc, c', w, Ret ()) \<and>
     pend c' (bc_name bc) (topicf (Period per)) = pend c (bc_name bc) (topicf (Period per))"
proof -
  have "ds = []"
    using cache_contract.get_count [OF assms(1-3,6)] ParseInt_syntax [OF assms(5)] assms(4) by simp
  then show ?thesis
    using cache_contract.get_takes [OF assms(1-3,6)] assms(6)
    by (simp add: proof_tick_def getDocsFromCache_def RegisterProof_def formatDocs_def)
qed

theorem unreadable_limit_starves_witness:
  "\<exists>c'. proof_tick toy_sha toy_fabric MemoryCache.Get MemoryCache.Topic [Id one_doc]
       \<lparr>Period = 1000000000, Limit = fst (ParseInt ''many'')\<rparr> toy_bc one_doc_cache () = (toy_bc, c', (), Ret ()) \<and>
     MemoryCache.pending c' ''blockchain'' (MemoryCache.Topic 1000000000)
       = MemoryCache.pending one_doc_cache ''blockchain'' (MemoryCache.Topic 1000000000)"
proof -
  let ?per = "\<lparr>Period = 1000000000, Limit = fst (ParseInt ''many'')\<rparr>"
  have syn: "snd (ParseInt ''many'') = Some ErrSyntax" by code_simp
  have "snd (MemoryCache.Get [Id one_doc] (bc_name toy_bc) (MemoryCache.Topic (Period ?per)) (Limit ?per) one_doc_cache)
      = Ret (Inr [])"
    using ParseInt_syntax [OF syn]
    by (simp add: MemoryCache.Get_def subscribed_def one_doc_cache MemoryCache.Subscribe_def Let_def entries_def
      List.map_filter_def)
  then obtain c' where g: "MemoryCache.Get [Id one_doc] (bc_name toy_bc) (MemoryCache.Topic (Period ?per)) (Limit ?per) one_doc_cache
      = (c', Ret (Inr []))"
    by (metis prod.collapse)
  have "order_ok [Id one_doc] one_doc_cache (MemoryCache.Topic (Period ?per))"
    using one_doc_cache(2) by simp
  note at = this
  have "proof_tick toy_sha toy_fabric MemoryCache.Get MemoryCache.Topic [Id one_doc] ?per toy_bc one_doc_cache ()
      = (toy_bc, c', (), Ret ()) \<and>
     MemoryCache.pending c' (bc_name toy_bc) (MemoryCache.Topic (Period ?per))
       = MemoryCache.pending one_doc_cache (bc_name toy_bc) (MemoryCache.Topic (Period ?per))"
    by (rule unreadable_limit_starves [where topicf = MemoryCache.Topic and per = ?per and bc = toy_bc and D = toy_digests and put = "MemoryCache.Put toy_digests"
        and get = MemoryCache.Get and pend = MemoryCache.pending and ok = order_ok and ivr = cache_inv
        and x = "[Id one_doc]" and c = one_doc_cache and c' = c',
        OF mem.cache_contract_axioms one_doc_cache(1) at refl syn g])
  moreover have "bc_name toy_bc = ''blockchain''" by (simp add: toy_bc_def)
  ultimately show ?thesis by auto
qed

section \<open>Submission into the cache\<close>

text \<open>
  C20. A well-formed submission is answered with 201, the identifier of the new document and the
  value the code computes as its predicted time, the submit time in nanoseconds plus the whole
  seconds of the waiting period, which defaults to the first configured one. A submission with metadata is
  filed under the default application whatever application it names. In the memory cache, if the
  identifier is new to the topic of the period, the document is then pending for every consumer; in
  the Kafka cache, if the document is marshalled and the broker accepts the message, the answer is
  the same and the message is the only change.
\<close>

theorem submitRaw_accepts:
  fixes k :: "'w KafkaCache"
  assumes "digest_sizes D" and "limits \<noteq> []"
    and "pd (if ProofWaitPeriod req = [] then dur_String (Period (limits ! 0)) else ProofWaitPeriod req) = Inr w"
    and "d = new_doc D now (if req_Metadata req \<noteq> [] then default_appName else req_AppName req)
          (RawDocument req) (req_Metadata req) w"
    and "ok = (201, SubmitBody \<lparr>sr_DocumentID = DocumentID D (RawDocument req) now,
                       sr_PerdictProofTime = UnixNano now + word_of_int (sint w div billion)\<rparr>)"
  shows "(\<exists>m'. submitRaw pd limits (MemoryCache.Put D now) (Inr req) m = (m', Ret ok) \<and>
        (cache_inv m \<and> topic_docs m (MemoryCache.Topic w) (Id d) = None \<and> \<not> readed m cu (MemoryCache.Topic w) (Id d) \<longrightarrow>
           MemoryCache.pending m' cu (MemoryCache.Topic w) = add_mset d (MemoryCache.pending m cu (MemoryCache.Topic w)))) \<and>
     (\<forall>K msg b'. marshal K d = Inr msg \<and> SendMessage K (KafkaCache.Topic w) msg (k_world k) = (b', None) \<longrightarrow>
        submitRaw pd limits (KafkaCache.Put K D now) (Inr req) k = (k\<lparr>k_world := b'\<rparr>, Ret ok))"
proof -
  define app where "app = (if req_Metadata req \<noteq> [] then default_appName else req_AppName req)"
  have app: "d = new_doc D now app (RawDocument req) (req_Metadata req) w" by (simp add: assms(4) app_def)
  have id: "Id d = DocumentID D (RawDocument req) now" and ok: "ok = (201, SubmitBody
      \<lparr>sr_DocumentID = Id d, sr_PerdictProofTime = perdictProofTime d\<rparr>)"
    by (simp_all add: assms(5) app new_doc_def perdictProofTime_eq)
  have long: "\<not> length (Id d) < 8" using length_DocumentID [OF assms(1)] by (simp add: id)
  have answer: "submitRaw pd limits put (Inr req) c = (c', Ret ok)"
    if "put app (RawDocument req) (req_Metadata req) w c = (c', Ret (Inr d))" for put and c c' :: 'x
    using assms(2,3) that long by (simp add: submitRaw_def Let_def app_def [symmetric] ok split del: if_split)
  obtain m1 where put: "MemoryCache.Put D now app (RawDocument req) (req_Metadata req) w m = (m1, Ret (Inr d))"
    by (simp add: MemoryCache.Put_def Let_def app)
  have "MemoryCache.pending m1 cu (MemoryCache.Topic w) = add_mset d (MemoryCache.pending m cu (MemoryCache.Topic w))"
    if "cache_inv m" "topic_docs m (MemoryCache.Topic w) (Id d) = None" "\<not> readed m cu (MemoryCache.Topic w) (Id d)"
    using pending_Put [OF that(1) refl, where D = D and now = now and app = app and raw = "RawDocument req"
        and meta = "req_Metadata req" and w = w and cu = cu] that(2,3) put by (simp add: app)
  moreover have "submitRaw pd limits (KafkaCache.Put K D now) (Inr req) k = (k\<lparr>k_world := b'\<rparr>, Ret ok)"
    if "marshal K d = Inr msg" "SendMessage K (KafkaCache.Topic w) msg (k_world k) = (b', None)" for K msg b'
    by (rule answer) (use that long in \<open>simp add: KafkaCache.Put_def Let_def app\<close>)
  moreover have "submitRaw pd limits (MemoryCache.Put D now) (Inr req) m = (m1, Ret ok)" using answer [of "MemoryCache.Put D now" m m1] put by blast
  ultimately show ?thesis by (intro conjI exI [of _ m1]) simp_all
qed

definition toy_request :: DocumentSubmitRequest where
  "toy_request = \<lparr>ProofWaitPeriod = [], RawDocument = ''abc'', req_Metadata = ''m'', req_AppName = ''app''\<rparr>"

theorem submitRaw_accepts_witness:
  "\<exists>m' t. submitRaw (\<lambda>s. Inr 60000000000) [\<lparr>Period = 60000000000, Limit = 5\<rparr>]
       (MemoryCache.Put toy_digests (time_Unix 1)) (Inr toy_request) NewMemoryCache
       = (m', Ret (201, SubmitBody \<lparr>sr_DocumentID = DocumentID toy_digests ''abc'' (time_Unix 1), sr_PerdictProofTime = t\<rparr>)) \<and>
     MemoryCache.pending m' ''blockchain'' (MemoryCache.Topic 60000000000)
       = {#new_doc toy_digests (time_Unix 1) default_appName ''abc'' ''m'' 60000000000#}"
  using submitRaw_accepts [where limits = "[\<lparr>Period = 60000000000, Limit = 5\<rparr>]" and w = 60000000000
      and pd = "\<lambda>s. Inr 60000000000" and req = toy_request and now = "time_Unix 1" and cu = "''blockchain''"
      and m = NewMemoryCache, OF digest_sizes_toy _ _ refl refl] cache_inv_New
  by (fastforce simp: NewMemoryCache_def topic_docs_def readed_def toy_request_def MemoryCache.pending_def unread_def)

end
